(* ===== verification/Go_Prelude.thy ===== *)
theory Go_Prelude
  imports Main "HOL-Library.Word" "HOL-Library.Multiset"
begin

text \<open>
  Shared vocabulary of the development: the machine types of the Go sources, Go's \<open>error\<close>
  values with wrapping and \<open>errors.Is\<close>, the loop combinator in which every unbounded Go
  \<open>for\<close> loop is written, and the generic lemmas the component theories share.

  \<^item> \<open>uint64\<close> is a 64-bit word, a byte is an 8-bit word; Go strings are byte sequences, so
    the type \<open>string\<close> (lists of 8-bit characters) represents them exactly.
  \<^item> A call that leaves the program (RPC, disk, database, context, clock) is a function on an
    environment type \<open>'e\<close> returning its answer and the environment after the call.
  \<^item> \<open>go_loop\<close> runs a loop body until it returns. \<open>None\<close> is \<open>the loop does not return\<close>.
\<close>

section \<open>Machine types\<close>

type_synonym u64 = "64 word"
type_synonym byte = "8 word"
type_synonym bytes = "byte list"

named_theorems u64_arith \<open>facts that move 64-bit word arithmetic to the natural numbers\<close>

definition MaxUint64 :: nat where
  "MaxUint64 = 2 ^ 64 - 1"

section \<open>Errors\<close>

text \<open>
  The sentinel errors the code compares with \<open>errors.Is\<close> are constructors of their own;
  \<open>Err_New\<close> is any other leaf error, and \<open>Err_Wrap pre e post\<close> is
  \<open>fmt.Errorf("pre%wpost", e)\<close>.
\<close>

datatype go_error =
    Context_Canceled
  | Context_DeadlineExceeded
  | Redis_Nil
  | Os_ErrNotExist
  | Http_ErrServerClosed
  | Strconv_ErrSyntax
  | Strconv_ErrRange
  | Err_New string
  | Err_Wrap string go_error string

type_synonym 'a go_result = "go_error + 'a"

fun error_msg :: "go_error \<Rightarrow> string" where
  "error_msg Context_Canceled = ''context canceled''"
| "error_msg Context_DeadlineExceeded = ''context deadline exceeded''"
| "error_msg Redis_Nil = ''redis: nil''"
| "error_msg Os_ErrNotExist = ''file does not exist''"
| "error_msg Http_ErrServerClosed = ''http: Server closed''"
| "error_msg Strconv_ErrSyntax = ''invalid syntax''"
| "error_msg Strconv_ErrRange = ''value out of range''"
| "error_msg (Err_New s) = s"
| "error_msg (Err_Wrap pre e post) = pre @ error_msg e @ post"

fun error_chain :: "go_error \<Rightarrow> go_error list" where
  "error_chain (Err_Wrap pre e post) = Err_Wrap pre e post # error_chain e"
| "error_chain e = [e]"

text \<open>\<open>errors.Is(err, target)\<close>; a nil error is \<open>None\<close>, and nil matches only nil.\<close>

fun errors_Is :: "go_error option \<Rightarrow> go_error option \<Rightarrow> bool" where
  "errors_Is None target = (target = None)"
| "errors_Is (Some e) None = False"
| "errors_Is (Some e) (Some target) = (target \<in> set (error_chain e))"

lemma error_chain_self [simp]: "e \<in> set (error_chain e)"
  by (cases e) auto

lemma errors_Is_refl [simp]: "errors_Is err err"
  by (cases err) auto

lemma errors_Is_wrap: "errors_Is (Some e) t \<Longrightarrow> errors_Is (Some (Err_Wrap pre e post)) t"
  by (cases t) auto

section \<open>Loops\<close>

text \<open>
  The body is given the loop state; \<open>Some (Inl s)\<close> goes round again with state \<open>s\<close>,
  \<open>Some (Inr r)\<close> leaves the loop with \<open>r\<close> (a \<open>return\<close>, a \<open>break\<close>, or a failed loop
  condition), and \<open>None\<close> means that a call inside the body never returned.
\<close>

partial_function (option) go_loop :: "('s \<Rightarrow> ('s + 'r) option) \<Rightarrow> 's \<Rightarrow> 'r option" where
  "go_loop body s =
     Option.bind (body s) (\<lambda>x. case x of Inl s' \<Rightarrow> go_loop body s' | Inr r \<Rightarrow> Some r)"

lemma go_loop_Inl: "body s = Some (Inl s') \<Longrightarrow> go_loop body s = go_loop body s'"
  by (subst go_loop.simps) simp

lemma go_loop_Inr: "body s = Some (Inr r) \<Longrightarrow> go_loop body s = Some r"
  by (subst go_loop.simps) simp

lemma go_loop_None: "body s = None \<Longrightarrow> go_loop body s = None"
  by (subst go_loop.simps) simp

text \<open>
  The terminating runs of a loop as a relation, which gives rule induction over a run.
\<close>

inductive loop_run :: "('s \<Rightarrow> ('s + 'r) option) \<Rightarrow> 's \<Rightarrow> 'r \<Rightarrow> bool" for body where
  leave: "body s = Some (Inr r) \<Longrightarrow> loop_run body s r"
| again: "body s = Some (Inl s') \<Longrightarrow> loop_run body s' r \<Longrightarrow> loop_run body s r"

lemma go_loop_run: "go_loop body s = Some r \<Longrightarrow> loop_run body s r"
proof (rule go_loop.raw_induct [where P = loop_run])
  fix loop :: "('s \<Rightarrow> ('s + 'r) option) \<Rightarrow> 's \<Rightarrow> 'r option" and body s r
  assume IH: "\<And>body s r. loop body s = Some r \<Longrightarrow> loop_run body s r"
    and "Option.bind (body s)
      (\<lambda>x. case x of Inl s' \<Rightarrow> loop body s' | Inr r \<Rightarrow> Some r) = Some r"
  then obtain x where x: "body s = Some x"
      "(case x of Inl s' \<Rightarrow> loop body s' | Inr r \<Rightarrow> Some r) = Some r"
    by (auto simp: bind_eq_Some_conv)
  then show "loop_run body s r"
    by (cases x) (auto intro: loop_run.intros IH)
qed

lemma loop_run_iff: "loop_run body s r \<longleftrightarrow> go_loop body s = Some r"
proof
  assume "loop_run body s r"
  then show "go_loop body s = Some r"
    by induction (simp_all add: go_loop_Inr go_loop_Inl)
qed (rule go_loop_run)

text \<open>Partial correctness: an invariant of the body relates the start to the result.\<close>

lemma go_loop_rule:
  assumes "go_loop body s = Some r" and "I s"
    and keep: "\<And>s s'. I s \<Longrightarrow> body s = Some (Inl s') \<Longrightarrow> I s'"
    and exit: "\<And>s r. I s \<Longrightarrow> body s = Some (Inr r) \<Longrightarrow> Q r"
  shows "Q r"
proof -
  from assms(1) have "loop_run body s r" by (rule go_loop_run)
  then show ?thesis
    using \<open>I s\<close> by induction (auto intro: keep exit)
qed

text \<open>
  The states a loop passes through, whether or not it ever returns: safety properties of a
  server loop are invariants of these.
\<close>

inductive loop_reach :: "('s \<Rightarrow> ('s + 'r) option) \<Rightarrow> 's \<Rightarrow> 's \<Rightarrow> bool" for body s where
  here: "loop_reach body s s"
| round: "loop_reach body s t \<Longrightarrow> body t = Some (Inl t') \<Longrightarrow> loop_reach body s t'"

lemma loop_reach_invariant:
  assumes "loop_reach body s t" and "I s"
    and "\<And>s s'. I s \<Longrightarrow> body s = Some (Inl s') \<Longrightarrow> I s'"
  shows "I t"
  using assms by (induction rule: loop_reach.induct) auto

text \<open>A loop that returns does so from a state it passed through.\<close>

lemma go_loop_exit_state:
  assumes "go_loop body s = Some r"
  shows "\<exists>t. loop_reach body s t \<and> body t = Some (Inr r)"
  using assms
  by (rule go_loop_rule [where I = "loop_reach body s"]) (auto intro: loop_reach.intros)

text \<open>
  Total correctness: if under the invariant every round either returns or continues with a
  smaller measure, the loop returns.
\<close>

lemma go_loop_total:
  fixes m :: "'s \<Rightarrow> nat"
  assumes "I s"
    and round: "\<And>s. I s \<Longrightarrow>
      (\<exists>r. body s = Some (Inr r)) \<or> (\<exists>s'. body s = Some (Inl s') \<and> I s' \<and> m s' < m s)"
  shows "\<exists>r. go_loop body s = Some r"
  using \<open>I s\<close>
proof (induction "m s" arbitrary: s rule: less_induct)
  case less
  from round [OF less.prems] show ?case
  proof
    assume "\<exists>r. body s = Some (Inr r)"
    then show ?case by (auto dest: go_loop_Inr)
  next
    assume "\<exists>s'. body s = Some (Inl s') \<and> I s' \<and> m s' < m s"
    then obtain s' where s': "body s = Some (Inl s')" "I s'" "m s' < m s" by blast
    from s'(1) have "go_loop body s = go_loop body s'" by (rule go_loop_Inl)
    with s' less.hyps show ?case by auto
  qed
qed

text \<open>Divergence: a loop whose every round continues, or hangs, never returns.\<close>

lemma go_loop_diverges:
  assumes "I s"
    and round: "\<And>s. I s \<Longrightarrow> body s = None \<or> (\<exists>s'. body s = Some (Inl s') \<and> I s')"
  shows "go_loop body s = None"
proof (rule ccontr)
  assume "go_loop body s \<noteq> None"
  then obtain r where "go_loop body s = Some r" by blast
  then have False
    by (rule go_loop_rule [where I = I and Q = "\<lambda>_. False", OF _ \<open>I s\<close>])
      (use round in fastforce)+
  then show False .
qed

section \<open>Words\<close>

lemma unat_add_u64 [u64_arith]:
  "unat (a :: u64) + unat b < 2 ^ 64 \<Longrightarrow> unat (a + b) = unat a + unat b"
  by (simp add: unat_word_ariths)

lemma unat_minus_one_u64 [u64_arith]: "(a :: u64) \<noteq> 0 \<Longrightarrow> unat (a - 1) = unat a - 1"
  by (simp add: unat_minus_one)

lemma unat_Suc_u64 [u64_arith]: "unat (a :: u64) < MaxUint64 \<Longrightarrow> unat (a + 1) = Suc (unat a)"
  by (simp add: MaxUint64_def unat_word_ariths)

lemma unat_u64_less: "unat (a :: u64) < 2 ^ 64"
proof -
  have "unat a < 2 ^ LENGTH(64)" by (rule unsigned_less)
  then show ?thesis by simp
qed

lemma unat_le_MaxUint64 [simp]: "unat (a :: u64) \<le> MaxUint64"
  using unat_u64_less [of a] by (simp add: MaxUint64_def)

lemma u64_pos_iff: "0 < unat (a :: u64) \<longleftrightarrow> a \<noteq> 0"
  by (simp add: unat_gt_0)

end
