(* ===== verification/Go_Text.thy ===== *)
theory Go_Text
  imports Go_Prelude
begin

text \<open>
  The text routines of the Go standard library that the sources call: decimal formatting and
  parsing of \<open>uint64\<close> (\<open>strconv\<close>), hexadecimal coding of byte slices (\<open>encoding/hex\<close>), the
  prefix and cut-set functions of \<open>strings\<close>, and \<open>big.Int.SetString\<close> and \<open>%x\<close> in base 16.
  The lemmas are the round trips and injectivity facts the components rest on.
\<close>

section \<open>Characters\<close>

definition byte_of_char :: "char \<Rightarrow> byte" where
  "byte_of_char c = word_of_nat (of_char c)"

definition char_of_byte :: "byte \<Rightarrow> char" where
  "char_of_byte b = char_of (unat b)"

definition is_digit :: "char \<Rightarrow> bool" where
  "is_digit c \<longleftrightarrow> 48 \<le> (of_char c :: nat) \<and> (of_char c :: nat) \<le> 57"

definition digit_char :: "nat \<Rightarrow> char" where
  "digit_char d = char_of (48 + d)"

definition digit_val :: "char \<Rightarrow> nat" where
  "digit_val c = of_char c - 48"

lemma of_char_digit: "d < 10 \<Longrightarrow> (of_char (digit_char d) :: nat) = 48 + d"
  by (simp add: digit_char_def)

lemma is_digit_digit_char [simp]: "d < 10 \<Longrightarrow> is_digit (digit_char d)"
  by (simp add: is_digit_def of_char_digit)

lemma digit_val_digit_char [simp]: "d < 10 \<Longrightarrow> digit_val (digit_char d) = d"
  by (simp add: digit_val_def of_char_digit)

section \<open>Decimal numbers: strconv.FormatUint and strconv.ParseUint\<close>

fun format_nat :: "nat \<Rightarrow> string" where
  "format_nat n =
     (if n < 10 then [digit_char n] else format_nat (n div 10) @ [digit_char (n mod 10)])"

declare format_nat.simps [simp del]

definition FormatUint :: "u64 \<Rightarrow> string" where
  "FormatUint n = format_nat (unat n)"

text \<open>
  \<open>strconv.ParseUint(s, 10, 64)\<close>: the empty string and every byte that is no decimal digit
  are syntax errors; the scan stops with a range error at the first digit that takes the value
  past \<open>2^64 - 1\<close>.
\<close>

fun parse_digits :: "nat \<Rightarrow> string \<Rightarrow> nat go_result" where
  "parse_digits n [] = Inr n"
| "parse_digits n (c # cs) =
     (if \<not> is_digit c then Inl Strconv_ErrSyntax
      else if MaxUint64 < n * 10 + digit_val c then Inl Strconv_ErrRange
      else parse_digits (n * 10 + digit_val c) cs)"

definition ParseUint :: "string \<Rightarrow> u64 go_result" where
  "ParseUint s =
     (if s = [] then Inl Strconv_ErrSyntax
      else case parse_digits 0 s of Inl e \<Rightarrow> Inl e | Inr n \<Rightarrow> Inr (word_of_nat n))"

lemma format_nat_nonempty [simp]: "format_nat n \<noteq> []"
  by (subst format_nat.simps) simp

lemma format_nat_digits: "c \<in> set (format_nat n) \<Longrightarrow> is_digit c"
proof (induction n rule: format_nat.induct)
  case (1 n)
  then show ?case
    by (cases "n < 10") (auto simp: format_nat.simps [of n])
qed

lemma parse_digits_append:
  "parse_digits k (s @ t) =
     (case parse_digits k s of Inl e \<Rightarrow> Inl e | Inr n \<Rightarrow> parse_digits n t)"
  by (induction k s rule: parse_digits.induct) auto

lemma parse_digits_format_nat: "n \<le> MaxUint64 \<Longrightarrow> parse_digits 0 (format_nat n) = Inr n"
proof (induction n rule: format_nat.induct)
  case (1 n)
  show ?case
  proof (cases "n < 10")
    case True
    then show ?thesis using "1.prems" by (simp add: format_nat.simps [of n] not_less)
  next
    case False
    then have "n div 10 \<le> MaxUint64" using "1.prems" by linarith
    with False "1.IH" have "parse_digits 0 (format_nat (n div 10)) = Inr (n div 10)" by simp
    moreover have "n div 10 * 10 + n mod 10 = n" by simp
    ultimately show ?thesis
      using False "1.prems" by (simp add: format_nat.simps [of n] parse_digits_append not_less)
  qed
qed

lemma ParseUint_FormatUint [simp]: "ParseUint (FormatUint n) = Inr n"
  by (simp add: ParseUint_def FormatUint_def parse_digits_format_nat)

lemma FormatUint_inject [simp]: "FormatUint m = FormatUint n \<longleftrightarrow> m = n"
  by (metis ParseUint_FormatUint sum.inject(2))

lemma FormatUint_digits: "c \<in> set (FormatUint n) \<Longrightarrow> is_digit c"
  by (auto simp: FormatUint_def dest: format_nat_digits)

lemma parse_digits_bound: "parse_digits k s = Inr n \<Longrightarrow> k \<le> MaxUint64 \<Longrightarrow> n \<le> MaxUint64"
  by (induction k s rule: parse_digits.induct) (auto split: if_splits)

lemma ParseUint_empty [simp]: "ParseUint [] = Inl Strconv_ErrSyntax"
  by (simp add: ParseUint_def)

section \<open>Hexadecimal: encoding/hex\<close>

definition hex_char :: "nat \<Rightarrow> char" where
  "hex_char d = char_of (if d < 10 then 48 + d else 87 + d)"

text \<open>The value of a hexadecimal digit of either case; \<open>None\<close> for any other byte.\<close>

definition from_hex_char :: "char \<Rightarrow> nat option" where
  "from_hex_char c =
     (let v = of_char c :: nat in
      if 48 \<le> v \<and> v \<le> 57 then Some (v - 48)
      else if 97 \<le> v \<and> v \<le> 102 then Some (v - 87)
      else if 65 \<le> v \<and> v \<le> 70 then Some (v - 55)
      else None)"

fun hex_EncodeToString :: "bytes \<Rightarrow> string" where
  "hex_EncodeToString [] = []"
| "hex_EncodeToString (b # bs) =
     hex_char (unat b div 16) # hex_char (unat b mod 16) # hex_EncodeToString bs"

text \<open>
  \<open>hex.DecodeString\<close>: pairs are decoded from the left and the first byte that is no hex digit
  is an \<open>InvalidByteError\<close>; a trailing single digit is \<open>ErrLength\<close>.
\<close>

definition hex_ErrLength :: go_error where
  "hex_ErrLength = Err_New ''encoding/hex: odd length hex string''"

definition hex_InvalidByteError :: "char \<Rightarrow> go_error" where
  "hex_InvalidByteError c = Err_New (''encoding/hex: invalid byte: '' @ [c])"

fun hex_DecodeString :: "string \<Rightarrow> bytes go_result" where
  "hex_DecodeString [] = Inr []"
| "hex_DecodeString [p] =
     (case from_hex_char p of None \<Rightarrow> Inl (hex_InvalidByteError p) | Some _ \<Rightarrow> Inl hex_ErrLength)"
| "hex_DecodeString (p # q # s) =
     (case from_hex_char p of
        None \<Rightarrow> Inl (hex_InvalidByteError p)
      | Some a \<Rightarrow> (case from_hex_char q of
          None \<Rightarrow> Inl (hex_InvalidByteError q)
        | Some b \<Rightarrow> (case hex_DecodeString s of
            Inl e \<Rightarrow> Inl e
          | Inr bs \<Rightarrow> Inr (word_of_nat (16 * a + b) # bs))))"

lemma from_hex_char_hex_char [simp]: "d < 16 \<Longrightarrow> from_hex_char (hex_char d) = Some d"
  by (auto simp: from_hex_char_def hex_char_def Let_def)

lemma from_hex_char_bound: "from_hex_char c = Some d \<Longrightarrow> d < 16"
  by (auto simp: from_hex_char_def Let_def split: if_splits)

lemma unat_byte_less: "unat (b :: byte) < 256"
proof -
  have "unat b < 2 ^ LENGTH(8)" by (rule unsigned_less)
  then show ?thesis by simp
qed

lemma hex_Decode_Encode [simp]: "hex_DecodeString (hex_EncodeToString bs) = Inr bs"
proof (induction bs)
  case (Cons b bs)
  have "unat b div 16 < 16" using unat_byte_less [of b] by (simp add: less_mult_imp_div_less)
  with Cons.IH show ?case by simp
qed simp

lemma hex_EncodeToString_inject [simp]:
  "hex_EncodeToString xs = hex_EncodeToString ys \<longleftrightarrow> xs = ys"
  by (metis hex_Decode_Encode sum.inject(2))

lemma length_hex_EncodeToString [simp]: "length (hex_EncodeToString bs) = 2 * length bs"
  by (induction bs) auto

lemma hex_DecodeString_even: "hex_DecodeString s = Inr bs \<Longrightarrow> length s = 2 * length bs"
  by (induction s arbitrary: bs rule: hex_DecodeString.induct)
    (auto split: option.splits sum.splits)

lemma hex_DecodeString_ok_iff:
  "(\<exists>bs. hex_DecodeString s = Inr bs)
    \<longleftrightarrow> even (length s) \<and> (\<forall>c \<in> set s. from_hex_char c \<noteq> None)"
  by (induction s rule: hex_DecodeString.induct) (auto split: option.splits sum.splits)

section \<open>strings.TrimPrefix and strings.Trim\<close>

definition TrimPrefix :: "string \<Rightarrow> string \<Rightarrow> string" where
  "TrimPrefix s pre = (if take (length pre) s = pre then drop (length pre) s else s)"

text \<open>\<open>strings.Trim\<close> with a single-character cut set.\<close>

definition Trim :: "string \<Rightarrow> char \<Rightarrow> string" where
  "Trim s c = rev (dropWhile (\<lambda>x. x = c) (rev (dropWhile (\<lambda>x. x = c) s)))"

lemma TrimPrefix_append [simp]: "TrimPrefix (pre @ s) pre = s"
  by (simp add: TrimPrefix_def)

lemma Trim_quoted:
  assumes "s \<noteq> []" and "hd s \<noteq> c" and "last s \<noteq> c"
  shows "Trim (c # s @ [c]) c = s"
proof -
  have "dropWhile (\<lambda>x. x = c) (s @ [c]) = s @ [c]"
    using assms(1,2) by (cases s) auto
  moreover have "dropWhile (\<lambda>x. x = c) (rev s) = rev s"
    using assms(1,3) by (cases s rule: rev_cases) auto
  ultimately show ?thesis by (simp add: Trim_def)
qed

end
