(* ===== verification/BaseFee.thy ===== *)
theory BaseFee
  imports Complex_Main Go_Text
begin

text \<open>
  The EIP-1559 base fee calculator, \<open>go/eip1559/basefee.go\<close>. \<open>big.Int\<close> values are integers;
  \<open>big.Int.Div\<close> is Euclidean division. The theorems relate \<open>CalcNextBaseFee\<close> to the rational
  formula of the file's header comment, bound one step and a whole sequence of blocks, and show
  that the step is monotone in the gas used. \<open>basefee_main\<close> is the text the demo program prints.
\<close>

section \<open>Model\<close>

text \<open>\<open>big.Int.Div\<close>: the quotient whose remainder is not negative.\<close>

definition big_Div :: "int \<Rightarrow> int \<Rightarrow> int" where
  "big_Div x y = (if 0 < y then x div y else - (x div (- y)))"

definition TargetGas :: u64 where
  "TargetGas = 15000000"

definition CalcNextBaseFee :: "int \<Rightarrow> u64 \<Rightarrow> int" where
  "CalcNextBaseFee currentBaseFee gasUsed =
     (let delta = uint gasUsed - uint TargetGas;
          absDelta = \<bar>delta\<bar>;
          scaled = currentBaseFee * absDelta;
          scaled = big_Div scaled (uint TargetGas);
          scaled = big_Div scaled 8;
          scaled = (if delta < 0 then - scaled else scaled);
          nxt = currentBaseFee + scaled
      in if nxt < 1 then 1 else nxt)"

text \<open>\<open>main\<close> prints the fee after one block, with \<open>big.Int.String\<close>.\<close>

definition big_String :: "int \<Rightarrow> string" where
  "big_String z = (if z < 0 then CHR ''-'' # format_nat (nat (- z)) else format_nat (nat z))"

definition basefee_main :: string where
  "basefee_main =
     (let current = 100; gasUsed = 24000000 in
      ''Next BaseFee = '' @ big_String (CalcNextBaseFee current gasUsed) @ '' wei'' @ [CHR 0x0A])"

text \<open>The base fee after a sequence of blocks, given the gas each of them used.\<close>

definition base_fee_after :: "int \<Rightarrow> u64 list \<Rightarrow> int" where
  "base_fee_after fee gas = foldl CalcNextBaseFee fee gas"

section \<open>Arithmetic of one step\<close>

lemma uint_TargetGas [simp]: "uint TargetGas = 15000000"
  by (simp add: TargetGas_def)

lemma big_Div_pos [simp]: "0 < y \<Longrightarrow> big_Div x y = x div y"
  by (simp add: big_Div_def)

text \<open>The signed change of one step.\<close>

abbreviation fee_step :: "int \<Rightarrow> u64 \<Rightarrow> int" where
  "fee_step fee g \<equiv> fee * \<bar>uint g - 15000000\<bar> div 120000000"

lemma CalcNextBaseFee_eq:
  "CalcNextBaseFee fee g =
     max 1 (if uint g < 15000000 then fee - fee_step fee g else fee + fee_step fee g)"
  by (simp add: CalcNextBaseFee_def Let_def zdiv_zmult2_eq [symmetric])

lemma CalcNextBaseFee_ge_1: "1 \<le> CalcNextBaseFee fee g"
  by (simp add: CalcNextBaseFee_eq)

lemma fee_step_nonneg: "0 \<le> fee \<Longrightarrow> 0 \<le> fee_step fee g"
  by (simp add: pos_imp_zdiv_nonneg_iff)

lemma fee_step_mono_gas:
  assumes "0 \<le> fee" and "\<bar>uint g - 15000000\<bar> \<le> \<bar>uint h - 15000000\<bar>"
  shows "fee_step fee g \<le> fee_step fee h"
  using assms by (intro zdiv_mono1 mult_left_mono) auto

lemma fee_step_le_eighth:
  assumes "0 \<le> fee" and "uint g \<le> 2 * 15000000"
  shows "fee_step fee g \<le> fee div 8"
proof -
  have "\<bar>uint g - 15000000\<bar> \<le> 15000000"
    using assms(2) uint_ge_0 [of g] by linarith
  then have "fee_step fee g \<le> fee * 15000000 div (8 * 15000000)"
    using assms(1) zdiv_mono1 [OF mult_left_mono, of "\<bar>uint g - 15000000\<bar>" 15000000 fee 120000000]
    by simp
  also have "\<dots> = fee div 8"
    by (subst div_mult_mult2) simp_all
  finally show ?thesis .
qed

text \<open>The rational formula of the header comment, with the gas used as an integer.\<close>

definition exact_fee :: "int \<Rightarrow> int \<Rightarrow> real" where
  "exact_fee fee u = of_int fee * (1 + (of_int u - 15000000) / 15000000 / 8)"

lemma exact_fee_below:
  assumes "u < 15000000"
  shows "\<lceil>exact_fee fee u\<rceil> = fee - fee * \<bar>u - 15000000\<bar> div 120000000"
proof -
  have "exact_fee fee u = of_int fee - of_int (fee * \<bar>u - 15000000\<bar>) / of_int 120000000"
    using assms by (simp add: exact_fee_def field_simps)
  then have "- exact_fee fee u
      = of_int (fee * \<bar>u - 15000000\<bar>) / of_int 120000000 + of_int (- fee)"
    by simp
  then have "\<lfloor>- exact_fee fee u\<rfloor> = fee * \<bar>u - 15000000\<bar> div 120000000 + - fee"
    by (simp only: floor_add_int [symmetric] floor_divide_of_int_eq)
  then show ?thesis by (simp add: ceiling_def)
qed

lemma exact_fee_above:
  assumes "15000000 \<le> u"
  shows "\<lfloor>exact_fee fee u\<rfloor> = fee + fee * \<bar>u - 15000000\<bar> div 120000000"
proof -
  have "exact_fee fee u = of_int (fee * \<bar>u - 15000000\<bar>) / of_int 120000000 + of_int fee"
    using assms by (simp add: exact_fee_def field_simps)
  then have "\<lfloor>exact_fee fee u\<rfloor> = fee * \<bar>u - 15000000\<bar> div 120000000 + fee"
    by (simp only: floor_add_int [symmetric] floor_divide_of_int_eq)
  then show ?thesis by simp
qed

text \<open>One block within the gas limit moves the fee by at most an eighth.\<close>

lemma CalcNextBaseFee_one_step:
  assumes "1 \<le> fee" and "uint g \<le> 2 * uint TargetGas"
  shows "fee - fee div 8 \<le> CalcNextBaseFee fee g \<and> CalcNextBaseFee fee g \<le> fee + fee div 8"
proof -
  have "fee_step fee g \<le> fee div 8" "0 \<le> fee_step fee g" "0 \<le> fee div 8"
    using assms fee_step_le_eighth [of fee g] fee_step_nonneg [of fee g] by auto
  with assms(1) show ?thesis
    by (auto simp only: CalcNextBaseFee_eq max_def split: if_splits)
qed

lemma basefee_main_prints: "basefee_main = ''Next BaseFee = 107 wei'' @ [CHR 0x0A]"
proof -
  have "format_nat 107 = ''107''" by code_simp
  then show ?thesis by (simp add: basefee_main_def CalcNextBaseFee_eq big_String_def)
qed

section \<open>Properties\<close>

text \<open>
  C34. One block with at most twice the target gas moves a positive base fee by at most one
  eighth (rounded down), in either direction.
\<close>

theorem CalcNextBaseFee_bounds:
  assumes "1 \<le> fee" and "uint g \<le> 2 * uint TargetGas"
  shows "fee - fee div 8 \<le> CalcNextBaseFee fee g \<and> CalcNextBaseFee fee g \<le> fee + fee div 8"
  using assms by (rule CalcNextBaseFee_one_step)

theorem CalcNextBaseFee_bounds_witness:
  "(100::int) - 100 div 8 \<le> CalcNextBaseFee 100 24000000
    \<and> CalcNextBaseFee 100 24000000 \<le> 100 + 100 div 8"
  by (rule CalcNextBaseFee_bounds) simp_all

text \<open>
  C35. The result is the formula of the header comment,
  \<open>fee * (1 + (gasUsed - TargetGas) / TargetGas / 8)\<close> over the rationals, rounded towards the
  current fee (down when the fee rises, up when it falls) and never below one wei.
\<close>

theorem CalcNextBaseFee_formula:
  "CalcNextBaseFee fee g = max 1 (if uint g < uint TargetGas
     then \<lceil>exact_fee fee (uint g)\<rceil> else \<lfloor>exact_fee fee (uint g)\<rfloor>)"
  by (simp add: CalcNextBaseFee_eq exact_fee_below exact_fee_above)

text \<open>
  The next base fee is monotone in the gas used, and at exactly the target a positive fee
  does not move.
\<close>

theorem CalcNextBaseFee_mono:
  assumes "1 \<le> fee" and "g \<le> h"
  shows "CalcNextBaseFee fee g \<le> CalcNextBaseFee fee h \<and> CalcNextBaseFee fee TargetGas = fee"
proof -
  have gh: "uint g \<le> uint h" using assms(2) by (simp add: word_le_def)
  have "fee_step fee g \<le> fee_step fee h" if "15000000 \<le> uint g"
    using that gh assms(1) by (intro fee_step_mono_gas) auto
  moreover have "fee_step fee h \<le> fee_step fee g" if "uint h < 15000000"
    using that gh assms(1) by (intro fee_step_mono_gas) auto
  moreover have "0 \<le> fee_step fee g" "0 \<le> fee_step fee h"
    using assms(1) by (simp_all only: fee_step_nonneg)
  ultimately have "CalcNextBaseFee fee g \<le> CalcNextBaseFee fee h"
    using gh by (force simp only: CalcNextBaseFee_eq max_def split: if_splits)
  moreover have "CalcNextBaseFee fee TargetGas = fee"
    using assms(1) by (simp add: CalcNextBaseFee_eq)
  ultimately show ?thesis by blast
qed

theorem CalcNextBaseFee_mono_witness:
  "CalcNextBaseFee 100 0 \<le> CalcNextBaseFee 100 24000000 \<and> CalcNextBaseFee 100 TargetGas = 100"
  by (rule CalcNextBaseFee_mono) simp_all

text \<open>
  A base fee between 1 and 7 wei never moves again, however full the blocks are: the
  eighth rounds down to zero, and the code has no minimum increase of one wei.
\<close>

theorem base_fee_stuck:
  assumes "1 \<le> fee" and "fee < 8" and "\<forall>g \<in> set gas. uint g \<le> 2 * uint TargetGas"
  shows "base_fee_after fee gas = fee"
  using assms(3)
proof (induction gas)
  case Nil
  then show ?case by (simp add: base_fee_after_def)
next
  case (Cons g gas)
  have "fee div 8 = 0" using assms(1,2) by simp
  then have "CalcNextBaseFee fee g = fee"
    using CalcNextBaseFee_one_step [OF assms(1), of g] Cons.prems by simp
  with Cons show ?case by (simp add: base_fee_after_def)
qed

theorem base_fee_stuck_witness: "base_fee_after 7 [30000000, 30000000, 0] = 7"
  by (rule base_fee_stuck) simp_all

text \<open>
  Over a sequence of \<open>n\<close> blocks within the gas limit the fee stays between
  \<open>(7/8)^n\<close> and \<open>(9/8)^n\<close> times its start, and never falls below one wei.
\<close>

theorem base_fee_after_bounds:
  assumes "1 \<le> fee" and "\<forall>g \<in> set gas. uint g \<le> 2 * uint TargetGas"
  shows "7 ^ length gas * fee \<le> 8 ^ length gas * base_fee_after fee gas
    \<and> 8 ^ length gas * base_fee_after fee gas \<le> 9 ^ length gas * fee
    \<and> 1 \<le> base_fee_after fee gas"
  using assms
proof (induction gas arbitrary: fee)
  case Nil
  then show ?case by (simp add: base_fee_after_def)
next
  case (Cons g gas)
  let ?n = "CalcNextBaseFee fee g" and ?k = "length gas"
  have n: "7 * fee \<le> 8 * ?n" "8 * ?n \<le> 9 * fee" "1 \<le> ?n"
    using CalcNextBaseFee_one_step [of fee g] Cons.prems CalcNextBaseFee_ge_1 [of fee g] by auto
  have IH: "7 ^ ?k * ?n \<le> 8 ^ ?k * base_fee_after ?n gas"
      "8 ^ ?k * base_fee_after ?n gas \<le> 9 ^ ?k * ?n" "1 \<le> base_fee_after ?n gas"
    using Cons.IH [of ?n] Cons.prems n(3) by auto
  have step: "base_fee_after fee (g # gas) = base_fee_after ?n gas"
    by (simp add: base_fee_after_def)
  have "7 ^ ?k * (7 * fee) \<le> 7 ^ ?k * (8 * ?n)" and "9 ^ ?k * (8 * ?n) \<le> 9 ^ ?k * (9 * fee)"
    using n by (simp_all add: mult_left_mono)
  with IH have "7 * 7 ^ ?k * fee \<le> 8 * (8 ^ ?k * base_fee_after ?n gas)"
      and "8 * (8 ^ ?k * base_fee_after ?n gas) \<le> 9 * 9 ^ ?k * fee"
    by linarith+
  with IH(3) show ?case by (simp add: step mult.assoc)
qed

theorem base_fee_after_bounds_witness:
  "7 ^ length [24000000 :: u64] * 100 \<le> 8 ^ length [24000000 :: u64] * base_fee_after 100 [24000000]
    \<and> 8 ^ length [24000000 :: u64] * base_fee_after 100 [24000000] \<le> 9 ^ length [24000000 :: u64] * 100
    \<and> 1 \<le> base_fee_after 100 [24000000]"
  by (rule base_fee_after_bounds) simp_all

end
