(* ===== verification/Scdo_Bytecode.thy ===== *)
theory Scdo_Bytecode
  imports Go_Text
begin

text \<open>
  The bytecode patcher for SCDO V1.0.0 nodes, \<open>go/scdo/bytecode.go\<close>. The index loop that
  overwrites \<open>out[i]\<close> is kept as a loop over a list updated by index and shown equal to a map;
  the hex wrapper is covered on every branch; and the comment's claim about PUSH data is
  measured against a disassembling patcher.
\<close>

section \<open>Model\<close>

definition REVERT :: byte where
  "REVERT = 0xfd"

definition STOP :: byte where
  "STOP = 0x00"

text \<open>\<open>for i, b := range out { if b == 0xfd { out[i] = 0x00 } }\<close>\<close>

function patch_loop :: "nat \<Rightarrow> bytes \<Rightarrow> bytes" where
  "patch_loop i out =
     (if i < length out
      then patch_loop (Suc i) (if out ! i = 0xfd then out[i := 0x00] else out)
      else out)"
  by pat_completeness auto
termination
  by (relation "measure (\<lambda>(i, out). length out - i)") auto

declare patch_loop.simps [simp del]

definition PatchBytecodeForV1 :: "bytes \<Rightarrow> bytes" where
  "PatchBytecodeForV1 bytecode =
     (if length bytecode = 0 then bytecode
      else let out = bytecode in patch_loop 0 out)"

definition PatchBytecodeHex :: "string \<Rightarrow> string go_result" where
  "PatchBytecodeHex hexcode =
     (let hexcode = (if 2 \<le> length hexcode \<and> (take 2 hexcode = ''0x'' \<or> take 2 hexcode = ''0X'')
                     then drop 2 hexcode else hexcode) in
      if length hexcode mod 2 \<noteq> 0
      then Inl (Err_New (''odd-length hex string: '' @ format_nat (length hexcode) @ '' chars''))
      else case hex_DecodeString hexcode of
             Inl e \<Rightarrow> Inl e
           | Inr raw \<Rightarrow>
               (let patched = PatchBytecodeForV1 raw in
                Inr (''0x'' @ hex_EncodeToString patched)))"

definition CountRevertOpcodes :: "bytes \<Rightarrow> nat" where
  "CountRevertOpcodes bytecode = count_list bytecode 0xfd"

section \<open>A patcher that follows the instruction stream\<close>

text \<open>
  Reference definitions for the comment's distinction between opcodes and PUSH data:
  \<open>PUSH1\<close> to \<open>PUSH32\<close> (0x60 to 0x7f) are followed by 1 to 32 immediate bytes. The first
  argument counts the immediate bytes still to come.
\<close>

definition push_len :: "byte \<Rightarrow> nat" where
  "push_len b = (if 0x60 \<le> b \<and> b \<le> 0x7f then unat b - 0x5f else 0)"

fun patch_opcodes :: "nat \<Rightarrow> bytes \<Rightarrow> bytes" where
  "patch_opcodes k [] = []"
| "patch_opcodes 0 (b # bs) = (if b = REVERT then STOP else b) # patch_opcodes (push_len b) bs"
| "patch_opcodes (Suc k) (b # bs) = b # patch_opcodes k bs"

fun push_data :: "nat \<Rightarrow> bytes \<Rightarrow> bytes" where
  "push_data k [] = []"
| "push_data 0 (b # bs) = push_data (push_len b) bs"
| "push_data (Suc k) (b # bs) = b # push_data k bs"

section \<open>Lemmas\<close>

abbreviation patch_byte :: "byte \<Rightarrow> byte" where
  "patch_byte b \<equiv> if b = REVERT then STOP else b"

lemma patch_loop_eq: "patch_loop i out = take i out @ map patch_byte (drop i out)"
proof (induction i out rule: patch_loop.induct)
  case (1 i out)
  show ?case
  proof (cases "i < length out")
    case True
    let ?out' = "if out ! i = 0xfd then out[i := 0x00] else out"
    have "take (Suc i) ?out' = take i out @ [patch_byte (out ! i)]"
      using True by (simp add: take_Suc_conv_app_nth REVERT_def STOP_def)
    moreover have "drop (Suc i) ?out' = drop (Suc i) out" by simp
    moreover have "drop i out = out ! i # drop (Suc i) out"
      using True by (simp add: Cons_nth_drop_Suc)
    ultimately show ?thesis
      using True "1.IH" by (simp add: patch_loop.simps [of i out])
  next
    case False
    then show ?thesis by (simp add: patch_loop.simps [of i out])
  qed
qed

lemma PatchBytecodeForV1_map: "PatchBytecodeForV1 code = map patch_byte code"
  by (simp add: PatchBytecodeForV1_def patch_loop_eq)

lemma patch_opcodes_eq_iff:
  "map patch_byte code = patch_opcodes k code \<longleftrightarrow> REVERT \<notin> set (push_data k code)"
  by (induction k code rule: patch_opcodes.induct)
    (auto simp: REVERT_def STOP_def)

lemma CountRevert_zero_iff: "CountRevertOpcodes code = 0 \<longleftrightarrow> REVERT \<notin> set code"
  by (simp add: CountRevertOpcodes_def REVERT_def count_list_0_iff)

lemma PatchBytecodeHex_prefixed:
  assumes "pre = ''0x'' \<or> pre = ''0X''" and "length h mod 2 = 0"
  shows "PatchBytecodeHex (pre @ h) = (case hex_DecodeString h of
    Inl e \<Rightarrow> Inl e | Inr raw \<Rightarrow> Inr (''0x'' @ hex_EncodeToString (PatchBytecodeForV1 raw)))"
  using assms by (auto simp: PatchBytecodeHex_def Let_def split: sum.split)

lemma PatchBytecodeHex_odd:
  assumes "pre = ''0x'' \<or> pre = ''0X''" and "length h mod 2 \<noteq> 0"
  shows "\<exists>e. PatchBytecodeHex (pre @ h) = Inl e"
  using assms by (auto simp: PatchBytecodeHex_def Let_def)

section \<open>Properties\<close>

text \<open>
  The patch keeps the length, turns every 0xfd byte into 0x00 and leaves every other byte
  alone, so no 0xfd is left for \<open>CountRevertOpcodes\<close> to count, and patching again changes nothing.
\<close>

theorem PatchBytecodeForV1_correct:
  "length (PatchBytecodeForV1 code) = length code
    \<and> PatchBytecodeForV1 code = map (\<lambda>b. if b = 0xfd then 0x00 else b) code
    \<and> CountRevertOpcodes (PatchBytecodeForV1 code) = 0
    \<and> PatchBytecodeForV1 (PatchBytecodeForV1 code) = PatchBytecodeForV1 code"
proof -
  have "map patch_byte (map patch_byte code) = map patch_byte code"
    by (auto simp: STOP_def REVERT_def)
  moreover have "REVERT \<notin> set (map patch_byte code)"
    by (auto simp: STOP_def REVERT_def)
  ultimately show ?thesis
    by (simp add: PatchBytecodeForV1_map CountRevert_zero_iff REVERT_def STOP_def)
qed

text \<open>
  C36. The patch equals the one that follows the instruction stream exactly when no PUSH
  immediate contains 0xfd: otherwise PUSH data is rewritten, which the comment rules out.
\<close>

theorem PatchBytecodeForV1_push_data:
  "PatchBytecodeForV1 code = patch_opcodes 0 code \<longleftrightarrow> REVERT \<notin> set (push_data 0 code)"
  by (simp add: PatchBytecodeForV1_map patch_opcodes_eq_iff)



end
