(* ===== verification/Merkle.thy ===== *)
theory Merkle
  imports Go_Text "HOL-Library.List_Lexorder"
begin

text \<open>
  The Merkle tree of \<open>go/merkle/merkle.go\<close>: sorted-pair hashing, root construction, proof
  extraction and proof verification. The legacy Keccak sponge of \<open>golang.org/x/crypto/sha3\<close> is
  a parameter \<open>K\<close> (from input bytes to the digest of \<open>Sum\<close>), and every theorem holds for
  each \<open>K\<close>. A \<open>[32]byte\<close> is a byte list, compared like the Go strings of its bytes
  (lexicographically); reading \<open>tree[0]\<close> of an empty tree is the panic \<open>None\<close>.
\<close>

section \<open>Model\<close>

type_synonym hash = bytes

text \<open>\<open>copy(res[:], h.Sum(nil))\<close> into a zeroed 32-byte array.\<close>

definition Keccak256 :: "(bytes \<Rightarrow> bytes) \<Rightarrow> bytes \<Rightarrow> hash" where
  "Keccak256 K data = take 32 (K data) @ replicate (32 - length (K data)) 0"

definition HashPair :: "(bytes \<Rightarrow> bytes) \<Rightarrow> hash \<Rightarrow> hash \<Rightarrow> hash" where
  "HashPair K a b =
     (let (a, b) = (if b < a then (b, a) else (a, b)) in Keccak256 K (a @ b))"

text \<open>One round of the inner \<open>for\<close> loop of \<open>BuildMerkleTree\<close>: the next level.\<close>

fun next_level :: "(bytes \<Rightarrow> bytes) \<Rightarrow> hash list \<Rightarrow> hash list" where
  "next_level K (x # y # tree) = HashPair K x y # next_level K tree"
| "next_level K [x] = [HashPair K x x]"
| "next_level K [] = []"

lemma length_next_level: "length (next_level K tree) = (length tree + 1) div 2"
  by (induction K tree rule: next_level.induct) auto

text \<open>The outer loop \<open>for len(tree) > 1\<close>.\<close>

function build_loop :: "(bytes \<Rightarrow> bytes) \<Rightarrow> hash list \<Rightarrow> hash list" where
  "build_loop K tree = (if 1 < length tree then build_loop K (next_level K tree) else tree)"
  by pat_completeness auto
termination
  by (relation "measure (\<lambda>(K, tree). length tree)") (auto simp: length_next_level)

declare build_loop.simps [simp del]

definition BuildMerkleTree :: "(bytes \<Rightarrow> bytes) \<Rightarrow> hash list \<Rightarrow> hash option" where
  "BuildMerkleTree K leaves =
     (case build_loop K leaves of [] \<Rightarrow> None | root # _ \<Rightarrow> Some root)"

text \<open>
  The inner loop of \<open>GetProof\<close> at positions \<open>i, i+2, ...\<close>: the parents of the pairs, and the
  sibling appended to the proof when the pair contains \<open>curIdx\<close>.
\<close>

fun proof_level ::
  "(bytes \<Rightarrow> bytes) \<Rightarrow> nat \<Rightarrow> nat \<Rightarrow> hash list \<Rightarrow> hash list \<times> hash list" where
  "proof_level K curIdx i [] = ([], [])"
| "proof_level K curIdx i (l # rest) =
     (let left = l;
          right = (case rest of [] \<Rightarrow> l | r # _ \<Rightarrow> r);
          parent = HashPair K left right;
          sib = (if curIdx = i then [right] else if curIdx = i + 1 then [left] else []);
          (nxt, proof) = proof_level K curIdx (i + 2) (drop 1 rest)
      in (parent # nxt, sib @ proof))"

lemma fst_proof_level [simp]: "fst (proof_level K c i tree) = next_level K tree"
proof (induction K tree arbitrary: i rule: next_level.induct)
  case (1 K x y tree)
  from 1 show ?case by (simp add: Let_def case_prod_beta)
qed simp_all

function proof_loop :: "(bytes \<Rightarrow> bytes) \<Rightarrow> nat \<Rightarrow> hash list \<Rightarrow> hash list \<Rightarrow> hash list" where
  "proof_loop K curIdx tree proof =
     (if 1 < length tree
      then let (nxt, sibs) = proof_level K curIdx 0 tree
           in proof_loop K (curIdx div 2) nxt (proof @ sibs)
      else proof)"
  by pat_completeness auto
termination
proof (relation "measure (\<lambda>(K, curIdx, tree, proof). length tree)", goal_cases)
  case (2 K curIdx tree pf x nxt sibs)
  then have "nxt = next_level K tree"
    by (metis fst_conv fst_proof_level)
  with 2 show ?case by (simp add: length_next_level)
qed simp

declare proof_loop.simps [simp del]

text \<open>The index of the first leaf equal to the target.\<close>

fun find_leaf :: "nat \<Rightarrow> hash list \<Rightarrow> hash \<Rightarrow> nat option" where
  "find_leaf i [] target = None"
| "find_leaf i (l # leaves) target = (if l = target then Some i else find_leaf (Suc i) leaves target)"

definition GetProof :: "(bytes \<Rightarrow> bytes) \<Rightarrow> hash list \<Rightarrow> hash \<Rightarrow> hash list \<times> bool" where
  "GetProof K leaves targetLeaf =
     (case find_leaf 0 leaves targetLeaf of
        None \<Rightarrow> ([], False)
      | Some idx \<Rightarrow> (proof_loop K idx leaves [], True))"

fun fold_proof :: "(bytes \<Rightarrow> bytes) \<Rightarrow> hash list \<Rightarrow> hash \<Rightarrow> hash" where
  "fold_proof K [] current = current"
| "fold_proof K (p # proof) current = fold_proof K proof (HashPair K current p)"

definition VerifyMerkleProof :: "(bytes \<Rightarrow> bytes) \<Rightarrow> hash list \<Rightarrow> hash \<Rightarrow> hash \<Rightarrow> bool" where
  "VerifyMerkleProof K proof root leaf \<longleftrightarrow> fold_proof K proof leaf = root"

text \<open>\<open>main\<close>: the text it prints for a tree of two leaves.\<close>

definition merkle_main :: "(bytes \<Rightarrow> bytes) \<Rightarrow> string option" where
  "merkle_main K =
     (let leaf1 = Keccak256 K (map byte_of_char ''leaf1''); leaf2 = Keccak256 K (map byte_of_char ''leaf2'');
          leaves = [leaf1, leaf2]
      in case BuildMerkleTree K leaves of
           None \<Rightarrow> None
         | Some root \<Rightarrow>
             let (proof, _) = GetProof K leaves leaf1 in
             Some (''root='' @ hex_EncodeToString root @ '' valid='' @
               (if VerifyMerkleProof K proof root leaf1 then ''true'' else ''false'') @ [CHR 0x0A]))"

section \<open>Specification vocabulary\<close>

text \<open>The number of levels above the leaves of a tree with \<open>n\<close> leaves.\<close>

fun depth :: "nat \<Rightarrow> nat" where
  "depth n = (if n \<le> 1 then 0 else Suc (depth ((n + 1) div 2)))"

declare depth.simps [simp del]

text \<open>The pairs hashed while one level is reduced, and while the whole tree is.\<close>

fun level_pairs :: "hash list \<Rightarrow> (hash \<times> hash) list" where
  "level_pairs (x # y # tree) = (x, y) # level_pairs tree"
| "level_pairs [x] = [(x, x)]"
| "level_pairs [] = []"

function tree_pairs :: "(bytes \<Rightarrow> bytes) \<Rightarrow> hash list \<Rightarrow> (hash \<times> hash) list" where
  "tree_pairs K tree =
     (if 1 < length tree then level_pairs tree @ tree_pairs K (next_level K tree) else [])"
  by pat_completeness auto
termination
  by (relation "measure (\<lambda>(K, tree). length tree)") (auto simp: length_next_level)

declare tree_pairs.simps [simp del]

text \<open>The pairs hashed while a proof is checked.\<close>

fun path_pairs :: "(bytes \<Rightarrow> bytes) \<Rightarrow> hash list \<Rightarrow> hash \<Rightarrow> (hash \<times> hash) list" where
  "path_pairs K [] current = []"
| "path_pairs K (p # proof) current = (current, p) # path_pairs K proof (HashPair K current p)"

text \<open>
  Two different (unordered) pairs with one hash: a collision of the pair hash, found among the
  pairs the tree and the proof actually hash.
\<close>

definition collision_between ::
  "(bytes \<Rightarrow> bytes) \<Rightarrow> (hash \<times> hash) list \<Rightarrow> (hash \<times> hash) list \<Rightarrow> bool" where
  "collision_between K ps qs \<longleftrightarrow>
     (\<exists>(a, b) \<in> set ps. \<exists>(c, d) \<in> set qs. {a, b} \<noteq> {c, d} \<and> HashPair K a b = HashPair K c d)"

section \<open>Lemmas: pair hashing and levels\<close>

lemma length_Keccak256 [simp]: "length (Keccak256 K data) = 32"
  by (simp add: Keccak256_def)

lemma length_HashPair [simp]: "length (HashPair K a b) = 32"
  by (simp add: HashPair_def case_prod_beta)

lemma HashPair_sym: "HashPair K a b = HashPair K b a"
  by (auto simp: HashPair_def)

lemma next_level_pairs: "next_level K tree = map (\<lambda>(a, b). HashPair K a b) (level_pairs tree)"
  by (induction K tree rule: next_level.induct) auto

lemma level_pairs_set: "(a, b) \<in> set (level_pairs tree) \<Longrightarrow> a \<in> set tree \<and> b \<in> set tree"
  by (induction tree rule: level_pairs.induct) auto

lemma next_level_nonempty: "1 \<le> length tree \<Longrightarrow> 1 \<le> length (next_level K tree)"
  by (simp add: length_next_level)

lemma build_loop_single: "tree \<noteq> [] \<Longrightarrow> \<exists>root. build_loop K tree = [root]"
proof (induction K tree rule: build_loop.induct)
  case (1 K tree)
  show ?case
  proof (cases "1 < length tree")
    case True
    then have "next_level K tree \<noteq> []"
      using length_next_level [of K tree] by auto
    with True "1.IH" show ?thesis by (simp add: build_loop.simps [of K tree])
  next
    case False
    with "1.prems" show ?thesis
      by (cases tree) (auto simp: build_loop.simps)
  qed
qed

lemma BuildMerkleTree_Some_iff: "BuildMerkleTree K leaves = Some root \<longleftrightarrow> build_loop K leaves = [root]"
proof (cases "leaves = []")
  case True
  then show ?thesis by (simp add: BuildMerkleTree_def build_loop.simps)
next
  case False
  then show ?thesis using build_loop_single [of leaves K] by (auto simp: BuildMerkleTree_def)
qed

lemma depth_small [simp]: "n \<le> 1 \<Longrightarrow> depth n = 0"
  by (simp add: depth.simps)

lemma depth_step: "1 < n \<Longrightarrow> depth n = Suc (depth ((n + 1) div 2))"
  by (subst depth.simps) simp

text \<open>\<open>depth\<close> is the rounded-up binary logarithm.\<close>

lemma depth_bounds: "1 \<le> n \<Longrightarrow> n \<le> 2 ^ depth n \<and> (1 < n \<longrightarrow> 2 ^ (depth n - 1) < n)"
proof (induction n rule: depth.induct)
  case (1 n)
  show ?case
  proof (cases "1 < n")
    case True
    let ?m = "(n + 1) div 2"
    from True have m: "1 \<le> ?m" "\<not> n \<le> 1" by auto
    with "1.IH" have IH: "?m \<le> 2 ^ depth ?m" "1 < ?m \<longrightarrow> 2 ^ (depth ?m - 1) < ?m" by auto
    have "2 ^ depth ?m < n"
    proof (cases "1 < ?m")
      case False
      with m have "?m = 1" by simp
      with True show ?thesis by simp
    next
      case T: True
      then have "depth ?m = Suc (depth ?m - 1)" using depth_step [OF T] by simp
      then have "(2::nat) ^ depth ?m = 2 * 2 ^ (depth ?m - 1)" by (metis power_Suc)
      with IH(2) T show ?thesis by linarith
    qed
    moreover have "n \<le> 2 * 2 ^ depth ?m" using IH(1) by linarith
    ultimately show ?thesis using True by (simp add: depth_step)
  next
    case False
    with "1.prems" show ?thesis by simp
  qed
qed

section \<open>Lemmas: proof extraction\<close>

lemma proof_level_passed: "c < i \<Longrightarrow> snd (proof_level K c i tree) = []"
  by (induction K tree arbitrary: i rule: next_level.induct)
    (auto simp: Let_def case_prod_beta)

lemma proof_level_sibling:
  assumes "i \<le> c" and "c < i + length tree"
  shows "\<exists>s. snd (proof_level K c i tree) = [s]
    \<and> HashPair K (tree ! (c - i)) s = next_level K tree ! ((c - i) div 2)"
  using assms
proof (induction K tree arbitrary: i rule: next_level.induct)
  case (1 K x y tree)
  consider "c = i" | "c = i + 1" | "i + 2 \<le> c" using "1.prems"(1) by linarith
  then show ?case
  proof cases
    case 3
    then obtain d where d: "c = i + 2 + d" using le_Suc_ex by blast
    have "Suc (Suc d) div 2 = Suc (d div 2)" by simp
    with d "1.IH" [of "i + 2"] "1.prems" show ?thesis
      by (simp add: Let_def case_prod_beta)
  qed (simp_all add: Let_def case_prod_beta proof_level_passed HashPair_sym)
qed (auto simp: Let_def)

lemma proof_loop_step:
  "1 < length tree \<Longrightarrow> proof_loop K c tree pf =
     proof_loop K (c div 2) (next_level K tree) (pf @ snd (proof_level K c 0 tree))"
  using fst_proof_level [of K c 0 tree]
  by (subst proof_loop.simps) (simp add: case_prod_beta)

lemma proof_loop_done: "length tree \<le> 1 \<Longrightarrow> proof_loop K c tree pf = pf"
  by (subst proof_loop.simps) simp

lemma proof_loop_append: "proof_loop K c tree pf = pf @ proof_loop K c tree []"
proof (induction "length tree" arbitrary: tree c pf rule: less_induct)
  case less
  show ?case
  proof (cases "1 < length tree")
    case True
    then have "length (next_level K tree) < length tree" by (simp add: length_next_level)
    note IH = less [OF this]
    show ?thesis
      using IH [of "c div 2" "pf @ snd (proof_level K c 0 tree)"]
        IH [of "c div 2" "snd (proof_level K c 0 tree)"]
      by (simp add: proof_loop_step [OF True])
  qed (simp add: proof_loop_done)
qed

text \<open>One level of a proof, then the proof for the next level.\<close>

lemma proof_loop_Cons:
  assumes "1 < length tree" and "c < length tree"
  shows "\<exists>s. proof_loop K c tree [] = s # proof_loop K (c div 2) (next_level K tree) []
    \<and> HashPair K (tree ! c) s = next_level K tree ! (c div 2)"
proof -
  from assms(2) obtain s where "snd (proof_level K c 0 tree) = [s]"
      and "HashPair K (tree ! c) s = next_level K tree ! (c div 2)"
    using proof_level_sibling [of 0 c tree K] by auto
  then show ?thesis
    using proof_loop_append [of K "c div 2" "next_level K tree" "[s]"]
    by (simp add: proof_loop_step [OF assms(1)])
qed

lemma proof_loop_correct:
  assumes "c < length tree"
  shows "length (proof_loop K c tree []) = depth (length tree)
    \<and> build_loop K tree = [fold_proof K (proof_loop K c tree []) (tree ! c)]"
  using assms
proof (induction "length tree" arbitrary: tree c rule: less_induct)
  case less
  show ?case
  proof (cases "1 < length tree")
    case True
    let ?nxt = "next_level K tree"
    from True have "length ?nxt < length tree" and "c div 2 < length ?nxt"
      using less.prems by (auto simp: length_next_level)
    note IH = less.hyps [OF this]
    from proof_loop_Cons [OF True less.prems]
    obtain s where "proof_loop K c tree [] = s # proof_loop K (c div 2) ?nxt []"
        and "HashPair K (tree ! c) s = ?nxt ! (c div 2)" by blast
    with IH True show ?thesis
      by (simp add: build_loop.simps [of K tree] depth_step length_next_level)
  next
    case False
    with less.prems have "length tree = 1" by simp
    then obtain x where "tree = [x]" by (cases tree) auto
    with less.prems show ?thesis by (simp add: proof_loop_done build_loop.simps)
  qed
qed

lemma find_leaf_Some: "find_leaf i leaves t = Some k \<Longrightarrow> i \<le> k \<and> k < i + length leaves \<and> leaves ! (k - i) = t"
proof (induction i leaves t rule: find_leaf.induct)
  case (2 i l leaves t)
  show ?case
  proof (cases "l = t")
    case False
    with 2 have "Suc i \<le> k \<and> k < Suc i + length leaves \<and> leaves ! (k - Suc i) = t" by simp
    then show ?thesis by (simp add: nth_Cons' Suc_diff_le)
  qed (use 2 in simp)
qed simp

lemma find_leaf_None_iff: "find_leaf i leaves t = None \<longleftrightarrow> t \<notin> set leaves"
  by (induction i leaves t rule: find_leaf.induct) auto

section \<open>Lemmas: soundness of verification\<close>

lemma collision_betweenI:
  "(a, b) \<in> set ps \<Longrightarrow> (c, d) \<in> set qs \<Longrightarrow> {a, b} \<noteq> {c, d} \<Longrightarrow> HashPair K a b = HashPair K c d
    \<Longrightarrow> collision_between K ps qs"
  unfolding collision_between_def by blast

lemma collision_between_mono:
  "collision_between K ps qs \<Longrightarrow> set ps \<subseteq> set ps' \<Longrightarrow> set qs \<subseteq> set qs' \<Longrightarrow> collision_between K ps' qs'"
  by (fastforce simp: collision_between_def)

lemma fold_proof_sound:
  assumes "build_loop K tree = [fold_proof K pf leaf]" and "length pf = depth (length tree)"
    and "tree \<noteq> []"
  shows "leaf \<in> set tree \<or> collision_between K (tree_pairs K tree) (path_pairs K pf leaf)"
  using assms
proof (induction "length tree" arbitrary: tree pf leaf rule: less_induct)
  case less
  show ?case
  proof (cases "1 < length tree")
    case True
    let ?nxt = "next_level K tree"
    from True less.prems(2) obtain p ps where pf: "pf = p # ps"
        and ps: "length ps = depth (length ?nxt)"
      by (cases pf) (simp_all add: depth_step length_next_level)
    have nxt: "length ?nxt < length tree" "?nxt \<noteq> []"
      using True length_next_level [of K tree] by auto
    have pairs: "tree_pairs K tree = level_pairs tree @ tree_pairs K ?nxt"
      using True by (subst tree_pairs.simps) simp
    have "build_loop K ?nxt = [fold_proof K ps (HashPair K leaf p)]"
      using less.prems(1) True by (simp add: pf build_loop.simps [of K tree])
    from less.hyps [OF nxt(1) this ps nxt(2)] show ?thesis
    proof
      assume "HashPair K leaf p \<in> set ?nxt"
      then obtain x y where xy: "(x, y) \<in> set (level_pairs tree)" "HashPair K leaf p = HashPair K x y"
        by (auto simp: next_level_pairs)
      show ?thesis
      proof (cases "{x, y} = {leaf, p}")
        case True
        with level_pairs_set [OF xy(1)] show ?thesis by (auto simp: doubleton_eq_iff)
      next
        case False
        with xy have "collision_between K (tree_pairs K tree) (path_pairs K pf leaf)"
          by (intro collision_betweenI [of x y _ leaf p]) (simp_all add: pairs pf)
        then show ?thesis ..
      qed
    next
      assume "collision_between K (tree_pairs K ?nxt) (path_pairs K ps (HashPair K leaf p))"
      then show ?thesis
        by (auto simp: pairs pf intro: collision_between_mono)
    qed
  next
    case False
    with less.prems(3) obtain x where "tree = [x]" by (cases tree) auto
    with less.prems show ?thesis by (simp add: build_loop.simps)
  qed
qed

lemma GetProof_root:
  assumes "leaf \<in> set leaves"
  shows "\<exists>pf root. GetProof K leaves leaf = (pf, True) \<and> BuildMerkleTree K leaves = Some root
    \<and> VerifyMerkleProof K pf root leaf
    \<and> length leaves \<le> 2 ^ length pf \<and> (1 < length leaves \<longrightarrow> 2 ^ (length pf - 1) < length leaves)"
proof -
  from assms obtain k where k: "find_leaf 0 leaves leaf = Some k"
    using find_leaf_None_iff [of 0 leaves leaf] by (cases "find_leaf 0 leaves leaf") auto
  let ?pf = "proof_loop K k leaves []"
  from find_leaf_Some [OF k] have "k < length leaves" "leaves ! k = leaf" by auto
  then have "length ?pf = depth (length leaves)" "build_loop K leaves = [fold_proof K ?pf leaf]"
    using proof_loop_correct by blast+
  moreover have "1 \<le> length leaves" using assms by (cases leaves) auto
  ultimately show ?thesis
    using depth_bounds [of "length leaves"]
    by (simp add: GetProof_def k VerifyMerkleProof_def BuildMerkleTree_Some_iff)
qed

text \<open>The demo program finds its proof valid, whatever the hash function.\<close>

lemma merkle_main_prints:
  "\<exists>root. merkle_main K = Some (''root='' @ hex_EncodeToString root @ '' valid=true'' @ [CHR 0x0A])"
  using GetProof_root [of "Keccak256 K (map byte_of_char ''leaf1'')"
      "[Keccak256 K (map byte_of_char ''leaf1''), Keccak256 K (map byte_of_char ''leaf2'')]" K]
  by (auto simp: merkle_main_def Let_def)

section \<open>Properties\<close>

text \<open>
  C11. Completeness: for every leaf of the tree \<open>GetProof\<close> returns a proof that
  \<open>VerifyMerkleProof\<close> accepts against the root \<open>BuildMerkleTree\<close> computes, and the proof has
  the length of the rounded-up binary logarithm of the number of leaves.
\<close>

theorem GetProof_verifies:
  assumes "leaf \<in> set leaves"
  shows "\<exists>pf root. GetProof K leaves leaf = (pf, True) \<and> BuildMerkleTree K leaves = Some root
    \<and> VerifyMerkleProof K pf root leaf
    \<and> length leaves \<le> 2 ^ length pf \<and> (1 < length leaves \<longrightarrow> 2 ^ (length pf - 1) < length leaves)"
  using assms by (rule GetProof_root)

theorem GetProof_verifies_witness:
  "\<exists>pf root. GetProof id [[1], [2], [3]] [3] = (pf, True) \<and> BuildMerkleTree id [[1], [2], [3]] = Some root
    \<and> VerifyMerkleProof id pf root [3]
    \<and> length [[1], [2], [3 :: byte]] \<le> 2 ^ length pf
    \<and> (1 < length [[1], [2], [3 :: byte]] \<longrightarrow> 2 ^ (length pf - 1) < length [[1], [2], [3 :: byte]])"
  by (rule GetProof_verifies) simp

text \<open>
  C12. Soundness: a proof of the tree's height that verifies against the root belongs to a leaf
  of the tree, or else the tree and the proof together exhibit two different pairs with the
  same pair hash, that is, a Keccak collision among the values actually hashed.
\<close>

theorem VerifyMerkleProof_sound:
  assumes "BuildMerkleTree K leaves = Some root" and "VerifyMerkleProof K pf root leaf"
    and "length pf = depth (length leaves)"
    and "\<not> collision_between K (tree_pairs K leaves) (path_pairs K pf leaf)"
  shows "leaf \<in> set leaves"
proof -
  have "build_loop K leaves = [fold_proof K pf leaf]"
    using assms(1,2) by (simp add: BuildMerkleTree_Some_iff VerifyMerkleProof_def)
  moreover from this have "leaves \<noteq> []" by (auto simp: build_loop.simps)
  ultimately show ?thesis using fold_proof_sound assms(3,4) by blast
qed

theorem VerifyMerkleProof_sound_witness: "[2 :: byte] \<in> set [[1], [2]]"
  by (rule VerifyMerkleProof_sound [where K = id and pf = "[[1]]" and leaf = "[2]"
        and root = "Keccak256 id [1, 2]"])
    (simp_all add: BuildMerkleTree_Some_iff build_loop.simps VerifyMerkleProof_def HashPair_def
      depth.simps collision_between_def tree_pairs.simps insert_commute)

text \<open>
  \<open>GetProof\<close> reports success exactly for the leaves of the tree and returns an empty proof
  otherwise; \<open>BuildMerkleTree\<close> panics (index out of range) exactly on an empty leaf list.
\<close>

theorem GetProof_found_iff:
  "(snd (GetProof K leaves leaf) \<longleftrightarrow> leaf \<in> set leaves)
    \<and> (leaf \<notin> set leaves \<longleftrightarrow> GetProof K leaves leaf = ([], False))
    \<and> (BuildMerkleTree K leaves = None \<longleftrightarrow> leaves = [])"
proof -
  have "BuildMerkleTree K leaves = None \<longleftrightarrow> leaves = []"
    using build_loop_single [of leaves K] BuildMerkleTree_Some_iff [of K leaves]
    by (cases "leaves = []") (auto simp: BuildMerkleTree_def build_loop.simps)
  then show ?thesis
    using find_leaf_None_iff [of 0 leaves leaf] by (auto simp: GetProof_def split: option.splits)
qed

text \<open>
  The pair hash does not depend on the order of its arguments (sorted pairs), and a proof
  element may therefore stand on either side.
\<close>

theorem HashPair_order_independent:
  "HashPair K a b = HashPair K b a \<and> length (HashPair K a b) = 32
    \<and> HashPair K a b = Keccak256 K (min a b @ max a b)"
  by (auto simp: HashPair_sym HashPair_def min_def max_def)

end
