(* ===== verification/Bridge.thy ===== *)
theory Bridge
  imports Go_Prelude
begin

text \<open>
  The cross-chain relayer of \<open>go/bridge/relayer.go\<close>. The two \<open>ChainClient\<close>s are interface
  values: records of operations on an environment \<open>'e\<close>. The world pairs the environment with
  the list of \<open>Mint\<close> and \<open>Withdraw\<close> calls made so far, so that the theorems can speak about
  what the relayer did on the two chains. Log output is not modelled. \<open>Run\<close> is a loop over the
  outcomes of Go's \<open>select\<close>, chosen by the environment.

  The locale \<open>forward_once\<close> is the contract both handlers implement (forward an event of a
  fresh nonce, skip a seen one, forget the nonce when forwarding fails); its lemmas give the
  exactly-once bookkeeping for both directions.
\<close>

section \<open>Model\<close>

record DepositedEvent =
  dep_Token :: string
  dep_User :: string
  dep_Amount :: int
  dep_Nonce :: u64
  dep_DestChainID :: u64
  dep_SourceBlock :: u64
  dep_TxHash :: string

record BurnedEvent =
  burn_From :: string
  burn_Amount :: int
  burn_WithdrawNonce :: u64
  burn_SourceBlock :: u64
  burn_TxHash :: string

text \<open>A channel is named by a number; what is sent on it is up to the environment.\<close>

type_synonym chan = nat

record 'e ChainClient =
  WatchDeposited :: "u64 \<Rightarrow> 'e \<Rightarrow> chan go_result \<times> 'e"
  WatchBurned :: "u64 \<Rightarrow> 'e \<Rightarrow> chan go_result \<times> 'e"
  Mint :: "string \<Rightarrow> int \<Rightarrow> u64 \<Rightarrow> 'e \<Rightarrow> string go_result \<times> 'e"
  Withdraw :: "string \<Rightarrow> int \<Rightarrow> u64 \<Rightarrow> 'e \<Rightarrow> string go_result \<times> 'e"

record 'e Relayer =
  eth :: "'e ChainClient"
  scdo :: "'e ChainClient"
  ethFromBlock :: u64
  scdoFromBlock :: u64
  pollInterval :: int
  seenMinted :: "u64 \<rightharpoonup> bool"
  seenWithdrawn :: "u64 \<rightharpoonup> bool"

datatype bridge_call =
    Mint_call string int u64 "string go_result"
  | Withdraw_call string int u64 "string go_result"

record 'e bworld =
  benv :: 'e
  calls :: "bridge_call list"

type_synonym 'e Option = "'e Relayer \<Rightarrow> 'e Relayer"

definition WithStartBlock :: "u64 \<Rightarrow> u64 \<Rightarrow> 'e Option" where
  "WithStartBlock ethFrom scdoFrom r = r\<lparr>ethFromBlock := ethFrom, scdoFromBlock := scdoFrom\<rparr>"

definition WithPollInterval :: "int \<Rightarrow> 'e Option" where
  "WithPollInterval d r = r\<lparr>pollInterval := d\<rparr>"

text \<open>Durations are in nanoseconds.\<close>

definition New :: "'e ChainClient \<Rightarrow> 'e ChainClient \<Rightarrow> 'e Option list \<Rightarrow> 'e Relayer" where
  "New e s opts = fold (\<lambda>opt r. opt r) opts
     \<lparr>eth = e, scdo = s, ethFromBlock = 0, scdoFromBlock = 0, pollInterval = 12 * 1000000000,
      seenMinted = Map.empty, seenWithdrawn = Map.empty\<rparr>"

text \<open>Reading a Go \<open>map[uint64]bool\<close>: a missing key reads as false.\<close>

definition map_get_bool :: "(u64 \<rightharpoonup> bool) \<Rightarrow> u64 \<Rightarrow> bool" where
  "map_get_bool m k = (case m k of None \<Rightarrow> False | Some b \<Rightarrow> b)"

definition handleDeposit ::
  "'e Relayer \<Rightarrow> DepositedEvent \<Rightarrow> 'e bworld \<Rightarrow> 'e Relayer \<times> 'e bworld" where
  "handleDeposit r d w =
     (if map_get_bool (seenMinted r) (dep_Nonce d) then (r, w)
      else
        let r = r\<lparr>seenMinted := (seenMinted r)(dep_Nonce d \<mapsto> True)\<rparr>;
            (tx, e) = Mint (scdo r) (dep_User d) (dep_Amount d) (dep_Nonce d) (benv w);
            w = w\<lparr>benv := e,
                  calls := calls w @ [Mint_call (dep_User d) (dep_Amount d) (dep_Nonce d) tx]\<rparr>
        in case tx of
             Inl err \<Rightarrow> (r\<lparr>seenMinted := (seenMinted r)(dep_Nonce d := None)\<rparr>, w)
           | Inr hash \<Rightarrow> (r, w))"

definition handleBurn ::
  "'e Relayer \<Rightarrow> BurnedEvent \<Rightarrow> 'e bworld \<Rightarrow> 'e Relayer \<times> 'e bworld" where
  "handleBurn r b w =
     (if map_get_bool (seenWithdrawn r) (burn_WithdrawNonce b) then (r, w)
      else
        let r = r\<lparr>seenWithdrawn := (seenWithdrawn r)(burn_WithdrawNonce b \<mapsto> True)\<rparr>;
            (tx, e) = Withdraw (eth r) (burn_From b) (burn_Amount b) (burn_WithdrawNonce b) (benv w);
            w = w\<lparr>benv := e,
                  calls := calls w @
                    [Withdraw_call (burn_From b) (burn_Amount b) (burn_WithdrawNonce b) tx]\<rparr>
        in case tx of
             Inl err \<Rightarrow> (r\<lparr>seenWithdrawn := (seenWithdrawn r)(burn_WithdrawNonce b := None)\<rparr>, w)
           | Inr hash \<Rightarrow> (r, w))"

text \<open>
  The outcomes of the \<open>select\<close> in \<open>Run\<close>: the context is done, or a receive on one of the two
  channels completed (\<open>None\<close>: the channel is closed). A blocked \<open>select\<close> is a \<open>select\<close> that
  yields \<open>None\<close>.
\<close>

datatype selection =
    Sel_Done go_error
  | Sel_Deposit "DepositedEvent option"
  | Sel_Burn "BurnedEvent option"

type_synonym 'e selector = "chan \<Rightarrow> chan \<Rightarrow> 'e \<Rightarrow> (selection \<times> 'e) option"

type_synonym 'e run_state = "'e Relayer \<times> chan \<times> chan \<times> 'e bworld"

definition Run_body ::
  "'e selector \<Rightarrow> 'e run_state \<Rightarrow> ('e run_state + (go_error \<times> 'e Relayer \<times> 'e bworld)) option" where
  "Run_body sel = (\<lambda>(r, depChan, burnChan, w).
     case sel depChan burnChan (benv w) of
       None \<Rightarrow> None
     | Some (choice, e) \<Rightarrow>
         (let w = w\<lparr>benv := e\<rparr> in
          case choice of
            Sel_Done err \<Rightarrow> Some (Inr (err, r, w))
          | Sel_Deposit None \<Rightarrow>
              (case WatchDeposited (eth r) (ethFromBlock r) (benv w) of
                 (Inl err, e) \<Rightarrow> Some (Inr (err, r, w\<lparr>benv := e\<rparr>))
               | (Inr ch, e) \<Rightarrow> Some (Inl (r, ch, burnChan, w\<lparr>benv := e\<rparr>)))
          | Sel_Deposit (Some dep) \<Rightarrow>
              (let (r, w) = handleDeposit r dep w in Some (Inl (r, depChan, burnChan, w)))
          | Sel_Burn None \<Rightarrow>
              (case WatchBurned (scdo r) (scdoFromBlock r) (benv w) of
                 (Inl err, e) \<Rightarrow> Some (Inr (err, r, w\<lparr>benv := e\<rparr>))
               | (Inr ch, e) \<Rightarrow> Some (Inl (r, depChan, ch, w\<lparr>benv := e\<rparr>)))
          | Sel_Burn (Some burn) \<Rightarrow>
              (let (r, w) = handleBurn r burn w in Some (Inl (r, depChan, burnChan, w)))))"

definition Run ::
  "'e selector \<Rightarrow> 'e Relayer \<Rightarrow> 'e bworld \<Rightarrow> (go_error \<times> 'e Relayer \<times> 'e bworld) option" where
  "Run sel r w =
     (case WatchDeposited (eth r) (ethFromBlock r) (benv w) of
        (Inl err, e) \<Rightarrow> Some (Err_Wrap ''watch deposits: '' err [], r, w\<lparr>benv := e\<rparr>)
      | (Inr depChan, e) \<Rightarrow>
          (case WatchBurned (scdo r) (scdoFromBlock r) e of
             (Inl err, e) \<Rightarrow> Some (Err_Wrap ''watch burns: '' err [], r, w\<lparr>benv := e\<rparr>)
           | (Inr burnChan, e) \<Rightarrow>
               go_loop (Run_body sel) (r, depChan, burnChan, w\<lparr>benv := e\<rparr>)))"

section \<open>Observations\<close>

text \<open>The options the package exports.\<close>

definition package_option :: "'e Option \<Rightarrow> bool" where
  "package_option opt \<longleftrightarrow> (\<exists>a b. opt = WithStartBlock a b) \<or> (\<exists>d. opt = WithPollInterval d)"

text \<open>The event a call forwards: the selector delivered an event with these contents.\<close>

fun delivered :: "'e selector \<Rightarrow> bridge_call \<Rightarrow> bool" where
  "delivered sel (Mint_call to amount n res) \<longleftrightarrow>
     (\<exists>d dc bc e e'. sel dc bc e = Some (Sel_Deposit (Some d), e')
        \<and> to = dep_User d \<and> amount = dep_Amount d \<and> n = dep_Nonce d)"
| "delivered sel (Withdraw_call to amount n res) \<longleftrightarrow>
     (\<exists>b dc bc e e'. sel dc bc e = Some (Sel_Burn (Some b), e')
        \<and> to = burn_From b \<and> amount = burn_Amount b \<and> n = burn_WithdrawNonce b)"

text \<open>The number of successful \<open>Mint\<close> (\<open>Withdraw\<close>) calls for a nonce.\<close>

fun is_minted :: "u64 \<Rightarrow> bridge_call \<Rightarrow> bool" where
  "is_minted n (Mint_call to amount m (Inr tx)) = (m = n)"
| "is_minted n _ = False"

fun is_withdrawn :: "u64 \<Rightarrow> bridge_call \<Rightarrow> bool" where
  "is_withdrawn n (Withdraw_call to amount m (Inr tx)) = (m = n)"
| "is_withdrawn n _ = False"

definition mints :: "'e bworld \<Rightarrow> u64 \<Rightarrow> nat" where
  "mints w n = length (filter (is_minted n) (calls w))"

definition withdrawals :: "'e bworld \<Rightarrow> u64 \<Rightarrow> nat" where
  "withdrawals w n = length (filter (is_withdrawn n) (calls w))"

section \<open>A sample environment\<close>

text \<open>
  A chain whose first call fails and whose later calls succeed (the environment counts calls),
  and a selector that delivers the same deposit over and over. The witnesses run on them.
\<close>

definition sample_client :: "nat ChainClient" where
  "sample_client =
     \<lparr>WatchDeposited = (\<lambda>from e. (Inr 0, e)), WatchBurned = (\<lambda>from e. (Inr 0, e)),
      Mint = (\<lambda>to amount n e.
        (if e = 0 then Inl (Err_New ''connection refused'') else Inr ''0xminttx'', Suc e)),
      Withdraw = (\<lambda>to amount n e. (Inr ''0xwithdrawtx'', Suc e))\<rparr>"

definition sample_deposit :: DepositedEvent where
  "sample_deposit = \<lparr>dep_Token = ''0xtoken'', dep_User = ''0xuser1'', dep_Amount = 100,
     dep_Nonce = 1, dep_DestChainID = 2, dep_SourceBlock = 100, dep_TxHash = ''0xdead''\<rparr>"

definition sample_burn :: BurnedEvent where
  "sample_burn = \<lparr>burn_From = ''0xuser2'', burn_Amount = 50, burn_WithdrawNonce = 7,
     burn_SourceBlock = 3, burn_TxHash = ''0xbeef''\<rparr>"

definition sample_selector :: "nat selector" where
  "sample_selector dc bc e = Some (Sel_Deposit (Some sample_deposit), Suc e)"

lemmas sample_defs = sample_client_def sample_deposit_def sample_burn_def sample_selector_def

section \<open>The contract of a forwarding handler\<close>

locale forward_once =
  fixes handle :: "'r \<Rightarrow> 'ev \<Rightarrow> 'w \<Rightarrow> 'r \<times> 'w"
    and key :: "'ev \<Rightarrow> u64"
    and seen :: "'r \<Rightarrow> u64 \<Rightarrow> bool"
    and forwards :: "'w \<Rightarrow> u64 \<Rightarrow> nat"
  assumes skip_seen: "seen r (key ev) \<Longrightarrow> handle r ev w = (r, w)"
    and fresh_own: "\<not> seen r (key ev) \<Longrightarrow> handle r ev w = (r', w') \<Longrightarrow>
      (if seen r' (key ev) then forwards w' (key ev) = Suc (forwards w (key ev))
       else forwards w' (key ev) = forwards w (key ev))"
    and fresh_other: "\<not> seen r (key ev) \<Longrightarrow> handle r ev w = (r', w') \<Longrightarrow> k \<noteq> key ev \<Longrightarrow>
      seen r' k = seen r k \<and> forwards w' k = forwards w k"
begin

text \<open>The bookkeeping invariant: a nonce is marked seen exactly when it was forwarded, once.\<close>

definition consistent :: "'r \<Rightarrow> 'w \<Rightarrow> bool" where
  "consistent r w \<longleftrightarrow> (\<forall>k. forwards w k = (if seen r k then 1 else 0))"

lemma handle_consistent:
  assumes "consistent r w" and "handle r ev w = (r', w')"
  shows "consistent r' w'"
proof (cases "seen r (key ev)")
  case True
  with assms show ?thesis by (simp add: skip_seen)
next
  case False
  then have zero: "forwards w (key ev) = 0" using assms(1) by (simp add: consistent_def)
  have "forwards w' k = (if seen r' k then 1 else 0)" for k
  proof (cases "k = key ev")
    case True
    with fresh_own [OF False assms(2)] zero show ?thesis by (simp split: if_splits)
  next
    case other: False
    from fresh_other [OF False assms(2) other] assms(1) show ?thesis
      by (simp add: consistent_def)
  qed
  then show ?thesis by (simp add: consistent_def)
qed

lemma at_most_once: "consistent r w \<Longrightarrow> forwards w k \<le> 1"
  by (simp add: consistent_def)

text \<open>A nonce once seen stays seen.\<close>

lemma seen_mono: "handle r ev w = (r', w') \<Longrightarrow> seen r k \<Longrightarrow> seen r' k"
proof (cases "seen r (key ev)")
  case True
  then show "handle r ev w = (r', w') \<Longrightarrow> seen r k \<Longrightarrow> seen r' k" by (simp add: skip_seen)
next
  case False
  then show "handle r ev w = (r', w') \<Longrightarrow> seen r k \<Longrightarrow> seen r' k"
    using fresh_other [OF False] by metis
qed

end

section \<open>The handlers implement the contract\<close>

abbreviation minted_nonce :: "'e Relayer \<Rightarrow> u64 \<Rightarrow> bool" where
  "minted_nonce r \<equiv> map_get_bool (seenMinted r)"

abbreviation withdrawn_nonce :: "'e Relayer \<Rightarrow> u64 \<Rightarrow> bool" where
  "withdrawn_nonce r \<equiv> map_get_bool (seenWithdrawn r)"

lemma map_get_bool_simps [simp]:
  "map_get_bool Map.empty k = False"
  "map_get_bool (m(j \<mapsto> b)) k = (if k = j then b else map_get_bool m k)"
  "map_get_bool (m(j := None)) k = (k \<noteq> j \<and> map_get_bool m k)"
  by (auto simp: map_get_bool_def)

lemma mints_snoc: "calls w' = calls w @ [c] \<Longrightarrow> mints w' n = mints w n + (if is_minted n c then 1 else 0)"
  by (simp add: mints_def)

lemma withdrawals_snoc:
  "calls w' = calls w @ [c] \<Longrightarrow> withdrawals w' n = withdrawals w n + (if is_withdrawn n c then 1 else 0)"
  by (simp add: withdrawals_def)

text \<open>The three branches of a handler.\<close>

lemma handleDeposit_seen: "minted_nonce r (dep_Nonce d) \<Longrightarrow> handleDeposit r d w = (r, w)"
  by (simp add: handleDeposit_def)

lemma handleDeposit_fresh:
  assumes "\<not> minted_nonce r (dep_Nonce d)" and "handleDeposit r d w = (r', w')"
  obtains tx e where
    "Mint (scdo r) (dep_User d) (dep_Amount d) (dep_Nonce d) (benv w) = (tx, e)"
    "r' = r\<lparr>seenMinted := (seenMinted r)(dep_Nonce d := (case tx of Inl _ \<Rightarrow> None | Inr _ \<Rightarrow> Some True))\<rparr>"
    "w' = w\<lparr>benv := e,
       calls := calls w @ [Mint_call (dep_User d) (dep_Amount d) (dep_Nonce d) tx]\<rparr>"
proof (cases "Mint (scdo r) (dep_User d) (dep_Amount d) (dep_Nonce d) (benv w)")
  case (Pair tx e)
  with assms that [OF Pair] show ?thesis by (cases tx) (auto simp: handleDeposit_def Let_def)
qed

lemma handleBurn_seen: "withdrawn_nonce r (burn_WithdrawNonce b) \<Longrightarrow> handleBurn r b w = (r, w)"
  by (simp add: handleBurn_def)

lemma handleBurn_fresh:
  assumes "\<not> withdrawn_nonce r (burn_WithdrawNonce b)" and "handleBurn r b w = (r', w')"
  obtains tx e where
    "Withdraw (eth r) (burn_From b) (burn_Amount b) (burn_WithdrawNonce b) (benv w) = (tx, e)"
    "r' = r\<lparr>seenWithdrawn := (seenWithdrawn r)(burn_WithdrawNonce b :=
        (case tx of Inl _ \<Rightarrow> None | Inr _ \<Rightarrow> Some True))\<rparr>"
    "w' = w\<lparr>benv := e,
       calls := calls w @ [Withdraw_call (burn_From b) (burn_Amount b) (burn_WithdrawNonce b) tx]\<rparr>"
proof (cases "Withdraw (eth r) (burn_From b) (burn_Amount b) (burn_WithdrawNonce b) (benv w)")
  case (Pair tx e)
  with assms that [OF Pair] show ?thesis by (cases tx) (auto simp: handleBurn_def Let_def)
qed

interpretation deposits: forward_once handleDeposit dep_Nonce minted_nonce mints
proof
  fix r :: "'e Relayer" and d w r' and w' :: "'e bworld" and k
  show "minted_nonce r (dep_Nonce d) \<Longrightarrow> handleDeposit r d w = (r, w)"
    by (rule handleDeposit_seen)
  assume fresh: "\<not> minted_nonce r (dep_Nonce d)" and h: "handleDeposit r d w = (r', w')"
  from handleDeposit_fresh [OF this] obtain tx e where
    r': "r' = r\<lparr>seenMinted := (seenMinted r)(dep_Nonce d := (case tx of Inl _ \<Rightarrow> None | Inr _ \<Rightarrow> Some True))\<rparr>"
    and w': "w' = w\<lparr>benv := e,
       calls := calls w @ [Mint_call (dep_User d) (dep_Amount d) (dep_Nonce d) tx]\<rparr>"
    by blast
  show "if minted_nonce r' (dep_Nonce d) then mints w' (dep_Nonce d) = Suc (mints w (dep_Nonce d))
      else mints w' (dep_Nonce d) = mints w (dep_Nonce d)"
    by (cases tx) (simp_all add: r' w' mints_def)
  show "k \<noteq> dep_Nonce d \<Longrightarrow> minted_nonce r' k = minted_nonce r k \<and> mints w' k = mints w k"
    by (cases tx) (simp_all add: r' w' mints_def)
qed

interpretation burns: forward_once handleBurn burn_WithdrawNonce withdrawn_nonce withdrawals
proof
  fix r :: "'e Relayer" and b w r' and w' :: "'e bworld" and k
  show "withdrawn_nonce r (burn_WithdrawNonce b) \<Longrightarrow> handleBurn r b w = (r, w)"
    by (rule handleBurn_seen)
  assume fresh: "\<not> withdrawn_nonce r (burn_WithdrawNonce b)" and h: "handleBurn r b w = (r', w')"
  from handleBurn_fresh [OF this] obtain tx e where
    r': "r' = r\<lparr>seenWithdrawn := (seenWithdrawn r)(burn_WithdrawNonce b :=
        (case tx of Inl _ \<Rightarrow> None | Inr _ \<Rightarrow> Some True))\<rparr>"
    and w': "w' = w\<lparr>benv := e,
       calls := calls w @ [Withdraw_call (burn_From b) (burn_Amount b) (burn_WithdrawNonce b) tx]\<rparr>"
    by blast
  show "if withdrawn_nonce r' (burn_WithdrawNonce b)
      then withdrawals w' (burn_WithdrawNonce b) = Suc (withdrawals w (burn_WithdrawNonce b))
      else withdrawals w' (burn_WithdrawNonce b) = withdrawals w (burn_WithdrawNonce b)"
    by (cases tx) (simp_all add: r' w' withdrawals_def)
  show "k \<noteq> burn_WithdrawNonce b \<Longrightarrow>
      withdrawn_nonce r' k = withdrawn_nonce r k \<and> withdrawals w' k = withdrawals w k"
    by (cases tx) (simp_all add: r' w' withdrawals_def)
qed

text \<open>Neither handler touches the bookkeeping of the other direction.\<close>

lemma handleDeposit_frame:
  "handleDeposit r d w = (r', w') \<Longrightarrow>
     seenWithdrawn r' = seenWithdrawn r \<and> withdrawals w' n = withdrawals w n
     \<and> eth r' = eth r \<and> scdo r' = scdo r"
  by (cases "minted_nonce r (dep_Nonce d)")
    (auto simp: handleDeposit_seen withdrawals_def elim!: handleDeposit_fresh)

lemma handleBurn_frame:
  "handleBurn r b w = (r', w') \<Longrightarrow>
     seenMinted r' = seenMinted r \<and> mints w' n = mints w n \<and> eth r' = eth r \<and> scdo r' = scdo r"
  by (cases "withdrawn_nonce r (burn_WithdrawNonce b)")
    (auto simp: handleBurn_seen mints_def elim!: handleBurn_fresh)

section \<open>The relayer loop\<close>

definition relayer_inv :: "'e run_state \<Rightarrow> bool" where
  "relayer_inv = (\<lambda>(r, depChan, burnChan, w).
     deposits.consistent r w \<and> burns.consistent r w)"

lemma deposits_consistent_burn:
  "deposits.consistent r w \<Longrightarrow> handleBurn r b w = (r', w') \<Longrightarrow> deposits.consistent r' w'"
  using handleBurn_frame [of r b w r' w'] by (simp add: deposits.consistent_def)

lemma burns_consistent_deposit:
  "burns.consistent r w \<Longrightarrow> handleDeposit r d w = (r', w') \<Longrightarrow> burns.consistent r' w'"
  using handleDeposit_frame [of r d w r' w'] by (simp add: burns.consistent_def)

lemma consistent_env [simp]:
  "deposits.consistent r (w\<lparr>benv := e\<rparr>) = deposits.consistent r w"
  "burns.consistent r (w\<lparr>benv := e\<rparr>) = burns.consistent r w"
  by (simp_all add: deposits.consistent_def burns.consistent_def mints_def withdrawals_def)

text \<open>A round that goes on handled an event or opened a channel again.\<close>

lemma Run_body_round:
  assumes "Run_body sel (r, dc, bc, w) = Some (Inl s')"
  obtains (deposit) d e r' w' where "sel dc bc (benv w) = Some (Sel_Deposit (Some d), e)"
      "handleDeposit r d (w\<lparr>benv := e\<rparr>) = (r', w')" "s' = (r', dc, bc, w')"
    | (burn) b e r' w' where "sel dc bc (benv w) = Some (Sel_Burn (Some b), e)"
      "handleBurn r b (w\<lparr>benv := e\<rparr>) = (r', w')" "s' = (r', dc, bc, w')"
    | (rewatch) dc' bc' e where "s' = (r, dc', bc', w\<lparr>benv := e\<rparr>)"
proof (cases "sel dc bc (benv w)")
  case None
  with assms show ?thesis by (simp add: Run_body_def)
next
  case (Some p)
  obtain c e where p: "p = (c, e)" by (cases p)
  with Some have sel: "sel dc bc (benv w) = Some (c, e)" by simp
  note body = assms [unfolded Run_body_def, simplified sel option.case prod.case Let_def]
  show ?thesis
  proof (cases c)
    case (Sel_Done err)
    with body show ?thesis by simp
  next
    case (Sel_Deposit d)
    with body sel show ?thesis
      by (cases d) (auto split: prod.splits sum.splits intro: deposit rewatch)
  next
    case (Sel_Burn b)
    with body sel show ?thesis
      by (cases b) (auto split: prod.splits sum.splits intro: burn rewatch)
  qed
qed

lemma Run_body_inv:
  assumes "relayer_inv s" and "Run_body sel s = Some (Inl s')"
  shows "relayer_inv s'"
proof -
  obtain r dc bc w where s: "s = (r, dc, bc, w)" by (cases s)
  with assms(1) have inv: "deposits.consistent r w" "burns.consistent r w"
    by (simp_all add: relayer_inv_def)
  from assms(2) [unfolded s] show ?thesis
  proof (cases rule: Run_body_round)
    case (deposit d e r' w')
    with inv show ?thesis
      using deposits.handle_consistent [OF _ deposit(2)] burns_consistent_deposit [OF _ deposit(2)]
      by (simp add: relayer_inv_def)
  next
    case (burn b e r' w')
    with inv show ?thesis
      using burns.handle_consistent [OF _ burn(2)] deposits_consistent_burn [OF _ burn(2)]
      by (simp add: relayer_inv_def)
  next
    case (rewatch dc' bc' e)
    with inv show ?thesis by (simp add: relayer_inv_def)
  qed
qed

lemma New_fresh:
  assumes "\<forall>opt \<in> set opts. package_option opt"
  shows "seenMinted (New e s opts) = Map.empty \<and> seenWithdrawn (New e s opts) = Map.empty"
proof -
  have "seenMinted (fold (\<lambda>opt r. opt r) opts r) = seenMinted r
      \<and> seenWithdrawn (fold (\<lambda>opt r. opt r) opts r) = seenWithdrawn r" for r :: "'a Relayer"
    using assms
    by (induction opts arbitrary: r)
      (auto simp: package_option_def WithStartBlock_def WithPollInterval_def)
  then show ?thesis by (simp add: New_def)
qed

lemma relayer_inv_New:
  assumes "\<forall>opt \<in> set opts. package_option opt" and "calls w = []"
  shows "relayer_inv (New e s opts, dc, bc, w)"
  using New_fresh [OF assms(1), of e s] assms(2)
  by (simp add: relayer_inv_def deposits.consistent_def burns.consistent_def mints_def withdrawals_def)

lemma handleDeposit_calls:
  assumes "handleDeposit r d w = (r', w')"
  shows "calls w' = calls w
    \<or> (\<exists>tx. calls w' = calls w @ [Mint_call (dep_User d) (dep_Amount d) (dep_Nonce d) tx])"
  using assms
  by (cases "minted_nonce r (dep_Nonce d)")
    (auto simp: handleDeposit_seen elim!: handleDeposit_fresh)

lemma handleBurn_calls:
  assumes "handleBurn r b w = (r', w')"
  shows "calls w' = calls w
    \<or> (\<exists>tx. calls w' = calls w @ [Withdraw_call (burn_From b) (burn_Amount b) (burn_WithdrawNonce b) tx])"
  using assms
  by (cases "withdrawn_nonce r (burn_WithdrawNonce b)")
    (auto simp: handleBurn_seen elim!: handleBurn_fresh)

lemma Run_body_delivered:
  assumes "Run_body sel (r, dc, bc, w) = Some (Inl (r', dc', bc', w'))"
    and "\<forall>c \<in> set (calls w). delivered sel c"
  shows "\<forall>c \<in> set (calls w'). delivered sel c"
  using assms(1)
proof (cases rule: Run_body_round)
  case (deposit d e r2 w2)
  have "delivered sel (Mint_call (dep_User d) (dep_Amount d) (dep_Nonce d) tx)" for tx
    using deposit(1) by simp blast
  with handleDeposit_calls [OF deposit(2)] assms(2) deposit(3) show ?thesis by fastforce
next
  case (burn b e r2 w2)
  have "delivered sel (Withdraw_call (burn_From b) (burn_Amount b) (burn_WithdrawNonce b) tx)" for tx
    using burn(1) by simp blast
  with handleBurn_calls [OF burn(2)] assms(2) burn(3) show ?thesis by fastforce
next
  case (rewatch dc2 bc2 e)
  with assms(2) show ?thesis by simp
qed

section \<open>Properties\<close>

text \<open>
  C10. Exactly-once forwarding: in every state the relayer loop passes through, started by
  \<open>New\<close> with the package's options, each nonce has been minted (withdrawn) successfully at most
  once, and exactly the successful ones are marked as seen.
\<close>

theorem relayer_exactly_once:
  assumes "\<forall>opt \<in> set opts. package_option opt" and "calls w0 = []"
    and "loop_reach (Run_body sel) (New e s opts, dc0, bc0, w0) (r, dc, bc, w)"
  shows "mints w n = (if map_get_bool (seenMinted r) n then 1 else 0)
    \<and> withdrawals w n = (if map_get_bool (seenWithdrawn r) n then 1 else 0)"
proof -
  have "relayer_inv (r, dc, bc, w)"
    by (rule loop_reach_invariant [OF assms(3)])
      (rule relayer_inv_New [OF assms(1,2)], rule Run_body_inv)
  then show ?thesis
    by (simp add: relayer_inv_def deposits.consistent_def burns.consistent_def)
qed

text \<open>The state after one delivery of the sample deposit.\<close>

lemma sample_reach:
  "loop_reach (Run_body sample_selector)
     (New sample_client sample_client [WithStartBlock 5 9], 0, 0, \<lparr>benv = 0, calls = []\<rparr>)
     ((New sample_client sample_client [WithStartBlock 5 9])\<lparr>seenMinted := [1 \<mapsto> True]\<rparr>, 0, 0,
       \<lparr>benv = 2, calls = [Mint_call ''0xuser1'' 100 1 (Inr ''0xminttx'')]\<rparr>)"
  by (rule loop_reach.round [OF loop_reach.here])
    (simp add: Run_body_def handleDeposit_def sample_defs New_def WithStartBlock_def)

theorem relayer_exactly_once_witness:
  "mints \<lparr>benv = (2 :: nat), calls = [Mint_call ''0xuser1'' 100 1 (Inr ''0xminttx'')]\<rparr> 1 = 1"
  using relayer_exactly_once [OF _ _ sample_reach, of 1] by (simp add: package_option_def) blast

text \<open>
  No invented transfers: every \<open>Mint\<close> (\<open>Withdraw\<close>) call the loop makes carries the
  recipient, the amount and the nonce of a deposit (burn) event that was delivered to it.
\<close>

theorem relayer_calls_delivered:
  assumes "calls w0 = []"
    and "loop_reach (Run_body sel) (r0, dc0, bc0, w0) (r, dc, bc, w)" and "c \<in> set (calls w)"
  shows "delivered sel c"
proof -
  have "case (r, dc, bc, w) of (r, dc, bc, w) \<Rightarrow> \<forall>c \<in> set (calls w). delivered sel c"
    by (rule loop_reach_invariant [OF assms(2)])
      (use assms(1) Run_body_delivered in \<open>fastforce+\<close>)
  with assms(3) show ?thesis by simp
qed

theorem relayer_calls_delivered_witness:
  "delivered sample_selector (Mint_call ''0xuser1'' 100 1 (Inr ''0xminttx''))"
  by (rule relayer_calls_delivered [OF _ sample_reach]) simp_all

text \<open>
  A mint that fails is forgotten, so that the same deposit delivered again is tried again;
  when that attempt succeeds the nonce is marked and every further delivery is ignored.
\<close>

theorem deposit_retried:
  assumes "\<not> map_get_bool (seenMinted r) (dep_Nonce d)"
    and "Mint (scdo r) (dep_User d) (dep_Amount d) (dep_Nonce d) (benv w) = (Inl err, e1)"
    and "Mint (scdo r) (dep_User d) (dep_Amount d) (dep_Nonce d) e1 = (Inr tx, e2)"
    and "handleDeposit r d w = (r1, w1)" and "handleDeposit r1 d w1 = (r2, w2)"
  shows "mints w1 (dep_Nonce d) = mints w (dep_Nonce d)
    \<and> mints w2 (dep_Nonce d) = Suc (mints w (dep_Nonce d))
    \<and> handleDeposit r2 d w2 = (r2, w2)"
proof -
  have r1: "r1 = r\<lparr>seenMinted := (seenMinted r)(dep_Nonce d := None)\<rparr>"
      "benv w1 = e1" "mints w1 (dep_Nonce d) = mints w (dep_Nonce d)"
    using assms(1,2,4) by (auto simp: handleDeposit_def Let_def mints_def)
  then have "minted_nonce r2 (dep_Nonce d)" "mints w2 (dep_Nonce d) = Suc (mints w1 (dep_Nonce d))"
    using assms(3,5) by (auto simp: handleDeposit_def Let_def mints_def)
  with r1(3) show ?thesis by (simp add: handleDeposit_seen)
qed

theorem deposit_retried_witness:
  "\<exists>r1 w1 r2 w2.
     handleDeposit (New sample_client sample_client []) sample_deposit \<lparr>benv = 0, calls = []\<rparr> = (r1, w1)
     \<and> handleDeposit r1 sample_deposit w1 = (r2, w2)
     \<and> mints w1 1 = 0 \<and> mints w2 1 = 1 \<and> handleDeposit r2 sample_deposit w2 = (r2, w2)"
proof -
  let ?r = "New sample_client sample_client []" and ?w = "\<lparr>benv = 0, calls = []\<rparr> :: nat bworld"
  obtain r1 w1 where h1: "handleDeposit ?r sample_deposit ?w = (r1, w1)" by fastforce
  obtain r2 w2 where h2: "handleDeposit r1 sample_deposit w1 = (r2, w2)" by fastforce
  from deposit_retried [OF _ _ _ h1 h2, of "Err_New ''connection refused''" 1 "''0xminttx''" 2]
  have "mints w1 1 = 0 \<and> mints w2 1 = 1 \<and> handleDeposit r2 sample_deposit w2 = (r2, w2)"
    by (simp add: sample_defs New_def mints_def)
  with h1 h2 show ?thesis by blast
qed

text \<open>
  The relayer ignores which token was locked and which chain it was meant for: a deposit
  of any other token is handled in the same way, with the same mint on SCDO.
\<close>

theorem deposit_token_ignored:
  "handleDeposit r (d\<lparr>dep_Token := t, dep_DestChainID := c\<rparr>) w = handleDeposit r d w"
  by (simp add: handleDeposit_def Let_def split: prod.split sum.split)

text \<open>
  Burns are told apart by the withdraw nonce alone: once a burn was withdrawn, a burn by
  anyone else of any amount under the same nonce causes no withdrawal.
\<close>

theorem burn_nonce_collision:
  assumes "Withdraw (eth r) (burn_From b) (burn_Amount b) (burn_WithdrawNonce b) (benv w) = (Inr tx, e)"
    and "handleBurn r b w = (r1, w1)" and "burn_WithdrawNonce b' = burn_WithdrawNonce b"
  shows "handleBurn r1 b' w1 = (r1, w1)"
proof -
  have "withdrawn_nonce r1 (burn_WithdrawNonce b)"
    using assms(1,2) by (auto simp: handleBurn_def Let_def split: if_splits)
  with assms(3) show ?thesis by (simp add: handleBurn_seen)
qed

theorem burn_nonce_collision_witness:
  "\<exists>r1 w1. handleBurn (New sample_client sample_client []) sample_burn \<lparr>benv = 0, calls = []\<rparr> = (r1, w1)
     \<and> handleBurn r1 (sample_burn\<lparr>burn_From := ''0xmallory'', burn_Amount := 999\<rparr>) w1 = (r1, w1)"
proof -
  obtain r1 w1 where h: "handleBurn (New sample_client sample_client []) sample_burn
      \<lparr>benv = 0, calls = []\<rparr> = (r1, w1)" by fastforce
  have "handleBurn r1 (sample_burn\<lparr>burn_From := ''0xmallory'', burn_Amount := 999\<rparr>) w1 = (r1, w1)"
    by (rule burn_nonce_collision [OF _ h]) (simp_all add: sample_defs New_def)
  with h show ?thesis by blast
qed

end
