(* ===== verification/Sha256_Test.thy ===== *)
theory Sha256_Test
  imports Sha256
begin

text \<open>The known-answer test of FIPS 180-4 for the one-block message \<open>abc\<close>, by the simplifier.\<close>

lemma Sum256_abc:
  "Sum256 [0x61, 0x62, 0x63] =
     [0xba, 0x78, 0x16, 0xbf, 0x8f, 0x01, 0xcf, 0xea, 0x41, 0x41, 0x40, 0xde, 0x5d, 0xae, 0x22, 0x23,
      0xb0, 0x03, 0x61, 0xa3, 0x96, 0x17, 0x7a, 0x9c, 0xb4, 0x10, 0xff, 0x61, 0xf2, 0x00, 0x15, 0xad]"
  by code_simp

text \<open>The constants are what the standard says: \<open>k\<close> is the fraction of the \<open>r\<close>-th root of \<open>p\<close>.\<close>

definition root_fraction :: "nat \<Rightarrow> int \<Rightarrow> u32 \<Rightarrow> bool" where
  "root_fraction r p k \<longleftrightarrow> list_ex (\<lambda>q.
     (q * 2 ^ 32 + uint k) ^ r \<le> p * 2 ^ (32 * r) \<and> p * 2 ^ (32 * r) < (q * 2 ^ 32 + uint k + 1) ^ r)
     [1, 2, 3, 4, 5, 6]"

definition first_primes :: "int list" where
  "first_primes =
     [2, 3, 5, 7, 11, 13, 17, 19, 23, 29, 31, 37, 41, 43, 47, 53,
      59, 61, 67, 71, 73, 79, 83, 89, 97, 101, 103, 107, 109, 113, 127, 131,
      137, 139, 149, 151, 157, 163, 167, 173, 179, 181, 191, 193, 197, 199, 211, 223,
      227, 229, 233, 239, 241, 251, 257, 263, 269, 271, 277, 281, 283, 293, 307, 311]"

lemma sha_K_cube_roots_by_16:
  "list_all2 (root_fraction 3) (take 16 first_primes) (take 16 sha_K)"
  "list_all2 (root_fraction 3) (take 16 (drop 16 first_primes)) (take 16 (drop 16 sha_K))"
  "list_all2 (root_fraction 3) (take 16 (drop 32 first_primes)) (take 16 (drop 32 sha_K))"
  "list_all2 (root_fraction 3) (drop 48 first_primes) (drop 48 sha_K)"
  subgoal by (simp add: root_fraction_def first_primes_def sha_K_def)
  subgoal by (simp add: root_fraction_def first_primes_def sha_K_def)
  subgoal by (simp add: root_fraction_def first_primes_def sha_K_def)
  subgoal by (simp add: root_fraction_def first_primes_def sha_K_def)
  done

lemma list_all2_take_drop:
  "list_all2 P (take n xs) (take n ys) \<Longrightarrow> list_all2 P (drop n xs) (drop n ys) \<Longrightarrow> list_all2 P xs ys"
  by (metis append_take_drop_id list_all2_appendI)

lemma sha_K_cube_roots: "list_all2 (root_fraction 3) first_primes sha_K"
proof -
  have "list_all2 (root_fraction 3) (drop 32 first_primes) (drop 32 sha_K)"
    by (rule list_all2_take_drop [of _ 16]) (simp_all add: sha_K_cube_roots_by_16)
  then have "list_all2 (root_fraction 3) (drop 16 first_primes) (drop 16 sha_K)"
    by (intro list_all2_take_drop [of _ 16 "drop 16 first_primes"]) (simp_all add: sha_K_cube_roots_by_16)
  then show ?thesis
    by (rule list_all2_take_drop [OF sha_K_cube_roots_by_16(1)])
qed

lemma sha_H0_square_roots: "list_all2 (root_fraction 2) (take 8 first_primes) sha_H0"
  by (simp add: root_fraction_def first_primes_def sha_H0_def)

end
