(* ===== verification/Go_Json.thy ===== *)
theory Go_Json
  imports Go_Text
begin

text \<open>
  The parts of \<open>encoding/json\<close> that the sources use: JSON text to and from a tree, with Go's string
  escaping, and the decoding of a tree into Go values. Strings are byte sequences, so the model follows Go
  in treating them as UTF-8: valid sequences are copied, an invalid byte becomes U+FFFD.
  The parser has fuel; \<open>2 * length s + 2\<close> is enough for every text (\<open>parse_value_fuel\<close>), so that a
  failure is always a syntax error. Error messages are not reproduced. Go's limit of 10000 nested values
  is left out.
\<close>

section \<open>Characters\<close>

abbreviation code :: "char \<Rightarrow> nat" where
  "code c \<equiv> of_char c"

definition cont_byte :: "char \<Rightarrow> bool" where
  "cont_byte c \<longleftrightarrow> 128 \<le> code c \<and> code c \<le> 191"

text \<open>The first bytes of sequences of two, three and four bytes.\<close>

definition lead2 :: "char \<Rightarrow> bool" where
  "lead2 a \<longleftrightarrow> 194 \<le> code a \<and> code a \<le> 223"

definition lead3 :: "char \<Rightarrow> char \<Rightarrow> bool" where
  "lead3 a b \<longleftrightarrow> code a = 224 \<and> 160 \<le> code b \<and> code b \<le> 191
     \<or> (225 \<le> code a \<and> code a \<le> 236 \<or> code a = 238 \<or> code a = 239) \<and> cont_byte b
     \<or> code a = 237 \<and> 128 \<le> code b \<and> code b \<le> 159"

definition lead4 :: "char \<Rightarrow> char \<Rightarrow> bool" where
  "lead4 a b \<longleftrightarrow> code a = 240 \<and> 144 \<le> code b \<and> code b \<le> 191
     \<or> 241 \<le> code a \<and> code a \<le> 243 \<and> cont_byte b
     \<or> code a = 244 \<and> 128 \<le> code b \<and> code b \<le> 143"

text \<open>The length of the UTF-8 sequence a string starts with, 0 if it is invalid (\<open>utf8.DecodeRune\<close>).\<close>

fun utf8_len :: "string \<Rightarrow> nat" where
  "utf8_len [] = 0"
| "utf8_len (a # s) =
     (if code a < 128 then 1
      else case s of
        [] \<Rightarrow> 0
      | b # s \<Rightarrow>
          if lead2 a then (if cont_byte b then 2 else 0)
          else case s of
            [] \<Rightarrow> 0
          | c # s \<Rightarrow>
              if lead3 a b then (if cont_byte c then 3 else 0)
              else case s of
                [] \<Rightarrow> 0
              | d # s \<Rightarrow> if lead4 a b \<and> cont_byte c \<and> cont_byte d then 4 else 0)"

text \<open>The rest of the first sequence is \<open>take (utf8_len s - 1)\<close> of the tail.\<close>

fun valid_utf8 :: "string \<Rightarrow> bool" where
  "valid_utf8 [] = True"
| "valid_utf8 (c # s) =
     (if utf8_len (c # s) = 0 then False else valid_utf8 (drop (utf8_len (c # s) - 1) s))"

text \<open>The UTF-8 encoding of a code point (\<open>utf8.EncodeRune\<close>).\<close>

definition utf8_encode :: "nat \<Rightarrow> string" where
  "utf8_encode r =
     (if r < 128 then [char_of r]
      else if r < 2048 then [char_of (192 + r div 64), char_of (128 + r mod 64)]
      else if 55296 \<le> r \<and> r < 57344 \<or> 1114111 < r then [char_of (239 :: nat), char_of (191 :: nat), char_of (189 :: nat)]
      else if r < 65536
      then [char_of (224 + r div 4096), char_of (128 + r div 64 mod 64), char_of (128 + r mod 64)]
      else [char_of (240 + r div 262144), char_of (128 + r div 4096 mod 64),
            char_of (128 + r div 64 mod 64), char_of (128 + r mod 64)])"

abbreviation replacement_char :: string where
  "replacement_char \<equiv> utf8_encode 65533"

abbreviation backslash :: char where
  "backslash \<equiv> CHR 0x5C"

abbreviation quote_char :: char where
  "quote_char \<equiv> CHR 0x22"

section \<open>Printing\<close>

definition escape_u :: "nat \<Rightarrow> string" where
  "escape_u r = [backslash, CHR ''u'', hex_char (r div 4096 mod 16), hex_char (r div 256 mod 16),
     hex_char (r div 16 mod 16), hex_char (r mod 16)]"

text \<open>An ASCII character inside a string; \<open><\<close>, \<open>>\<close> and \<open>&\<close> are escaped as well.\<close>

definition escape_ascii :: "char \<Rightarrow> string" where
  "escape_ascii c =
     (if c = quote_char \<or> c = backslash then [backslash, c]
      else if c = CHR 0x08 then [backslash, CHR ''b'']
      else if c = CHR 0x0C then [backslash, CHR ''f'']
      else if c = CHR 0x0A then [backslash, CHR ''n'']
      else if c = CHR 0x0D then [backslash, CHR ''r'']
      else if c = CHR 0x09 then [backslash, CHR ''t'']
      else if code c < 32 \<or> c = CHR ''<'' \<or> c = CHR ''>'' \<or> c = CHR 0x26 then escape_u (code c)
      else [c])"

fun quote_chars :: "string \<Rightarrow> string" where
  "quote_chars [] = []"
| "quote_chars (c # s) =
     (if code c < 128 then escape_ascii c @ quote_chars s
      else let n = utf8_len (c # s) in
        if n = 0 then backslash # ''ufffd'' @ quote_chars s
        else (if take n (c # s) = utf8_encode 8232 then escape_u 8232
              else if take n (c # s) = utf8_encode 8233 then escape_u 8233
              else take n (c # s)) @ quote_chars (drop (n - 1) s))"

definition quote :: "string \<Rightarrow> string" where
  "quote s = quote_char # quote_chars s @ [quote_char]"

text \<open>JSON trees; a number is kept as its text, an object as its members in order.\<close>

datatype json =
    JNull
  | JBool bool
  | JNum string
  | JStr string
  | JArr "json list"
  | JObj "(string \<times> json) list"

fun commas :: "string list \<Rightarrow> string" where
  "commas [] = []"
| "commas [x] = x"
| "commas (x # y # xs) = x @ CHR '','' # commas (y # xs)"

fun print_json :: "json \<Rightarrow> string" where
  "print_json JNull = ''null''"
| "print_json (JBool b) = (if b then ''true'' else ''false'')"
| "print_json (JNum s) = s"
| "print_json (JStr s) = quote s"
| "print_json (JArr vs) = CHR ''['' # commas (map print_json vs) @ '']''"
| "print_json (JObj ms) = CHR ''{'' # commas (map (\<lambda>(k, v). quote k @ CHR '':'' # print_json v) ms) @ ''}''"

section \<open>Parsing\<close>

text \<open>Four hexadecimal digits (\<open>getu4\<close> after \<open>\u\<close>).\<close>

fun hex4 :: "string \<Rightarrow> nat option" where
  "hex4 (a # b # c # d # s) =
     (case (from_hex_char a, from_hex_char b, from_hex_char c, from_hex_char d) of
        (Some a, Some b, Some c, Some d) \<Rightarrow> Some (4096 * a + 256 * b + 16 * c + d)
      | _ \<Rightarrow> None)"
| "hex4 _ = None"

definition unescape :: "char \<Rightarrow> char option" where
  "unescape c =
     (if c = quote_char \<or> c = backslash \<or> c = CHR ''/'' then Some c
      else if c = CHR ''b'' then Some (CHR 0x08)
      else if c = CHR ''f'' then Some (CHR 0x0C)
      else if c = CHR ''n'' then Some (CHR 0x0A)
      else if c = CHR ''r'' then Some (CHR 0x0D)
      else if c = CHR ''t'' then Some (CHR 0x09)
      else None)"

text \<open>A low surrogate escape that completes the high surrogate \<open>r\<close>: the code point.\<close>

definition low_surrogate :: "nat \<Rightarrow> string \<Rightarrow> nat option" where
  "low_surrogate r s =
     (case s of
        x # y # s' \<Rightarrow>
          if x = backslash \<and> y = CHR ''u'' \<and> 55296 \<le> r \<and> r < 56320 then
            (case hex4 s' of
               Some r2 \<Rightarrow> if 56320 \<le> r2 \<and> r2 < 57344 then Some (65536 + (r - 55296) * 1024 + (r2 - 56320)) else None
             | None \<Rightarrow> None)
          else None
      | _ \<Rightarrow> None)"

text \<open>The characters of a string up to the closing quote, and the text after it.\<close>

fun parse_str :: "string \<Rightarrow> (string \<times> string) option" where
  "parse_str [] = None"
| "parse_str (c # s) =
     (if c = quote_char then Some ([], s)
      else if c = backslash then
        (case s of
           [] \<Rightarrow> None
         | e # s \<Rightarrow>
             (case unescape e of
                Some x \<Rightarrow> map_option (\<lambda>(t, r). (x # t, r)) (parse_str s)
              | None \<Rightarrow>
                  if e = CHR ''u'' then
                    (case hex4 s of
                       None \<Rightarrow> None
                     | Some r1 \<Rightarrow>
                         (case low_surrogate r1 (drop 4 s) of
                            Some r2 \<Rightarrow> map_option (\<lambda>(t, r). (utf8_encode r2 @ t, r)) (parse_str (drop 10 s))
                          | None \<Rightarrow> map_option (\<lambda>(t, r). (utf8_encode r1 @ t, r)) (parse_str (drop 4 s))))
                  else None))
      else if code c < 32 then None
      else let n = utf8_len (c # s) in
        if n = 0 then map_option (\<lambda>(t, r). (replacement_char @ t, r)) (parse_str s)
        else map_option (\<lambda>(t, r). (take n (c # s) @ t, r)) (parse_str (drop (n - 1) s)))"

text \<open>Numbers: sign, integer part without leading zeros, fraction, exponent.\<close>

definition parse_exp :: "string \<Rightarrow> string \<Rightarrow> (string \<times> string) option" where
  "parse_exp acc s =
     (case s of
        c # r \<Rightarrow>
          if c = CHR ''e'' \<or> c = CHR ''E'' then
            (let (sg, r) = (case r of
                   x # r' \<Rightarrow> if x = CHR ''+'' \<or> x = CHR ''-'' then ([x], r') else ([], r)
                 | [] \<Rightarrow> ([], []));
                 d = takeWhile is_digit r
             in if d = [] then None else Some (acc @ c # sg @ d, dropWhile is_digit r))
          else Some (acc, s)
      | [] \<Rightarrow> Some (acc, []))"

definition parse_frac :: "string \<Rightarrow> string \<Rightarrow> (string \<times> string) option" where
  "parse_frac acc s =
     (case s of
        c # r \<Rightarrow>
          if c = CHR ''.'' then
            (let d = takeWhile is_digit r in
             if d = [] then None else parse_exp (acc @ c # d) (dropWhile is_digit r))
          else parse_exp acc s
      | [] \<Rightarrow> Some (acc, []))"

definition parse_unsigned :: "string \<Rightarrow> string \<Rightarrow> (string \<times> string) option" where
  "parse_unsigned sign s =
     (case s of
        [] \<Rightarrow> None
      | c # r \<Rightarrow>
          if c = CHR ''0'' then parse_frac (sign @ [c]) r
          else if is_digit c then parse_frac (sign @ takeWhile is_digit s) (dropWhile is_digit s)
          else None)"

definition parse_num :: "string \<Rightarrow> (string \<times> string) option" where
  "parse_num s =
     (case s of
        [] \<Rightarrow> None
      | c # r \<Rightarrow> if c = CHR ''-'' then parse_unsigned [c] r else parse_unsigned [] s)"

definition is_space :: "char \<Rightarrow> bool" where
  "is_space c \<longleftrightarrow> c = CHR '' '' \<or> c = CHR 0x09 \<or> c = CHR 0x0D \<or> c = CHR 0x0A"

abbreviation skip :: "string \<Rightarrow> string" where
  "skip s \<equiv> dropWhile is_space s"

text \<open>\<open>literal w v s\<close>: the text starts with the word \<open>w\<close>, whose value is \<open>v\<close>.\<close>

definition literal :: "string \<Rightarrow> json \<Rightarrow> string \<Rightarrow> (json \<times> string) option" where
  "literal w v s = (if take (length w) s = w then Some (v, drop (length w) s) else None)"

text \<open>
  Values, the elements of an array and the members of an object, each up to and including the
  closing bracket.
\<close>

fun parse_value :: "nat \<Rightarrow> string \<Rightarrow> (json \<times> string) option"
  and parse_elems :: "nat \<Rightarrow> string \<Rightarrow> (json list \<times> string) option"
  and parse_members :: "nat \<Rightarrow> string \<Rightarrow> ((string \<times> json) list \<times> string) option" where
  "parse_value 0 s = None"
| "parse_value (Suc n) s =
     (case skip s of
        [] \<Rightarrow> None
      | c # r \<Rightarrow>
          if c = CHR ''{'' then
            (case skip r of
               [] \<Rightarrow> None
             | d # r' \<Rightarrow> if d = CHR ''}'' then Some (JObj [], r')
                 else map_option (\<lambda>(ms, r). (JObj ms, r)) (parse_members n r))
          else if c = CHR ''['' then
            (case skip r of
               [] \<Rightarrow> None
             | d # r' \<Rightarrow> if d = CHR '']'' then Some (JArr [], r')
                 else map_option (\<lambda>(vs, r). (JArr vs, r)) (parse_elems n r))
          else if c = quote_char then map_option (\<lambda>(t, r). (JStr t, r)) (parse_str r)
          else if c = CHR ''t'' then literal ''true'' (JBool True) (c # r)
          else if c = CHR ''f'' then literal ''false'' (JBool False) (c # r)
          else if c = CHR ''n'' then literal ''null'' JNull (c # r)
          else map_option (\<lambda>(t, r). (JNum t, r)) (parse_num (c # r)))"
| "parse_elems 0 s = None"
| "parse_elems (Suc n) s =
     (case parse_value n s of
        None \<Rightarrow> None
      | Some (v, r) \<Rightarrow>
          (case skip r of
             [] \<Rightarrow> None
           | d # r' \<Rightarrow>
               if d = CHR '']'' then Some ([v], r')
               else if d = CHR '','' then map_option (\<lambda>(vs, r). (v # vs, r)) (parse_elems n r')
               else None))"
| "parse_members 0 s = None"
| "parse_members (Suc n) s =
     (case skip s of
        [] \<Rightarrow> None
      | c # r \<Rightarrow>
          if c = quote_char then
            (case parse_str r of
               None \<Rightarrow> None
             | Some (k, r) \<Rightarrow>
                 (case skip r of
                    [] \<Rightarrow> None
                  | d # r' \<Rightarrow>
                      if d = CHR '':'' then
                        (case parse_value n r' of
                           None \<Rightarrow> None
                         | Some (v, r) \<Rightarrow>
                             (case skip r of
                                [] \<Rightarrow> None
                              | d # r' \<Rightarrow>
                                  if d = CHR ''}'' then Some ([(k, v)], r')
                                  else if d = CHR '','' then
                                    map_option (\<lambda>(ms, r). ((k, v) # ms, r)) (parse_members n r')
                                  else None))
                      else None))
          else None)"

definition json_parse :: "string \<Rightarrow> json option" where
  "json_parse s =
     (case parse_value (2 * length s + 2) s of
        Some (v, r) \<Rightarrow> if skip r = [] then Some v else None
      | None \<Rightarrow> None)"

section \<open>Strings: printing and parsing\<close>

lemma utf8_len_le: "utf8_len s \<le> length s"
  by (cases s rule: utf8_len.cases) (auto split: list.split)

lemma utf8_len_ascii [simp]: "code c < 128 \<Longrightarrow> utf8_len (c # s) = 1"
  by simp

lemma utf8_len_take:
  assumes "utf8_len (c # s) \<noteq> 0"
  shows "utf8_len (take (utf8_len (c # s)) (c # s) @ t) = utf8_len (c # s)"
proof (cases s rule: list.exhaust)
  case (Cons b s1)
  with assms show ?thesis
    by (cases s1; cases "tl s1")
      (auto simp: numeral_2_eq_2 numeral_3_eq_3 numeral_eq_Suc split: if_splits)
qed (use assms in \<open>auto split: if_splits\<close>)

declare utf8_len.simps(2) [simp del]

lemma hex4_escape:
  "r < 65536 \<Longrightarrow> hex4 (hex_char (r div 4096 mod 16) # hex_char (r div 256 mod 16)
      # hex_char (r div 16 mod 16) # hex_char (r mod 16) # t) = Some r"
proof -
  assume r: "r < 65536"
  have "r div 4096 = r div 256 div 16" "r div 256 = r div 16 div 16" by (simp_all add: div_mult2_eq [symmetric])
  then have "r = 16 * (16 * (16 * (r div 4096) + r div 256 mod 16) + r div 16 mod 16) + r mod 16"
    by (metis mult.commute div_mult_mod_eq)
  moreover from r have "r div 4096 mod 16 = r div 4096" "r div 4096 < 16" by simp_all
  ultimately show ?thesis by simp
qed

lemma parse_str_escape_u:
  assumes "r < 55296"
  shows "parse_str (escape_u r @ t) = map_option (\<lambda>(x, y). (utf8_encode r @ x, y)) (parse_str t)"
proof -
  have "low_surrogate r t = None"
    using assms by (auto simp: low_surrogate_def split: list.split)
  moreover have "hex4 (hex_char (r div 4096 mod 16) # hex_char (r div 256 mod 16)
      # hex_char (r div 16 mod 16) # hex_char (r mod 16) # t) = Some r"
    using assms by (intro hex4_escape) simp
  ultimately show ?thesis by (simp add: escape_u_def unescape_def del: hex4.simps)
qed

lemma parse_str_ascii:
  assumes "code c < 128"
  shows "parse_str (escape_ascii c @ t) = map_option (\<lambda>(x, y). (c # x, y)) (parse_str t)"
proof -
  have u: "utf8_encode (code c) = [c]" using assms by (simp add: utf8_encode_def)
  show ?thesis
    using assms parse_str_escape_u [of "code c" t] u
    by (auto simp: escape_ascii_def unescape_def utf8_len_ascii)
qed

lemma parse_str_quote:
  "valid_utf8 s \<Longrightarrow> parse_str (quote_chars s @ quote_char # r) = Some (s, r)"
proof (induction s rule: quote_chars.induct)
  case (2 c s)
  let ?n = "utf8_len (c # s)" and ?t = "drop (utf8_len (c # s) - 1) s"
  show ?case
  proof (cases "code c < 128")
    case True
    with 2 show ?thesis by (simp add: parse_str_ascii)
  next
    case False
    with "2.prems" have n: "?n \<noteq> 0" and v: "valid_utf8 ?t" by (auto split: if_splits)
    have IH: "parse_str (quote_chars ?t @ quote_char # r) = Some (?t, r)"
      using "2.IH"(3) [OF False refl n v] by simp
    have split: "take ?n (c # s) @ ?t = c # s"
      using n by (cases ?n) simp_all
    show ?thesis
    proof (cases "take ?n (c # s) = utf8_encode 8232 \<or> take ?n (c # s) = utf8_encode 8233")
      case True
      with False n IH split show ?thesis
        by (auto simp: parse_str_escape_u Let_def)
    next
      case plain: False
      let ?rest = "quote_chars ?t @ quote_char # r"
      have hd: "take ?n (c # s) @ ?rest = c # (take (?n - 1) s @ ?rest)"
        using n by (cases ?n) simp_all
      have len: "utf8_len (c # (take (?n - 1) s @ ?rest)) = ?n"
        using utf8_len_take [OF n, of ?rest] hd by simp
      have "length (take (?n - 1) s) = ?n - 1"
        using utf8_len_le [of "c # s"] by simp
      then have tl: "take ?n (c # (take (?n - 1) s @ ?rest)) = take ?n (c # s)"
          "drop (?n - 1) (take (?n - 1) s @ ?rest) = ?rest"
        using n by (cases ?n; simp)+
      have c: "c \<noteq> quote_char" "c \<noteq> backslash" "\<not> code c < 32" using False by auto
      have "parse_str (take ?n (c # s) @ ?rest) = Some (take ?n (c # s) @ ?t, r)"
        unfolding hd using c n len tl IH by (simp add: Let_def)
      with plain False n split show ?thesis by (simp add: Let_def)
    qed
  qed
qed simp

section \<open>Trees: printing and parsing\<close>

definition plain_number :: "string \<Rightarrow> bool" where
  "plain_number s \<longleftrightarrow> s \<noteq> [] \<and> list_all is_digit s \<and> (hd s = CHR ''0'' \<longrightarrow> length s = 1)"

definition int_number :: "string \<Rightarrow> bool" where
  "int_number s \<longleftrightarrow> plain_number (if s \<noteq> [] \<and> hd s = CHR ''-'' then tl s else s)"

text \<open>What Go's encoder produces: integers and valid strings.\<close>

fun wf_json :: "json \<Rightarrow> bool" where
  "wf_json (JNum s) = int_number s"
| "wf_json (JStr s) = valid_utf8 s"
| "wf_json (JArr vs) = list_all wf_json vs"
| "wf_json (JObj ms) = list_all (\<lambda>(k, v). valid_utf8 k \<and> wf_json v) ms"
| "wf_json _ = True"

text \<open>What may follow a value inside a printed text.\<close>

definition delim :: "string \<Rightarrow> bool" where
  "delim s \<longleftrightarrow> s = [] \<or> hd s = CHR '','' \<or> hd s = CHR '']'' \<or> hd s = CHR ''}''"

lemma digit_not_special:
  "is_digit c \<Longrightarrow> \<not> is_space c \<and> c \<noteq> CHR ''{'' \<and> c \<noteq> CHR ''['' \<and> c \<noteq> quote_char \<and> c \<noteq> CHR ''t''
     \<and> c \<noteq> CHR ''f'' \<and> c \<noteq> CHR ''n'' \<and> c \<noteq> CHR ''-'' \<and> c \<noteq> CHR '']'' \<and> c \<noteq> CHR ''}''"
  by (auto simp: is_digit_def is_space_def)

lemma number_head:
  assumes "c = CHR ''-'' \<or> is_digit c"
  shows "\<not> is_space c \<and> c \<noteq> CHR ''{'' \<and> c \<noteq> CHR ''['' \<and> c \<noteq> quote_char \<and> c \<noteq> CHR ''t''
     \<and> c \<noteq> CHR ''f'' \<and> c \<noteq> CHR ''n'' \<and> c \<noteq> CHR '']''"
  using assms
proof
  assume "c = CHR ''-''"
  then show ?thesis by (simp add: is_space_def)
qed (use digit_not_special in blast)

lemma parse_frac_delim: "delim r \<Longrightarrow> parse_frac acc r = Some (acc, r)"
  by (cases r) (auto simp: delim_def parse_frac_def parse_exp_def)

lemma delim_not_digit: "delim r \<Longrightarrow> takeWhile is_digit r = [] \<and> dropWhile is_digit r = r"
  by (cases r) (auto simp: delim_def is_digit_def)

lemma parse_unsigned_plain:
  assumes "plain_number s" and "delim r"
  shows "parse_unsigned sg (s @ r) = Some (sg @ s, r)"
proof -
  obtain c t where s: "s = c # t" "is_digit c" "list_all is_digit t"
    using assms(1) by (cases s) (auto simp: plain_number_def)
  show ?thesis
  proof (cases "c = CHR ''0''")
    case True
    with assms s show ?thesis by (simp add: parse_unsigned_def plain_number_def parse_frac_delim)
  next
    case False
    have "\<forall>x \<in> set t. is_digit x" using s(3) by (simp add: list_all_iff)
    with False s assms(2) delim_not_digit [OF assms(2)] show ?thesis
      by (simp add: parse_unsigned_def parse_frac_delim takeWhile_append2 dropWhile_append2)
  qed
qed

lemma plain_number_Cons: "plain_number s \<Longrightarrow> \<exists>c t. s = c # t \<and> is_digit c"
  by (cases s) (auto simp: plain_number_def)

lemma int_number_plain [simp]: "plain_number s \<Longrightarrow> int_number s"
  using plain_number_Cons [of s] digit_not_special by (auto simp: int_number_def)

lemma int_number_neg [simp]: "plain_number s \<Longrightarrow> int_number (CHR ''-'' # s)"
  by (simp add: int_number_def)

lemma int_number_Cons:
  assumes "int_number s"
  obtains c t where "s = c # t" "c = CHR ''-'' \<or> is_digit c"
  using assms plain_number_Cons [of s] by (cases s) (auto simp: int_number_def split: if_splits)

lemma parse_num_int:
  assumes "int_number s" and "delim r"
  shows "parse_num (s @ r) = Some (s, r)"
proof (cases "hd s = CHR ''-''")
  case True
  with assms obtain t where "s = CHR ''-'' # t" "plain_number t"
    by (cases s) (auto simp: int_number_def plain_number_def split: if_splits)
  with parse_unsigned_plain [of t r "''-''"] assms(2) show ?thesis by (simp add: parse_num_def)
next
  case False
  with assms have "plain_number s" by (auto simp: int_number_def split: if_splits)
  with plain_number_Cons [of s] parse_unsigned_plain [of s r "[]"] assms(2) False show ?thesis
    by (auto simp: parse_num_def)
qed

lemma print_json_head:
  assumes "wf_json v"
  shows "\<exists>c t. print_json v = c # t \<and> \<not> is_space c \<and> c \<noteq> CHR '']''"
proof (cases v)
  case (JNum s)
  with assms obtain c t where "s = c # t" "c = CHR ''-'' \<or> is_digit c" by (auto elim: int_number_Cons)
  with JNum number_head [of c] show ?thesis by simp
qed (auto simp: quote_def is_space_def)

lemma skip_print:
  assumes "wf_json v"
  shows "skip (print_json v @ r) = print_json v @ r"
proof -
  from print_json_head [OF assms] obtain c t where "print_json v = c # t" "\<not> is_space c" by blast
  then show ?thesis by simp
qed

lemma skip_char [simp]: "\<not> is_space c \<Longrightarrow> skip (c # s) = c # s"
  by simp

lemma not_space [simp]:
  "\<not> is_space (CHR '','')" "\<not> is_space (CHR '']'')" "\<not> is_space (CHR ''}'')" "\<not> is_space (CHR '':'')"
  "\<not> is_space quote_char" "\<not> is_space (CHR ''{'')" "\<not> is_space (CHR ''['')"
  by (simp_all add: is_space_def)

lemma delim_simps [simp]:
  "delim []" "delim (CHR '','' # s)" "delim (CHR '']'' # s)" "delim (CHR ''}'' # s)"
  by (simp_all add: delim_def)

text \<open>\<open>parses_back n v\<close>: with fuel \<open>n\<close> the printed text of \<open>v\<close> is read back.\<close>

definition parses_back :: "json \<Rightarrow> bool" where
  "parses_back v \<longleftrightarrow> (\<forall>n r. delim r \<longrightarrow> 2 * length (print_json v) \<le> n \<longrightarrow>
     parse_value n (print_json v @ r) = Some (v, r))"

lemma parse_elems_print:
  assumes "\<forall>v \<in> set vs. wf_json v \<and> parses_back v" and "vs \<noteq> []"
    and "2 * length (commas (map print_json vs)) < n"
  shows "parse_elems n (commas (map print_json vs) @ CHR '']'' # r) = Some (vs, r)"
  using assms
proof (induction vs arbitrary: n)
  case (Cons v vs)
  then obtain m where n: "n = Suc m" by (cases n) auto
  show ?case
  proof (cases vs)
    case Nil
    with Cons.prems n show ?thesis by (simp add: parses_back_def)
  next
    case (Cons w ws)
    let ?rest = "commas (map print_json (w # ws))"
    have "2 * length (print_json v) \<le> m" "2 * length ?rest < m"
      using Cons.prems n by (auto simp: \<open>vs = w # ws\<close>)
    moreover from this(2) have "parse_elems m (?rest @ CHR '']'' # r) = Some (w # ws, r)"
      using Cons.IH [of m] Cons.prems by (simp add: \<open>vs = w # ws\<close>)
    ultimately show ?thesis
      using Cons.prems n by (simp add: \<open>vs = w # ws\<close> parses_back_def)
  qed
qed simp

abbreviation print_member :: "string \<times> json \<Rightarrow> string" where
  "print_member \<equiv> (\<lambda>(k, v). quote k @ CHR '':'' # print_json v)"

lemma parse_members_print:
  assumes "\<forall>(k, v) \<in> set ms. valid_utf8 k \<and> wf_json v \<and> parses_back v" and "ms \<noteq> []"
    and "2 * length (commas (map print_member ms)) < n"
  shows "parse_members n (commas (map print_member ms) @ CHR ''}'' # r) = Some (ms, r)"
  using assms
proof (induction ms arbitrary: n)
  case (Cons kv ms)
  obtain k v where kv: "kv = (k, v)" by (cases kv)
  from Cons.prems obtain m where n: "n = Suc m" by (cases n) auto
  have k: "parse_str (quote_chars k @ quote_char # t) = Some (k, t)" for t
    using Cons.prems(1) parse_str_quote by (simp add: kv)
  show ?case
  proof (cases ms)
    case Nil
    with Cons.prems n k show ?thesis by (simp add: parses_back_def kv quote_def)
  next
    case (Cons w ws)
    let ?rest = "commas (map print_member (w # ws))"
    have len: "2 * length (print_json v) \<le> m" "2 * length ?rest < m"
      using Cons.prems n by (auto simp: \<open>ms = w # ws\<close> kv)
    have "parse_members m (?rest @ CHR ''}'' # r) = Some (w # ws, r)"
      using Cons.IH [of m] Cons.prems len(2) by (simp add: \<open>ms = w # ws\<close>)
    moreover have "parse_value m (print_json v @ CHR '','' # t) = Some (v, CHR '','' # t)" for t
      using Cons.prems(1) len(1) by (simp add: parses_back_def kv)
    ultimately show ?thesis
      using n k by (simp add: \<open>ms = w # ws\<close> kv quote_def)
  qed
qed simp

lemma commas_head:
  "xs \<noteq> [] \<Longrightarrow> hd xs = c # t \<Longrightarrow> \<exists>u. commas xs = c # u"
  by (cases xs rule: commas.cases) auto

lemma commas_nonempty_arr:
  assumes "vs \<noteq> []" and "list_all wf_json vs"
  shows "\<exists>c u. commas (map print_json vs) = c # u \<and> \<not> is_space c \<and> c \<noteq> CHR '']''"
proof -
  from assms obtain v ws where vs: "vs = v # ws" "wf_json v" by (cases vs) auto
  from print_json_head [OF vs(2)] obtain c t where "print_json v = c # t" "\<not> is_space c" "c \<noteq> CHR '']''"
    by blast
  with commas_head [of "map print_json vs" c t] vs(1) show ?thesis by auto
qed

lemma parses_backI:
  assumes "print_json v \<noteq> []"
    and "\<And>m r. delim r \<Longrightarrow> parse_value (Suc m) (print_json v @ r) = Some (v, r)"
  shows "parses_back v"
  unfolding parses_back_def
proof (intro allI impI)
  fix n r assume "delim r" and "2 * length (print_json v) \<le> n"
  with assms(1) obtain m where "n = Suc m" by (cases n) auto
  with assms(2) \<open>delim r\<close> show "parse_value n (print_json v @ r) = Some (v, r)" by simp
qed

lemma wf_parses_back: "wf_json v \<Longrightarrow> parses_back v"
proof (induction v rule: print_json.induct)
  case 1
  show ?case by (rule parses_backI) (simp_all add: literal_def is_space_def)
next
  case (2 b)
  show ?case by (rule parses_backI) (auto simp: literal_def is_space_def)
next
  case (3 s)
  then obtain c t where s: "s = c # t" "c = CHR ''-'' \<or> is_digit c" by (auto elim: int_number_Cons)
  show ?case
  proof (rule parses_backI)
    fix m r assume "delim r"
    with parse_num_int [of s r] 3 have "parse_num (c # t @ r) = Some (s, r)" by (simp add: s)
    moreover have "\<not> is_space c" "c \<noteq> CHR ''{''" "c \<noteq> CHR ''[''" "c \<noteq> quote_char" "c \<noteq> CHR ''t''"
        "c \<noteq> CHR ''f''" "c \<noteq> CHR ''n''"
      using number_head [OF s(2)] by blast+
    ultimately show "parse_value (Suc m) (print_json (JNum s) @ r) = Some (JNum s, r)" by (simp add: s)
  qed (simp add: s)
next
  case (4 s)
  then show ?case by (intro parses_backI) (simp_all add: quote_def parse_str_quote)
next
  case (5 vs)
  then have vs: "\<forall>v \<in> set vs. wf_json v \<and> parses_back v" by (auto simp: list_all_iff)
  show ?case
    unfolding parses_back_def
  proof (intro allI impI)
    fix n r assume "2 * length (print_json (JArr vs)) \<le> n"
    then obtain m where n: "n = Suc m" "2 * length (commas (map print_json vs)) < m" by (cases n) auto
    show "parse_value n (print_json (JArr vs) @ r) = Some (JArr vs, r)"
    proof (cases "vs = []")
      case False
      from commas_nonempty_arr [OF this] 5(2) obtain c u where
        "commas (map print_json vs) = c # u" "\<not> is_space c" "c \<noteq> CHR '']''" by auto
      with parse_elems_print [OF vs False n(2), of r] show ?thesis by (simp add: n(1))
    qed (simp add: n(1))
  qed
next
  case (6 ms)
  then have ms: "\<forall>(k, v) \<in> set ms. valid_utf8 k \<and> wf_json v \<and> parses_back v"
    by (force simp: list_all_iff)
  show ?case
    unfolding parses_back_def
  proof (intro allI impI)
    fix n r assume "2 * length (print_json (JObj ms)) \<le> n"
    then obtain m where n: "n = Suc m" "2 * length (commas (map print_member ms)) < m" by (cases n) auto
    show "parse_value n (print_json (JObj ms) @ r) = Some (JObj ms, r)"
    proof (cases "ms = []")
      case False
      then obtain k v rest where "ms = (k, v) # rest" by (cases ms) auto
      then have "hd (map print_member ms) = quote_char # (quote_chars k @ quote_char # CHR '':'' # print_json v)"
        by (simp add: quote_def)
      with commas_head [of "map print_member ms"] False obtain u where
        "commas (map print_member ms) = quote_char # u" by auto
      with parse_members_print [OF ms False n(2), of r] show ?thesis by (simp add: n(1))
    qed (simp add: n(1))
  qed
qed

theorem json_parse_print: "wf_json v \<Longrightarrow> json_parse (print_json v) = Some v"
  using wf_parses_back [of v] unfolding parses_back_def json_parse_def
  by (metis (mono_tags, lifting) append_Nil2 delim_simps(1) dropWhile.simps(1) le_add1 case_prod_conv option.simps(5))

section \<open>The fuel is enough\<close>

lemma length_skip [simp]: "length (skip s) \<le> length s"
  by (rule length_dropWhile_le)

lemma parse_str_length: "parse_str s = Some (t, r) \<Longrightarrow> length r \<le> length s"
proof (induction s arbitrary: t r rule: parse_str.induct)
  case (2 c s)
  show ?case
    using 2 by (fastforce simp: Let_def split: if_splits list.splits option.splits prod.splits)
qed simp

lemma parse_exp_length: "parse_exp acc s = Some (t, r) \<Longrightarrow> length r \<le> length s"
  using length_dropWhile_le [of is_digit s] length_dropWhile_le [of is_digit "tl s"]
    length_dropWhile_le [of is_digit "tl (tl s)"]
  by (auto simp: parse_exp_def Let_def split: list.splits if_splits)

lemma parse_frac_length: "parse_frac acc s = Some (t, r) \<Longrightarrow> length r \<le> length s"
  using length_dropWhile_le [of is_digit "tl s"]
  by (auto simp: parse_frac_def Let_def dest!: parse_exp_length split: list.splits if_splits)

lemma parse_unsigned_length: "parse_unsigned sign s = Some (t, r) \<Longrightarrow> length r \<le> length s"
  using length_dropWhile_le [of is_digit s]
  by (cases s) (auto simp: parse_unsigned_def dest!: parse_frac_length split: if_splits)

lemma parse_num_length: "parse_num s = Some (t, r) \<Longrightarrow> length r \<le> length s"
  by (cases s) (auto simp: parse_num_def dest!: parse_unsigned_length split: if_splits)

lemma skip_Cons_length: "skip s = c # r \<Longrightarrow> length r < length s"
  using length_dropWhile_le [of is_space s] by simp

lemma literal_length: "literal w v s = Some (x, r) \<Longrightarrow> length r \<le> length s"
  by (auto simp: literal_def split: if_splits)

text \<open>\<open>shrinks p\<close>: the parser \<open>p\<close> never returns more text than it was given.\<close>

definition shrinks :: "(string \<Rightarrow> ('a \<times> string) option) \<Rightarrow> bool" where
  "shrinks p \<longleftrightarrow> (\<forall>s v r. p s = Some (v, r) \<longrightarrow> length r \<le> length s)"

lemma shrinksD: "shrinks p \<Longrightarrow> p s = Some (v, r) \<Longrightarrow> length r \<le> length s"
  by (simp add: shrinks_def)

lemma shrinks_value: "shrinks (parse_elems n) \<Longrightarrow> shrinks (parse_members n) \<Longrightarrow> shrinks (parse_value (Suc n))"
  unfolding shrinks_def [of "parse_value (Suc n)"]
  by (fastforce dest: skip_Cons_length shrinksD parse_str_length parse_num_length literal_length
      split: list.splits if_splits)

lemma shrinks_elems: "shrinks (parse_value n) \<Longrightarrow> shrinks (parse_elems n) \<Longrightarrow> shrinks (parse_elems (Suc n))"
  unfolding shrinks_def [of "parse_elems (Suc n)"]
  by (fastforce dest: skip_Cons_length shrinksD split: list.splits if_splits option.splits)

lemma shrinks_members: "shrinks (parse_value n) \<Longrightarrow> shrinks (parse_members n) \<Longrightarrow> shrinks (parse_members (Suc n))"
  unfolding shrinks_def [of "parse_members (Suc n)"]
  by (fastforce dest: skip_Cons_length shrinksD parse_str_length split: list.splits if_splits option.splits)

lemma shrinks_all: "shrinks (parse_value n) \<and> shrinks (parse_elems n) \<and> shrinks (parse_members n)"
proof (induction n)
  case 0
  show ?case by (simp add: shrinks_def)
next
  case (Suc n)
  then show ?case using shrinks_value shrinks_elems shrinks_members by blast
qed

text \<open>Above the bound, one unit of fuel more changes nothing.\<close>

definition enough :: "nat \<Rightarrow> bool" where
  "enough n \<longleftrightarrow> (\<forall>s. 2 * length s < n \<longrightarrow> parse_value (Suc n) s = parse_value n s)
     \<and> (\<forall>s. 2 * length s + 1 < n \<longrightarrow> parse_elems (Suc n) s = parse_elems n s)
     \<and> (\<forall>s. 2 * length s + 1 < n \<longrightarrow> parse_members (Suc n) s = parse_members n s)"

lemma enough_value:
  assumes "enough n" and "2 * length s < Suc n"
  shows "parse_value (Suc (Suc n)) s = parse_value (Suc n) s"
proof (cases "skip s")
  case (Cons c t)
  have "2 * length t + 1 < n" using skip_Cons_length [OF Cons] assms(2) by simp
  then have "parse_elems (Suc n) t = parse_elems n t" "parse_members (Suc n) t = parse_members n t"
    using assms(1) unfolding enough_def by blast+
  with Cons show ?thesis
    by (simp only: parse_value.simps(2) [of "Suc n"] parse_value.simps(2) [of n] list.case)
qed (simp only: parse_value.simps(2) list.case)

lemma enough_elems:
  assumes "enough n" and "2 * length s + 1 < Suc n"
  shows "parse_elems (Suc (Suc n)) s = parse_elems (Suc n) s"
proof -
  have v: "parse_value (Suc n) s = parse_value n s" using assms unfolding enough_def by simp
  show ?thesis
  proof (cases "parse_value n s")
    case (Some x)
    obtain w r where x: "x = (w, r)" by (cases x)
    have le: "length r \<le> length s" using shrinks_all [of n] Some x by (auto dest: shrinksD)
    note eqs = parse_elems.simps(2) [of "Suc n"] parse_elems.simps(2) [of n]
    show ?thesis
    proof (cases "skip r")
      case sr: (Cons d r')
      have "parse_elems (Suc n) r' = parse_elems n r'"
        using skip_Cons_length [OF sr] le assms unfolding enough_def by simp
      then show ?thesis unfolding eqs by (simp only: Some x v sr list.case option.case prod.case)
    qed (unfold eqs, simp only: Some x v list.case option.case prod.case)
  qed (simp only: parse_elems.simps(2) v option.case)
qed

lemma enough_members:
  assumes "enough n" and "2 * length s + 1 < Suc n"
  shows "parse_members (Suc (Suc n)) s = parse_members (Suc n) s"
proof -
  note eqs = parse_members.simps(2) [of "Suc n"] parse_members.simps(2) [of n]
  show ?thesis
  proof (cases "skip s")
    case s: (Cons c t)
    show ?thesis
    proof (cases "parse_str t")
      case t: (Some kr)
      obtain k r where kr: "kr = (k, r)" by (cases kr)
      have r: "length r < length s"
        using skip_Cons_length [OF s] parse_str_length [of t k r] t kr by simp
      show ?thesis
      proof (cases "skip r")
        case sr: (Cons d r2)
        have r2: "length r2 < length s" using skip_Cons_length [OF sr] r by simp
        then have v: "parse_value (Suc n) r2 = parse_value n r2" using assms unfolding enough_def by simp
        show ?thesis
        proof (cases "parse_value n r2")
          case pv: (Some vr)
          obtain v r3 where vr: "vr = (v, r3)" by (cases vr)
          have r3: "length r3 \<le> length r2" using shrinks_all [of n] pv vr by (auto dest: shrinksD)
          show ?thesis
          proof (cases "skip r3")
            case sr3: (Cons d3 r4)
            have "parse_members (Suc n) r4 = parse_members n r4"
              using skip_Cons_length [OF sr3] r3 r2 assms unfolding enough_def by simp
            then show ?thesis unfolding eqs by (simp only: s t kr sr v pv vr sr3 list.case option.case prod.case)
          qed (unfold eqs, simp only: s t kr sr v pv vr list.case option.case prod.case)
        qed (unfold eqs, simp only: s t kr sr v list.case option.case prod.case)
      qed (unfold eqs, simp only: s t kr list.case option.case prod.case)
    qed (unfold eqs, simp only: s list.case option.case)
  qed (unfold eqs, simp only: list.case)
qed

lemma enough_all: "enough n"
proof (induction n)
  case 0
  show ?case by (simp add: enough_def)
next
  case (Suc n)
  then show ?case
    using enough_value enough_elems enough_members unfolding enough_def [of "Suc n"] by blast
qed

lemma parse_value_fuel: "2 * length s < n \<Longrightarrow> n \<le> m \<Longrightarrow> parse_value m s = parse_value n s"
proof (induction "m - n" arbitrary: m)
  case (Suc d)
  then obtain m' where m: "m = Suc m'" "d = m' - n" "n \<le> m'" by (cases m) auto
  then have "parse_value m s = parse_value m' s"
    using enough_all [of m'] Suc.prems(1) unfolding enough_def by simp
  with Suc m show ?case by simp
qed simp

text \<open>So the outcome of \<open>json_parse\<close> does not depend on its fuel.\<close>

lemma json_parse_fuel:
  assumes "2 * length s + 2 \<le> n"
  shows "json_parse s = (case parse_value n s of Some (v, r) \<Rightarrow> if skip r = [] then Some v else None | None \<Rightarrow> None)"
  unfolding json_parse_def using parse_value_fuel [of s "2 * length s + 2" n] assms by simp

section \<open>Decoding into Go values\<close>

text \<open>
  \<open>json.Unmarshal\<close> into a variable keeps the old value for \<open>null\<close> (a slice becomes nil) and fails when
  the kinds do not fit; the text of the error is not reproduced.
\<close>

definition json_SyntaxError :: go_error where
  "json_SyntaxError = Err_New ''json: syntax error''"

definition json_TypeError :: go_error where
  "json_TypeError = Err_New ''json: cannot unmarshal''"

definition decode_uint64 :: "json \<Rightarrow> u64 \<Rightarrow> u64 go_result" where
  "decode_uint64 v old =
     (case v of
        JNull \<Rightarrow> Inr old
      | JNum s \<Rightarrow> (case ParseUint s of Inr n \<Rightarrow> Inr n | Inl _ \<Rightarrow> Inl json_TypeError)
      | _ \<Rightarrow> Inl json_TypeError)"

definition decode_string :: "json \<Rightarrow> string \<Rightarrow> string go_result" where
  "decode_string v old =
     (case v of JNull \<Rightarrow> Inr old | JStr s \<Rightarrow> Inr s | _ \<Rightarrow> Inl json_TypeError)"

definition decode_bool :: "json \<Rightarrow> bool \<Rightarrow> bool go_result" where
  "decode_bool v old =
     (case v of JNull \<Rightarrow> Inr old | JBool b \<Rightarrow> Inr b | _ \<Rightarrow> Inl json_TypeError)"

text \<open>Elements are decoded into a zero value; the first error is the result.\<close>

fun decode_elems :: "(json \<Rightarrow> 'a go_result) \<Rightarrow> json list \<Rightarrow> 'a list go_result" where
  "decode_elems f [] = Inr []"
| "decode_elems f (v # vs) =
     (case f v of
        Inl err \<Rightarrow> Inl err
      | Inr x \<Rightarrow> (case decode_elems f vs of Inl err \<Rightarrow> Inl err | Inr xs \<Rightarrow> Inr (x # xs)))"

definition decode_slice :: "(json \<Rightarrow> 'a go_result) \<Rightarrow> json \<Rightarrow> 'a list go_result" where
  "decode_slice f v =
     (case v of JNull \<Rightarrow> Inr [] | JArr vs \<Rightarrow> decode_elems f vs | _ \<Rightarrow> Inl json_TypeError)"

text \<open>
  Struct fields are found by their exact name, otherwise by a name that is equal up to case; the
  long s and the Kelvin sign fold to letters.
\<close>

fun fold_name :: "string \<Rightarrow> string" where
  "fold_name [] = []"
| "fold_name (c # s) =
     (if 97 \<le> code c \<and> code c \<le> 122 then char_of (code c - 32) # fold_name s
      else if c # take 1 s = utf8_encode 383 then CHR ''S'' # fold_name (drop 1 s)
      else if c # take 2 s = utf8_encode 8490 then CHR ''K'' # fold_name (drop 2 s)
      else c # fold_name s)"

type_synonym ('v, 'r) fields = "(string \<times> ('v \<Rightarrow> 'r \<Rightarrow> 'r go_result)) list"

definition find_field :: "('v, 'r) fields \<Rightarrow> string \<Rightarrow> ('v \<Rightarrow> 'r \<Rightarrow> 'r go_result) option" where
  "find_field fs k =
     (case map_of fs k of
        Some f \<Rightarrow> Some f
      | None \<Rightarrow> map_option snd (find (\<lambda>(name, f). fold_name name = fold_name k) fs))"

fun decode_members :: "('v, 'r) fields \<Rightarrow> (string \<times> 'v) list \<Rightarrow> 'r \<Rightarrow> 'r go_result" where
  "decode_members fs [] r = Inr r"
| "decode_members fs ((k, v) # ms) r =
     (case find_field fs k of
        None \<Rightarrow> decode_members fs ms r
      | Some f \<Rightarrow> (case f v r of Inl err \<Rightarrow> Inl err | Inr r \<Rightarrow> decode_members fs ms r))"

definition decode_struct :: "(json, 'r) fields \<Rightarrow> json \<Rightarrow> 'r \<Rightarrow> 'r go_result" where
  "decode_struct fs v r =
     (case v of JNull \<Rightarrow> Inr r | JObj ms \<Rightarrow> decode_members fs ms r | _ \<Rightarrow> Inl json_TypeError)"

text \<open>\<open>set_field dec get put\<close>: decode into one field of a record.\<close>

definition set_field :: "('v \<Rightarrow> 'a \<Rightarrow> 'a go_result) \<Rightarrow> ('r \<Rightarrow> 'a) \<Rightarrow> ('a \<Rightarrow> 'r \<Rightarrow> 'r) \<Rightarrow> 'v \<Rightarrow> 'r \<Rightarrow> 'r go_result" where
  "set_field dec get put v r = (case dec v (get r) of Inl err \<Rightarrow> Inl err | Inr x \<Rightarrow> Inr (put x r))"

definition json_Unmarshal :: "(json \<Rightarrow> 'a go_result) \<Rightarrow> string \<Rightarrow> 'a go_result" where
  "json_Unmarshal dec s = (case json_parse s of None \<Rightarrow> Inl json_SyntaxError | Some v \<Rightarrow> dec v)"

lemma find_field_exact [simp]: "map_of fs k = Some f \<Longrightarrow> find_field fs k = Some f"
  by (simp add: find_field_def)

lemma json_Unmarshal_print [simp]: "wf_json v \<Longrightarrow> json_Unmarshal dec (print_json v) = dec v"
  by (simp add: json_Unmarshal_def json_parse_print)

lemma valid_utf8_ascii: "\<forall>c \<in> set s. code c < 128 \<Longrightarrow> valid_utf8 s"
  by (induction s rule: valid_utf8.induct) (auto dest: in_set_dropD)

lemma format_nat_ascii: "\<forall>c \<in> set (format_nat n). code c < 128"
  by (fastforce dest: format_nat_digits simp: is_digit_def)

lemma valid_utf8_FormatUint: "valid_utf8 (FormatUint n)"
  by (rule valid_utf8_ascii) (fastforce dest: FormatUint_digits simp: is_digit_def)

lemma plain_number_format_nat [simp]: "plain_number (format_nat n)"
proof -
  have "hd (format_nat m) = CHR ''0'' \<longrightarrow> length (format_nat m) = 1" for m
  proof (induction m rule: format_nat.induct)
    case (1 m)
    show ?case
    proof (cases "m < 10")
      case False
      with 1 have IH: "hd (format_nat (m div 10)) = CHR ''0'' \<longrightarrow> length (format_nat (m div 10)) = 1" by simp
      show ?thesis
      proof
        assume "hd (format_nat m) = CHR ''0''"
        with False have z: "hd (format_nat (m div 10)) = CHR ''0''" by (simp add: format_nat.simps [of m])
        with IH have "length (format_nat (m div 10)) = 1" by simp
        then have "m div 10 < 10"
          by (cases "m div 10 < 10") (auto simp: format_nat.simps [of "m div 10"])
        then have "digit_char (m div 10) = CHR ''0''" using z by (simp add: format_nat.simps [of "m div 10"])
        then have "m div 10 = 0" using digit_val_digit_char [OF \<open>m div 10 < 10\<close>] by (simp add: digit_val_def)
        with False show "length (format_nat m) = 1" by simp
      qed
    qed (simp add: format_nat.simps [of m])
  qed
  then show ?thesis
    by (simp add: plain_number_def list_all_iff format_nat_digits)
qed

lemma plain_number_FormatUint [simp]: "plain_number (FormatUint n)"
  by (simp add: FormatUint_def)

section \<open>Plain text\<close>

text \<open>Characters the JSON encoder copies.\<close>

definition plain_char :: "char \<Rightarrow> bool" where
  "plain_char c \<longleftrightarrow> 32 \<le> code c \<and> code c < 127 \<and> c \<notin> {quote_char, backslash, CHR ''<'', CHR ''>'', CHR 0x26}"

lemma escape_plain: "plain_char c \<Longrightarrow> escape_ascii c = [c]"
proof -
  assume c: "plain_char c"
  then have ge: "32 \<le> code c" and no: "c \<noteq> quote_char" "c \<noteq> backslash" "c \<noteq> CHR ''<''" "c \<noteq> CHR ''>''" "c \<noteq> CHR 0x26"
    unfolding plain_char_def by blast+
  from ge have "c \<noteq> CHR 0x08" "c \<noteq> CHR 0x0C" "c \<noteq> CHR 0x0A" "c \<noteq> CHR 0x0D" "c \<noteq> CHR 0x09" "\<not> code c < 32"
    by auto
  with no show ?thesis by (simp only: escape_ascii_def if_False simp_thms)
qed

lemma quote_chars_plain: "\<forall>c \<in> set s. plain_char c \<Longrightarrow> quote_chars s = s"
proof (induction s)
  case (Cons c s)
  then have "code c < 128" "quote_chars s = s" "escape_ascii c = [c]"
    using escape_plain [of c] by (simp_all add: plain_char_def)
  then show ?case by (simp only: quote_chars.simps if_True append.simps)
qed simp

lemma plain_digit: "is_digit c \<Longrightarrow> plain_char c"
  by (auto simp: is_digit_def plain_char_def)

lemma valid_plain: "\<forall>c \<in> set s. plain_char c \<Longrightarrow> valid_utf8 s"
proof (rule valid_utf8_ascii, rule ballI)
  fix c assume "\<forall>c \<in> set s. plain_char c" and "c \<in> set s"
  then have "plain_char c" by blast
  then show "code c < 128" unfolding plain_char_def by linarith
qed

end
