(* ===== verification/Json_Raw.thy ===== *)
theory Json_Raw
  imports Go_Json
begin

text \<open>
  \<open>json.RawMessage\<close> and \<open>json.Unmarshaler\<close>: decoding that keeps the text of a value as it stands
  in the input. The members of an object, and the elements of an array, come with their text and
  their tree; they are the members and elements of the tree (\<open>raw_object_tree\<close>), and for printed JSON the texts are the
  printed values.
\<close>

section \<open>Members and elements with their text\<close>

type_synonym raw_json = "string \<times> json"

text \<open>The text of the value at the start of \<open>s\<close>, when \<open>r\<close> is what follows it.\<close>

definition raw_text :: "string \<Rightarrow> string \<Rightarrow> string" where
  "raw_text s r = take (length (skip s) - length r) (skip s)"

fun raw_members :: "nat \<Rightarrow> string \<Rightarrow> (string \<times> raw_json) list option" where
  "raw_members 0 s = None"
| "raw_members (Suc n) s =
     (case skip s of
        [] \<Rightarrow> None
      | c # r \<Rightarrow>
          if c = quote_char then
            (case parse_str r of
               None \<Rightarrow> None
             | Some (k, r) \<Rightarrow>
                 (case skip r of
                    [] \<Rightarrow> None
                  | d # r' \<Rightarrow>
                      if d = CHR '':'' then
                        (case parse_value n r' of
                           None \<Rightarrow> None
                         | Some (v, r) \<Rightarrow>
                             (case skip r of
                                [] \<Rightarrow> None
                              | d # r'' \<Rightarrow>
                                  if d = CHR ''}'' then Some [(k, raw_text r' r, v)]
                                  else if d = CHR '','' then
                                    map_option (Cons (k, raw_text r' r, v)) (raw_members n r'')
                                  else None))
                      else None))
          else None)"

fun raw_elems :: "nat \<Rightarrow> string \<Rightarrow> raw_json list option" where
  "raw_elems 0 s = None"
| "raw_elems (Suc n) s =
     (case parse_value n s of
        None \<Rightarrow> None
      | Some (v, r) \<Rightarrow>
          (case skip r of
             [] \<Rightarrow> None
           | d # r' \<Rightarrow>
               if d = CHR '']'' then Some [(raw_text s r, v)]
               else if d = CHR '','' then map_option (Cons (raw_text s r, v)) (raw_elems n r')
               else None))"

text \<open>Of the text of an object or an array, with the fuel of \<open>json_parse\<close>.\<close>

definition raw_object :: "string \<Rightarrow> (string \<times> raw_json) list option" where
  "raw_object s =
     (case skip s of
        [] \<Rightarrow> None
      | c # r \<Rightarrow>
          if c = CHR ''{'' then
            (case skip r of
               [] \<Rightarrow> None
             | d # r' \<Rightarrow> if d = CHR ''}'' then Some [] else raw_members (2 * length s + 1) r)
          else None)"

definition raw_array :: "string \<Rightarrow> raw_json list option" where
  "raw_array s =
     (case skip s of
        [] \<Rightarrow> None
      | c # r \<Rightarrow>
          if c = CHR ''['' then
            (case skip r of
               [] \<Rightarrow> None
             | d # r' \<Rightarrow> if d = CHR '']'' then Some [] else raw_elems (2 * length s + 1) r)
          else None)"

text \<open>\<open>json.Unmarshal\<close> into a struct some of whose fields need the text of their value.\<close>

definition unmarshal_raw_struct :: "(raw_json, 'r) fields \<Rightarrow> string \<Rightarrow> 'r \<Rightarrow> 'r go_result" where
  "unmarshal_raw_struct fs s r =
     (case json_parse s of
        None \<Rightarrow> Inl json_SyntaxError
      | Some JNull \<Rightarrow> Inr r
      | Some (JObj _) \<Rightarrow>
          (case raw_object s of None \<Rightarrow> Inl json_SyntaxError | Some ms \<Rightarrow> decode_members fs ms r)
      | Some _ \<Rightarrow> Inl json_TypeError)"

section \<open>The members are those of the tree\<close>

lemma raw_members_tree:
  "parse_members n s = Some (ms, r) \<Longrightarrow> \<exists>raws. raw_members n s = Some raws \<and> map (\<lambda>(k, _, v). (k, v)) raws = ms"
proof (induction n arbitrary: s ms r)
  case (Suc n)
  from Suc.prems show ?case
    by (auto simp del: dropWhile_eq_Nil_conv split: list.splits if_splits option.splits dest!: Suc.IH)
qed simp

lemma raw_elems_tree: "parse_elems n s = Some (vs, r) \<Longrightarrow> \<exists>raws. raw_elems n s = Some raws \<and> map snd raws = vs"
proof (induction n arbitrary: s vs r)
  case (Suc n)
  from Suc.prems show ?case
    by (auto simp del: dropWhile_eq_Nil_conv split: list.splits if_splits option.splits dest!: Suc.IH)
qed simp

lemma literal_value: "literal w v s = Some (x, r) \<Longrightarrow> x = v"
  by (auto simp: literal_def split: if_splits)

lemma parse_value_JObj:
  assumes "parse_value (Suc n) s = Some (JObj ms, r)"
  shows "\<exists>t. skip s = CHR ''{'' # t \<and> (ms = [] \<and> skip t = CHR ''}'' # r
    \<or> (\<exists>d t'. skip t = d # t' \<and> d \<noteq> CHR ''}'') \<and> parse_members n t = Some (ms, r))"
  using assms
  by (auto simp del: dropWhile_eq_Nil_conv dest: literal_value split: list.splits if_splits)

lemma raw_object_tree:
  assumes "json_parse s = Some (JObj ms)"
  shows "\<exists>raws. raw_object s = Some raws \<and> map (\<lambda>(k, _, v). (k, v)) raws = ms"
proof -
  obtain r where "parse_value (Suc (2 * length s + 1)) s = Some (JObj ms, r)"
    using assms by (auto simp: json_parse_def split: option.splits if_splits prod.splits)
  from parse_value_JObj [OF this] show ?thesis
    using raw_members_tree [of "2 * length s + 1"] by (fastforce simp: raw_object_def)
qed

section \<open>Printed JSON\<close>

lemma raw_text_print:
  assumes "wf_json v"
  shows "raw_text (print_json v @ r) r = print_json v"
  unfolding raw_text_def skip_print [OF assms] by simp

lemma raw_members_print:
  assumes "\<forall>(k, v) \<in> set ms. valid_utf8 k \<and> wf_json v" and "ms \<noteq> []"
    and "2 * length (commas (map print_member ms)) < n"
  shows "raw_members n (commas (map print_member ms) @ CHR ''}'' # r) = Some (map (\<lambda>(k, v). (k, print_json v, v)) ms)"
  using assms
proof (induction ms arbitrary: n)
  case (Cons kv ms)
  obtain k v where kv: "kv = (k, v)" by (cases kv)
  from Cons.prems obtain m where n: "n = Suc m" by (cases n) auto
  have k: "parse_str (quote_chars k @ quote_char # t) = Some (k, t)" for t
    using Cons.prems(1) parse_str_quote by (simp add: kv)
  have wf: "wf_json v" using Cons.prems(1) by (simp add: kv)
  have val: "parse_value m (print_json v @ t) = Some (v, t)" if "delim t" for t
    using wf_parses_back [OF wf] that Cons.prems(3) n
    by (cases ms) (auto simp: parses_back_def kv)
  show ?case
  proof (cases ms)
    case Nil
    with n k val wf show ?thesis by (simp add: kv quote_def raw_text_print)
  next
    case (Cons w ws)
    let ?rest = "commas (map print_member (w # ws))"
    have "2 * length ?rest < m" using Cons.prems n by (auto simp: \<open>ms = w # ws\<close> kv)
    then have "raw_members m (?rest @ CHR ''}'' # r) = Some (map (\<lambda>(k, v). (k, print_json v, v)) (w # ws))"
      using Cons.IH [of m] Cons.prems by (simp add: \<open>ms = w # ws\<close>)
    then show ?thesis
      using n k val wf by (simp add: \<open>ms = w # ws\<close> kv quote_def raw_text_print)
  qed
qed simp

lemma raw_object_print:
  assumes "wf_json (JObj ms)"
  shows "raw_object (print_json (JObj ms)) = Some (map (\<lambda>(k, v). (k, print_json v, v)) ms)"
proof (cases "ms = []")
  case False
  then obtain k v rest where "ms = (k, v) # rest" by (cases ms) auto
  then have "hd (map print_member ms) = quote_char # (quote_chars k @ quote_char # CHR '':'' # print_json v)"
    by (simp add: quote_def)
  with commas_head [of "map print_member ms"] False obtain u where
    u: "commas (map print_member ms) = quote_char # u" by auto
  have "\<forall>(k, v) \<in> set ms. valid_utf8 k \<and> wf_json v" using assms by (simp add: list_all_iff)
  from raw_members_print [OF this False, of _ "[]"] u show ?thesis by (simp add: raw_object_def del: raw_members.simps)
qed (simp add: raw_object_def)

lemma raw_elems_print:
  assumes "\<forall>v \<in> set vs. wf_json v" and "vs \<noteq> []"
    and "2 * length (commas (map print_json vs)) < n"
  shows "raw_elems n (commas (map print_json vs) @ CHR '']'' # r) = Some (map (\<lambda>v. (print_json v, v)) vs)"
  using assms
proof (induction vs arbitrary: n)
  case (Cons v vs)
  then obtain m where n: "n = Suc m" by (cases n) auto
  have wf: "wf_json v" using Cons.prems(1) by simp
  have val: "parse_value m (print_json v @ t) = Some (v, t)" if "delim t" for t
    using wf_parses_back [OF wf] that Cons.prems(3) n by (cases vs) (auto simp: parses_back_def)
  show ?case
  proof (cases vs)
    case Nil
    with n val wf show ?thesis by (simp add: raw_text_print)
  next
    case (Cons w ws)
    let ?rest = "commas (map print_json (w # ws))"
    have "2 * length ?rest < m" using Cons.prems n by (auto simp: \<open>vs = w # ws\<close>)
    then have "raw_elems m (?rest @ CHR '']'' # r) = Some (map (\<lambda>v. (print_json v, v)) (w # ws))"
      using Cons.IH [of m] Cons.prems by (simp add: \<open>vs = w # ws\<close>)
    then show ?thesis using n val wf by (simp add: \<open>vs = w # ws\<close> raw_text_print)
  qed
qed simp

lemma raw_array_print:
  assumes "wf_json (JArr vs)"
  shows "raw_array (print_json (JArr vs)) = Some (map (\<lambda>v. (print_json v, v)) vs)"
proof (cases "vs = []")
  case False
  have wf: "\<forall>v \<in> set vs. wf_json v" using assms by (simp add: list_all_iff)
  from commas_nonempty_arr [OF False] assms obtain c u where
    "commas (map print_json vs) = c # u" "\<not> is_space c" "c \<noteq> CHR '']''" by auto
  with raw_elems_print [OF wf False, of _ "[]"] show ?thesis by (simp add: raw_array_def del: raw_elems.simps)
qed (simp add: raw_array_def)

lemma unmarshal_raw_struct_print:
  assumes "wf_json (JObj ms)"
  shows "unmarshal_raw_struct fs (print_json (JObj ms)) r = decode_members fs (map (\<lambda>(k, v). (k, print_json v, v)) ms) r"
  by (simp add: unmarshal_raw_struct_def json_parse_print [OF assms] raw_object_print [OF assms] del: print_json.simps)

end
