(* ===== verification/Scdo_Hex.thy ===== *)
theory Scdo_Hex
  imports Go_Json
begin

text \<open>
  \<open>go/scdo/hex.go\<close>: \<open>HexBig\<close>, a \<open>big.Int\<close> that is written as a hexadecimal JSON string, over the
  scanner of \<open>big.Int.SetString\<close> (with its base prefixes and digit separators for base 0) and the
  format verb \<open>%x\<close>. Every value survives the round trip, also negative ones; a JSON number is
  read as if its decimal digits were hexadecimal.
\<close>

section \<open>big.Int: SetString and format verbs\<close>

text \<open>The value of a digit in a base up to 36; anything else is larger than every base.\<close>

definition digit_value :: "char \<Rightarrow> nat" where
  "digit_value c =
     (let v = of_char c :: nat in
      if 48 \<le> v \<and> v \<le> 57 then v - 48
      else if 97 \<le> v \<and> v \<le> 122 then v - 87
      else if 65 \<le> v \<and> v \<le> 90 then v - 55
      else 63)"

text \<open>
  The digits of a number in base \<open>b\<close>; \<open>sep\<close> allows underscores between digits (base 0 only).
  \<open>prev\<close> is the class of the previous character, \<open>inval\<close> records a misplaced underscore. The
  result is the value, the number of digits, whether an underscore is misplaced and the unread text.
\<close>

fun scan_loop :: "nat \<Rightarrow> bool \<Rightarrow> string \<Rightarrow> char \<Rightarrow> bool \<Rightarrow> nat \<Rightarrow> nat \<Rightarrow> nat \<times> nat \<times> bool \<times> string" where
  "scan_loop b sep [] prev inval cnt z = (z, cnt, inval \<or> prev = CHR ''_'', [])"
| "scan_loop b sep (ch # s) prev inval cnt z =
     (if ch = CHR ''_'' \<and> sep then scan_loop b sep s (CHR ''_'') (inval \<or> prev \<noteq> CHR ''0'') cnt z
      else if b \<le> digit_value ch then (z, cnt, inval \<or> prev = CHR ''_'', ch # s)
      else scan_loop b sep s (CHR ''0'') inval (Suc cnt) (z * b + digit_value ch))"

text \<open>
  The base, the prefix, \<open>prev\<close>, the number of digits so far and the text after the prefix. Base 0
  takes the base from the prefix, ten without one.
\<close>

definition scan_prefix :: "nat \<Rightarrow> string \<Rightarrow> nat \<times> char option \<times> char \<times> nat \<times> string" where
  "scan_prefix base s =
     (if base \<noteq> 0 then (base, None, CHR ''.'', 0, s)
      else case s of
        [] \<Rightarrow> (10, None, CHR ''.'', 0, [])
      | c # r \<Rightarrow>
          if c \<noteq> CHR ''0'' then (10, None, CHR ''.'', 0, s)
          else case r of
            [] \<Rightarrow> (10, None, CHR ''0'', 1, [])
          | d # r' \<Rightarrow>
              if d = CHR ''b'' \<or> d = CHR ''B'' then (2, Some (CHR ''b''), CHR ''0'', 0, r')
              else if d = CHR ''o'' \<or> d = CHR ''O'' then (8, Some (CHR ''o''), CHR ''0'', 0, r')
              else if d = CHR ''x'' \<or> d = CHR ''X'' then (16, Some (CHR ''x''), CHR ''0'', 0, r')
              else (8, Some (CHR ''0''), CHR ''0'', 0, r))"

definition nat_scan :: "nat \<Rightarrow> string \<Rightarrow> (nat \<times> string) option" where
  "nat_scan base s =
     (let (b, prefix, prev, cnt, r) = scan_prefix base s;
          (z, cnt, inval, rest) = scan_loop b (base = 0) r prev False cnt 0
      in if inval then None
         else if cnt = 0 then (if prefix = Some (CHR ''0'') then Some (0, rest) else None)
         else Some (z, rest))"

text \<open>\<open>new(big.Int).SetString(s, base)\<close>: the whole text must be a number.\<close>

definition big_SetString :: "string \<Rightarrow> nat \<Rightarrow> int option" where
  "big_SetString s base =
     (case s of
        [] \<Rightarrow> None
      | c # r \<Rightarrow>
          (case nat_scan base (if c = CHR ''-'' \<or> c = CHR ''+'' then r else s) of
             Some (z, []) \<Rightarrow> Some (if c = CHR ''-'' then - int z else int z)
           | _ \<Rightarrow> None))"

text \<open>The format verb \<open>%x\<close> of a big integer.\<close>

fun format_hex :: "nat \<Rightarrow> string" where
  "format_hex n = (if n < 16 then [hex_char n] else format_hex (n div 16) @ [hex_char (n mod 16)])"

declare format_hex.simps [simp del]

definition big_hex :: "int \<Rightarrow> string" where
  "big_hex z = (if z < 0 then CHR ''-'' # format_hex (nat (- z)) else format_hex (nat z))"

text \<open>\<open>big.Int.String\<close>.\<close>

definition format_int :: "int \<Rightarrow> string" where
  "format_int z = (if z < 0 then CHR ''-'' # format_nat (nat (- z)) else format_nat (nat z))"

section \<open>HexBig\<close>

definition HexBig_UnmarshalJSON :: "string \<Rightarrow> int go_result" where
  "HexBig_UnmarshalJSON data =
     (let s = Trim data quote_char;
          s = TrimPrefix s ''0x'';
          s = TrimPrefix s ''0X''
      in if s = [] \<or> s = ''null'' then Inr 0
         else case big_SetString s 16 of
                None \<Rightarrow> Inl (Err_New (''invalid hex big int: '' @ data))
              | Some n \<Rightarrow> Inr n)"

definition HexBig_MarshalJSON :: "int \<Rightarrow> string" where
  "HexBig_MarshalJSON h = print_json (JStr (''0x'' @ big_hex h))"

section \<open>Lemmas\<close>

lemma of_char_hex_char: "d < 16 \<Longrightarrow> (of_char (hex_char d) :: nat) = (if d < 10 then 48 + d else 87 + d)"
  by (simp add: hex_char_def)

lemma hex_ascii: "\<forall>c \<in> set (hex_EncodeToString bs). code c < 128"
proof -
  have d: "code (hex_char d) < 128" if "d < 16" for d using that by (simp add: of_char_hex_char)
  have "unat b div 16 < 16" for b :: byte using unat_byte_less [of b] by (simp add: less_mult_imp_div_less)
  then show ?thesis by (induction bs) (simp_all add: d)
qed

lemma digit_value_hex_char [simp]: "d < 16 \<Longrightarrow> digit_value (hex_char d) = d"
  by (simp add: digit_value_def Let_def of_char_hex_char)

lemma digit_value_digit: "is_digit c \<Longrightarrow> digit_value c = digit_val c \<and> digit_value c < 10"
  by (auto simp: is_digit_def digit_value_def digit_val_def Let_def)

lemma not_underscore: "digit_value c < b \<Longrightarrow> b \<le> 63 \<Longrightarrow> c \<noteq> CHR ''_''"
  by (auto simp: digit_value_def)

text \<open>A text of digits is read to its end; its value is a fold.\<close>

definition digits_value :: "nat \<Rightarrow> nat \<Rightarrow> string \<Rightarrow> nat" where
  "digits_value b z s = fold (\<lambda>c z. z * b + digit_value c) s z"

lemma scan_loop_digits:
  assumes "\<forall>c \<in> set s. digit_value c < b" and "b \<le> 63" and "prev \<noteq> CHR ''_'' \<or> s \<noteq> []"
  shows "scan_loop b sep s prev False cnt z = (digits_value b z s, cnt + length s, False, [])"
  using assms
proof (induction s arbitrary: prev cnt z)
  case (Cons c s)
  then show ?case using not_underscore [of c b] by (simp add: digits_value_def)
qed (simp add: digits_value_def)

lemma digits_value_append: "digits_value b z (s @ t) = digits_value b (digits_value b z s) t"
  by (simp add: digits_value_def)

lemma format_hex_nonempty [simp]: "format_hex n \<noteq> []"
  by (subst format_hex.simps) simp

definition lower_hex :: "char \<Rightarrow> bool" where
  "lower_hex c \<longleftrightarrow> 48 \<le> code c \<and> code c \<le> 57 \<or> 97 \<le> code c \<and> code c \<le> 102"

lemma lower_hex_hex_char: "d < 16 \<Longrightarrow> lower_hex (hex_char d)"
  by (simp add: lower_hex_def of_char_hex_char)

lemma digit_value_lower_hex: "lower_hex c \<Longrightarrow> digit_value c < 16"
  by (auto simp: lower_hex_def digit_value_def Let_def)

lemma format_hex_digits: "c \<in> set (format_hex n) \<Longrightarrow> lower_hex c"
proof (induction n rule: format_hex.induct)
  case (1 n)
  then show ?case by (cases "n < 16") (auto simp: format_hex.simps [of n] lower_hex_hex_char)
qed

lemma digits_value_format_hex: "digits_value 16 0 (format_hex n) = n"
proof (induction n rule: format_hex.induct)
  case (1 n)
  show ?case
  proof (cases "n < 16")
    case True
    then show ?thesis by (simp add: format_hex.simps [of n] digits_value_def)
  next
    case False
    with 1 have "digits_value 16 0 (format_hex (n div 16)) = n div 16" by simp
    with False show ?thesis
      by (simp add: format_hex.simps [of n] digits_value_append) (simp add: digits_value_def)
  qed
qed

lemma nat_scan_hex: "nat_scan 16 (format_hex n) = Some (n, [])"
proof -
  have "\<forall>c \<in> set (format_hex n). digit_value c < 16" using format_hex_digits digit_value_lower_hex by blast
  from scan_loop_digits [OF this, of "CHR ''.''" False 0 0] show ?thesis
    by (simp add: nat_scan_def scan_prefix_def digits_value_format_hex)
qed

lemma format_hex_head: "format_hex n = c # s \<Longrightarrow> c \<noteq> CHR ''-'' \<and> c \<noteq> CHR ''+''"
  using format_hex_digits [of c n] by (auto simp: lower_hex_def)

lemma SetString_big_hex: "big_SetString (big_hex z) 16 = Some z"
proof (cases "z < 0")
  case True
  then show ?thesis by (simp add: big_SetString_def big_hex_def nat_scan_hex)
next
  case False
  obtain c s where "format_hex (nat z) = c # s" by (cases "format_hex (nat z)") auto
  with format_hex_head [OF this] nat_scan_hex [of "nat z"] False show ?thesis
    by (simp add: big_SetString_def big_hex_def)
qed

lemma plain_lower_hex: "lower_hex c \<Longrightarrow> plain_char c"
  by (auto simp: lower_hex_def plain_char_def)

lemma big_hex_chars: "c \<in> set (big_hex z) \<Longrightarrow> c = CHR ''-'' \<or> lower_hex c"
  using format_hex_digits by (auto simp: big_hex_def split: if_splits)

lemma plain_big_hex: "\<forall>c \<in> set (big_hex z). plain_char c"
proof
  fix c assume "c \<in> set (big_hex z)"
  then consider "c = CHR ''-''" | "lower_hex c" using big_hex_chars by blast
  then show "plain_char c" by cases (simp add: plain_char_def, rule plain_lower_hex)
qed

lemma big_hex_nonempty [simp]: "big_hex z \<noteq> []"
  by (simp add: big_hex_def)

lemma HexBig_MarshalJSON_text: "HexBig_MarshalJSON z = quote_char # (''0x'' @ big_hex z) @ [quote_char]"
proof -
  have "\<forall>c \<in> set (''0x'' @ big_hex z). plain_char c"
    using plain_big_hex [of z] by (auto simp: plain_char_def)
  then show ?thesis by (simp only: HexBig_MarshalJSON_def print_json.simps quote_def quote_chars_plain)
qed

lemma big_hex_no_prefix: "TrimPrefix (big_hex z) ''0X'' = big_hex z"
proof -
  have "CHR ''X'' \<notin> set (big_hex z)"
    using big_hex_chars [of "CHR ''X''" z] by (auto simp: lower_hex_def)
  then have "take (length ''0X'') (big_hex z) \<noteq> ''0X''" by (metis in_set_takeD list.set_intros(1,2))
  then show ?thesis by (simp only: TrimPrefix_def if_False)
qed

lemma big_hex_not_null: "big_hex z \<noteq> ''null''"
proof
  assume "big_hex z = ''null''"
  then have "CHR ''n'' \<in> set (big_hex z)" by simp
  then show False using big_hex_chars [of "CHR ''n''" z] by (auto simp: lower_hex_def)
qed

lemma last_in_plain: "\<forall>c \<in> set s. plain_char c \<Longrightarrow> s \<noteq> [] \<Longrightarrow> last s \<noteq> quote_char"
  using last_in_set [of s] by (auto simp: plain_char_def)

lemma Trim_Marshal: "Trim (HexBig_MarshalJSON z) quote_char = ''0x'' @ big_hex z"
  unfolding HexBig_MarshalJSON_text
  by (rule Trim_quoted) (use last_in_plain [OF plain_big_hex [of z]] in simp_all)

lemma HexBig_text_roundtrip: "HexBig_UnmarshalJSON (HexBig_MarshalJSON z) = Inr z"
  by (simp add: HexBig_UnmarshalJSON_def Let_def Trim_Marshal TrimPrefix_append [of "''0x''", simplified]
      big_hex_no_prefix big_hex_not_null SetString_big_hex)

lemma digits_value_format_nat: "n \<le> digits_value 16 0 (format_nat n) \<and> (10 \<le> n \<longrightarrow> n < digits_value 16 0 (format_nat n))"
proof (induction n rule: format_nat.induct)
  case (1 n)
  have digit: "digit_value (digit_char d) = d" if "d < 10" for d
    using that digit_value_digit [of "digit_char d"] by simp
  show ?case
  proof (cases "n < 10")
    case True
    then show ?thesis by (simp add: format_nat.simps [of n] digits_value_def digit)
  next
    case False
    with 1 have "n div 10 \<le> digits_value 16 0 (format_nat (n div 10))" by simp
    moreover have "digits_value 16 0 (format_nat n) = digits_value 16 0 (format_nat (n div 10)) * 16 + n mod 10"
      using False by (simp add: format_nat.simps [of n] digits_value_append) (simp add: digits_value_def digit)
    moreover have "n = n div 10 * 10 + n mod 10" "0 < n div 10" using False by simp_all
    ultimately show ?thesis by linarith
  qed
qed

lemma Trim_absent:
  assumes "c \<notin> set s"
  shows "Trim s c = s"
proof -
  have "dropWhile (\<lambda>x. x = c) t = t" if "c \<notin> set t" for t using that by (cases t) auto
  from this [of s] this [of "rev s"] assms show ?thesis by (simp add: Trim_def)
qed

lemma TrimPrefix_absent: "c \<in> set pre \<Longrightarrow> c \<notin> set s \<Longrightarrow> TrimPrefix s pre = s"
  by (auto simp: TrimPrefix_def) (metis in_set_takeD)

lemma nat_scan_decimal_digits: "\<forall>c \<in> set s. is_digit c \<Longrightarrow> s \<noteq> [] \<Longrightarrow> nat_scan 16 s = Some (digits_value 16 0 s, [])"
  using scan_loop_digits [of s 16 "CHR ''.''" False 0 0] digit_value_digit
  by (force simp: nat_scan_def scan_prefix_def)

section \<open>Properties\<close>

text \<open>
  \<open>HexBig\<close> survives its JSON form: unmarshalling what \<open>MarshalJSON\<close> writes gives the same integer,
  of any size and sign.
\<close>

theorem HexBig_roundtrip: "HexBig_UnmarshalJSON (HexBig_MarshalJSON z) = Inr z"
  by (rule HexBig_text_roundtrip)

text \<open>
  A JSON number is accepted and its decimal digits are read as hexadecimal ones: every number
  from ten on comes out larger than it is.
\<close>

theorem HexBig_number_misread:
  assumes "10 \<le> n"
  shows "\<exists>m. HexBig_UnmarshalJSON (format_nat n) = Inr (int m) \<and> n < m"
proof -
  let ?s = "format_nat n"
  have d: "\<forall>c \<in> set ?s. is_digit c" using format_nat_digits by blast
  then have no: "quote_char \<notin> set ?s" "CHR ''x'' \<notin> set ?s" "CHR ''X'' \<notin> set ?s" "CHR ''n'' \<notin> set ?s"
    by (auto simp: is_digit_def)
  have hd: "hd ?s \<noteq> CHR ''-''" "hd ?s \<noteq> CHR ''+''"
    using bspec [OF d hd_in_set [OF format_nat_nonempty]] by (auto simp: is_digit_def)
  have "?s \<noteq> ''null''" using no(4) by (metis list.set_intros(1))
  moreover have "big_SetString ?s 16 = Some (int (digits_value 16 0 ?s))"
    using hd nat_scan_decimal_digits [OF d] by (cases ?s) (simp_all add: big_SetString_def)
  ultimately have "HexBig_UnmarshalJSON ?s = Inr (int (digits_value 16 0 ?s))"
    using no(1-3) by (simp add: HexBig_UnmarshalJSON_def Let_def Trim_absent TrimPrefix_absent [of "CHR ''x''"]
        TrimPrefix_absent [of "CHR ''X''"])
  with digits_value_format_nat [of n] assms show ?thesis by blast
qed

theorem HexBig_number_misread_witness:
  "\<exists>m. HexBig_UnmarshalJSON (format_nat 100) = Inr (int m) \<and> 100 < m"
  by (rule HexBig_number_misread) simp

end
