(* ===== verification/Scdo_Client.thy ===== *)
theory Scdo_Client
  imports Json_Raw Scdo_Hex
begin

text \<open>
  The SCDO client: the JSON-RPC transport (\<open>go/scdo/jsonrpc.go\<close>), the queries and receipts of
  \<open>client.go\<close>, transactions (\<open>tx.go\<close>) and the address and signature helpers (\<open>wallet.go\<close>). HTTP is outside the
  program: \<open>http_Do\<close> gives the body of the response to a POST, or the error of building the request,
  sending it or reading the answer. Key handling is go-ethereum's: the address of a key is a
  parameter.
\<close>

section \<open>JSON-RPC\<close>

record 'e Http =
  http_Do :: "string \<Rightarrow> string \<Rightarrow> 'e \<Rightarrow> string go_result \<times> 'e"

record jsonRPC =
  jr_url :: string

definition newJSONRPC :: "string \<Rightarrow> jsonRPC" where
  "newJSONRPC url = \<lparr>jr_url = url\<rparr>"

text \<open>
  The request as it is sent. A call without parameters has a nil slice, which is written as
  \<open>null\<close>.
\<close>

definition rpcRequest :: "string \<Rightarrow> json list \<Rightarrow> json" where
  "rpcRequest meth params = JObj
     [(''jsonrpc'', JStr ''2.0''), (''method'', JStr meth),
      (''params'', if params = [] then JNull else JArr params), (''id'', JNum ''1'')]"

record rpcError =
  re_Code :: int
  re_Message :: string

record rpcResponse =
  rsp_JSONRPC :: string
  rsp_Result :: string
  rsp_Error :: "rpcError option"
  rsp_ID :: int

text \<open>\<open>strconv.ParseInt(s, 10, 64)\<close> on the text of a JSON number.\<close>

definition ParseInt :: "string \<Rightarrow> int go_result" where
  "ParseInt s =
     (let neg = (s \<noteq> [] \<and> hd s = CHR ''-'') in
      case ParseUint (if neg then tl s else s) of
        Inl err \<Rightarrow> Inl err
      | Inr n \<Rightarrow>
          if (if neg then 2 ^ 63 < unat n else 2 ^ 63 \<le> unat n) then Inl Strconv_ErrRange
          else Inr (if neg then - int (unat n) else int (unat n)))"

definition decode_int :: "json \<Rightarrow> int \<Rightarrow> int go_result" where
  "decode_int v old =
     (case v of
        JNull \<Rightarrow> Inr old
      | JNum s \<Rightarrow> (case ParseInt s of Inr n \<Rightarrow> Inr n | Inl _ \<Rightarrow> Inl json_TypeError)
      | _ \<Rightarrow> Inl json_TypeError)"

definition error_fields :: "(json, rpcError) fields" where
  "error_fields =
     [(''code'', set_field decode_int re_Code (\<lambda>x r. r\<lparr>re_Code := x\<rparr>)),
      (''message'', set_field decode_string re_Message (\<lambda>x r. r\<lparr>re_Message := x\<rparr>))]"

text \<open>A pointer to a struct: \<open>null\<close> makes it nil, an object is decoded into the struct it points to.\<close>

definition decode_error :: "json \<Rightarrow> rpcError option \<Rightarrow> rpcError option go_result" where
  "decode_error v old =
     (case v of
        JNull \<Rightarrow> Inr None
      | _ \<Rightarrow>
          (case decode_struct error_fields v (case old of None \<Rightarrow> \<lparr>re_Code = 0, re_Message = []\<rparr> | Some x \<Rightarrow> x) of
             Inl err \<Rightarrow> Inl err
           | Inr x \<Rightarrow> Inr (Some x)))"

text \<open>\<open>on_tree\<close> decodes the tree of a member; a \<open>RawMessage\<close> keeps its text, \<open>null\<close> included.\<close>

definition on_tree :: "(json \<Rightarrow> 'a \<Rightarrow> 'a go_result) \<Rightarrow> raw_json \<Rightarrow> 'a \<Rightarrow> 'a go_result" where
  "on_tree dec = (\<lambda>(raw, v) old. dec v old)"

definition decode_RawMessage :: "raw_json \<Rightarrow> string \<Rightarrow> string go_result" where
  "decode_RawMessage = (\<lambda>(raw, v) old. Inr raw)"

definition response_fields :: "(raw_json, rpcResponse) fields" where
  "response_fields =
     [(''jsonrpc'', set_field decode_RawMessage rsp_JSONRPC (\<lambda>x r. r\<lparr>rsp_JSONRPC := x\<rparr>)),
      (''result'', set_field decode_RawMessage rsp_Result (\<lambda>x r. r\<lparr>rsp_Result := x\<rparr>)),
      (''error'', set_field (on_tree decode_error) rsp_Error (\<lambda>x r. r\<lparr>rsp_Error := x\<rparr>)),
      (''id'', set_field (on_tree decode_int) rsp_ID (\<lambda>x r. r\<lparr>rsp_ID := x\<rparr>))]"

definition zero_response :: rpcResponse where
  "zero_response = \<lparr>rsp_JSONRPC = [], rsp_Result = [], rsp_Error = None, rsp_ID = 0\<rparr>"

text \<open>
  \<open>callContext\<close> with a non-nil result: \<open>dec\<close> unmarshals into it, \<open>old\<close> is the value it has before
  the call.
\<close>

definition callContext ::
  "'e Http \<Rightarrow> jsonRPC \<Rightarrow> (string \<Rightarrow> 'a go_result) \<Rightarrow> 'a \<Rightarrow> string \<Rightarrow> json list \<Rightarrow> 'e \<Rightarrow> 'a go_result \<times> 'e" where
  "callContext http r dec old meth params e =
     (let buf = print_json (rpcRequest meth params) in
      case http_Do http (jr_url r) buf e of
        (Inl err, e) \<Rightarrow> (Inl err, e)
      | (Inr body, e) \<Rightarrow>
          (case unmarshal_raw_struct response_fields body zero_response of
             Inl err \<Rightarrow> (Inl (Err_Wrap ''decode response: '' err ('', body: '' @ body)), e)
           | Inr rpcResp \<Rightarrow>
               (case rsp_Error rpcResp of
                  Some er \<Rightarrow>
                    (Inl (Err_New (''RPC error '' @ format_int (re_Code er) @ '': '' @ re_Message er)), e)
                | None \<Rightarrow>
                    if length (rsp_Result rpcResp) = 0 \<or> rsp_Result rpcResp = ''null'' then (Inr old, e)
                    else
                      (case dec (rsp_Result rpcResp) of
                         Inl err \<Rightarrow>
                           (Inl (Err_Wrap ''unmarshal result: '' err ('', raw: '' @ rsp_Result rpcResp)), e)
                       | Inr x \<Rightarrow> (Inr x, e)))))"

section \<open>Queries\<close>

record Client =
  cl_rpcURL :: string
  cl_http :: jsonRPC

definition Dial :: "string \<Rightarrow> Client go_result" where
  "Dial rpcURL = Inr \<lparr>cl_rpcURL = rpcURL, cl_http = newJSONRPC rpcURL\<rparr>"

definition BlockHeight :: "'e Http \<Rightarrow> Client \<Rightarrow> 'e \<Rightarrow> u64 go_result \<times> 'e" where
  "BlockHeight http c e =
     callContext http (cl_http c) (json_Unmarshal (\<lambda>v. decode_uint64 v 0)) 0 ''scdo_getBlockHeight'' [] e"

text \<open>A height is a Go \<open>int64\<close>.\<close>

definition Balance :: "'e Http \<Rightarrow> Client \<Rightarrow> string \<Rightarrow> int \<Rightarrow> 'e \<Rightarrow> int go_result \<times> 'e" where
  "Balance http c addr height e =
     (case callContext http (cl_http c) (json_Unmarshal (\<lambda>v. decode_string v [])) [] ''scdo_getBalance''
             [JStr addr, JStr [], JNum (format_int height)] e of
        (Inl err, e) \<Rightarrow> (Inl err, e)
      | (Inr hexBalance, e) \<Rightarrow>
          (case big_SetString hexBalance 0 of
             None \<Rightarrow> (Inl (Err_New (''invalid balance hex: '' @ hexBalance)), e)
           | Some balance \<Rightarrow> (Inr balance, e)))"

definition Nonce :: "'e Http \<Rightarrow> Client \<Rightarrow> string \<Rightarrow> int \<Rightarrow> 'e \<Rightarrow> u64 go_result \<times> 'e" where
  "Nonce http c addr height e =
     callContext http (cl_http c) (json_Unmarshal (\<lambda>v. decode_uint64 v 0)) 0 ''scdo_getAccountNonce''
       [JStr addr, JStr [], JNum (format_int height)] e"

record Receipt =
  rc_TxHash :: string
  rc_ContractAddress :: string
  rc_Failed :: bool
  rc_UsedGas :: u64
  rc_PostState :: string
  rc_Result :: string
  rc_TotalFee :: "int option"
  rc_Logs :: "string list"

definition zero_Receipt :: Receipt where
  "zero_Receipt = \<lparr>rc_TxHash = [], rc_ContractAddress = [], rc_Failed = False, rc_UsedGas = 0, rc_PostState = [],
     rc_Result = [], rc_TotalFee = None, rc_Logs = []\<rparr>"

definition decode_HexBig :: "raw_json \<Rightarrow> int option \<Rightarrow> int option go_result" where
  "decode_HexBig = (\<lambda>(raw, v) old.
     case v of
       JNull \<Rightarrow> Inr None
     | _ \<Rightarrow> (case HexBig_UnmarshalJSON raw of Inl err \<Rightarrow> Inl err | Inr z \<Rightarrow> Inr (Some z)))"

definition decode_RawMessages :: "raw_json \<Rightarrow> string list \<Rightarrow> string list go_result" where
  "decode_RawMessages = (\<lambda>(raw, v) old.
     case v of
       JNull \<Rightarrow> Inr []
     | JArr _ \<Rightarrow> (case raw_array raw of None \<Rightarrow> Inl json_SyntaxError | Some raws \<Rightarrow> Inr (map fst raws))
     | _ \<Rightarrow> Inl json_TypeError)"

definition receipt_fields :: "(raw_json, Receipt) fields" where
  "receipt_fields =
     [(''txhash'', set_field (on_tree decode_string) rc_TxHash (\<lambda>x r. r\<lparr>rc_TxHash := x\<rparr>)),
      (''contract'', set_field (on_tree decode_string) rc_ContractAddress (\<lambda>x r. r\<lparr>rc_ContractAddress := x\<rparr>)),
      (''failed'', set_field (on_tree decode_bool) rc_Failed (\<lambda>x r. r\<lparr>rc_Failed := x\<rparr>)),
      (''usedGas'', set_field (on_tree decode_uint64) rc_UsedGas (\<lambda>x r. r\<lparr>rc_UsedGas := x\<rparr>)),
      (''poststate'', set_field (on_tree decode_string) rc_PostState (\<lambda>x r. r\<lparr>rc_PostState := x\<rparr>)),
      (''result'', set_field (on_tree decode_string) rc_Result (\<lambda>x r. r\<lparr>rc_Result := x\<rparr>)),
      (''totalFee'', set_field decode_HexBig rc_TotalFee (\<lambda>x r. r\<lparr>rc_TotalFee := x\<rparr>)),
      (''logs'', set_field decode_RawMessages rc_Logs (\<lambda>x r. r\<lparr>rc_Logs := x\<rparr>))]"

text \<open>\<open>strings.Contains\<close>.\<close>

fun strings_Contains :: "string \<Rightarrow> string \<Rightarrow> bool" where
  "strings_Contains [] w = (w = [])"
| "strings_Contains (c # s) w = (take (length w) (c # s) = w \<or> strings_Contains s w)"

definition GetReceipt :: "'e Http \<Rightarrow> Client \<Rightarrow> string \<Rightarrow> 'e \<Rightarrow> Receipt option go_result \<times> 'e" where
  "GetReceipt http c txHash e =
     (case callContext http (cl_http c) (\<lambda>raw. unmarshal_raw_struct receipt_fields raw zero_Receipt) zero_Receipt
             ''scdo_getReceiptByTxHash'' [JStr txHash, JStr []] e of
        (Inl err, e) \<Rightarrow>
          if strings_Contains (error_msg err) ''leveldb: not found'' then (Inr None, e) else (Inl err, e)
      | (Inr r, e) \<Rightarrow>
          if rc_TxHash r = [] \<and> rc_ContractAddress r = [] \<and> rc_UsedGas r = 0 then (Inr None, e)
          else (Inr (Some r), e))"

section \<open>Transactions\<close>

record Tx =
  tx_To :: string
  tx_Amount :: "int option"
  tx_GasPrice :: "int option"
  tx_GasLimit :: u64
  tx_Payload :: bytes
  tx_Nonce :: u64

text \<open>\<open>(*big.Int).String\<close>; a nil pointer prints as \<open><nil>\<close>.\<close>

definition big_String :: "int option \<Rightarrow> string" where
  "big_String z = (case z of None \<Rightarrow> ''<nil>'' | Some z \<Rightarrow> format_int z)"

text \<open>\<open>int64(height)\<close>.\<close>

definition int64_of :: "u64 \<Rightarrow> int" where
  "int64_of h = sint h"

text \<open>\<open>addr\<close> is go-ethereum's \<open>crypto.PubkeyToAddress(pub).Hex()\<close>.\<close>

definition PubkeyToAddress :: "('k \<Rightarrow> string) \<Rightarrow> 'k \<Rightarrow> string go_result" where
  "PubkeyToAddress addr key = Inr (addr key)"

definition HexToECDSA :: "(string \<Rightarrow> 'k go_result) \<Rightarrow> string \<Rightarrow> 'k go_result" where
  "HexToECDSA crypto_HexToECDSA hexkey = crypto_HexToECDSA hexkey"

text \<open>The transaction object without its signature; \<open>AccountNonce\<close> is looked up by the signer.\<close>

type_synonym txObj = "(string \<times> json) list"

definition SignTransaction :: "'k \<Rightarrow> u64 \<Rightarrow> json go_result" where
  "SignTransaction privKey accountNonce = Inr (JObj
     [(''message'', JStr (''sign tx nonce='' @ FormatUint accountNonce)), (''method'', JStr ''placeholder'')])"

text \<open>A Go map is written with its keys in order.\<close>

definition tx_json :: "string \<Rightarrow> Tx \<Rightarrow> json \<Rightarrow> json" where
  "tx_json fromAddr tx sig = JObj
     [(''AccountNonce'', JNum (FormatUint (tx_Nonce tx))), (''Amount'', JStr (big_String (tx_Amount tx))),
      (''From'', JStr fromAddr), (''GasLimit'', JNum (FormatUint (tx_GasLimit tx))),
      (''GasPrice'', JStr (big_String (tx_GasPrice tx))),
      (''Payload'', JStr (''0x'' @ hex_EncodeToString (tx_Payload tx))),
      (''Signature'', sig), (''To'', JStr (tx_To tx)), (''Type'', JNum ''0'')]"

text \<open>From the signature on.\<close>

definition addTx :: "'e Http \<Rightarrow> Client \<Rightarrow> string \<Rightarrow> Tx \<Rightarrow> 'k \<Rightarrow> 'e \<Rightarrow> string go_result \<times> 'e" where
  "addTx http c fromAddr tx privKey e =
     (case SignTransaction privKey (tx_Nonce tx) of
        Inl err \<Rightarrow> (Inl (Err_Wrap ''sign tx: '' err []), e)
      | Inr sig \<Rightarrow>
          (case callContext http (cl_http c) (json_Unmarshal (\<lambda>v. decode_bool v False)) False ''scdo_addTx''
                  [tx_json fromAddr tx sig] e of
             (Inl err, e) \<Rightarrow> (Inl (Err_Wrap ''addTx: '' err []), e)
           | (Inr ok, e) \<Rightarrow>
               if \<not> ok then (Inl (Err_New ''addTx returned false''), e) else (Inr [], e)))"

definition SendTx :: "'e Http \<Rightarrow> ('k \<Rightarrow> string) \<Rightarrow> Client \<Rightarrow> Tx \<Rightarrow> 'k \<Rightarrow> 'e \<Rightarrow> string go_result \<times> 'e" where
  "SendTx http addr c tx privKey e =
     (case PubkeyToAddress addr privKey of
        Inl err \<Rightarrow> (Inl (Err_Wrap ''derive address: '' err []), e)
      | Inr fromAddr \<Rightarrow>
          if tx_Nonce tx = 0 then
            (case BlockHeight http c e of
               (Inl err, e) \<Rightarrow> (Inl (Err_Wrap ''get height: '' err []), e)
             | (Inr height, e) \<Rightarrow>
                 (case Nonce http c fromAddr (int64_of height) e of
                    (Inl err, e) \<Rightarrow> (Inl (Err_Wrap ''get nonce: '' err []), e)
                  | (Inr nonce, e) \<Rightarrow> addTx http c fromAddr (tx\<lparr>tx_Nonce := nonce\<rparr>) privKey e))
          else addTx http c fromAddr tx privKey e)"

definition DeployContract ::
  "'e Http \<Rightarrow> ('k \<Rightarrow> string) \<Rightarrow> Client \<Rightarrow> bytes \<Rightarrow> u64 \<Rightarrow> 'k \<Rightarrow> 'e \<Rightarrow> string go_result \<times> 'e" where
  "DeployContract http addr c bytecode gasLimit privKey e =
     (let gasLimit = (if gasLimit = 0 then 200000 else gasLimit) in
      SendTx http addr c
        \<lparr>tx_To = [], tx_Amount = Some 0, tx_GasPrice = Some 1, tx_GasLimit = gasLimit, tx_Payload = bytecode,
         tx_Nonce = 0\<rparr> privKey e)"

section \<open>Answers of a node\<close>

definition result_json :: "json \<Rightarrow> json" where
  "result_json v = JObj [(''jsonrpc'', JStr ''2.0''), (''result'', v), (''id'', JNum ''1'')]"

definition error_json :: "int \<Rightarrow> string \<Rightarrow> json" where
  "error_json cd msg = JObj [(''jsonrpc'', JStr ''2.0''),
     (''error'', JObj [(''code'', JNum (format_int cd)), (''message'', JStr msg)]), (''id'', JNum ''1'')]"

text \<open>A server that follows a script and keeps the bodies it was sent.\<close>

type_synonym wire = "string go_result list \<times> string list"

definition scripted :: "wire Http" where
  "scripted = \<lparr>http_Do = (\<lambda>url body (answers, sent).
     case answers of
       [] \<Rightarrow> (Inl (Err_New ''connection refused''), [], sent @ [body])
     | a # answers \<Rightarrow> (a, answers, sent @ [body]))\<rparr>"

abbreviation ok_body :: "json \<Rightarrow> string go_result" where
  "ok_body v \<equiv> Inr (print_json (result_json v))"

abbreviation request :: "string \<Rightarrow> json list \<Rightarrow> string" where
  "request meth params \<equiv> print_json (rpcRequest meth params)"

lemma ascii_names [simp]:
  "valid_utf8 ''jsonrpc''" "valid_utf8 ''2.0''" "valid_utf8 ''result''" "valid_utf8 ''id''" "valid_utf8 ''error''"
  "valid_utf8 ''code''" "valid_utf8 ''message''"
  by (rule valid_utf8_ascii, simp)+

lemma plain_number_one [simp]: "plain_number ''1''"
  by (simp add: plain_number_def is_digit_def)

lemma wf_result_json [simp]: "wf_json (result_json v) = wf_json v"
  by (simp add: result_json_def)

lemma ParseUint_format_nat: "n \<le> MaxUint64 \<Longrightarrow> \<exists>w. ParseUint (format_nat n) = Inr w \<and> unat w = n"
  by (simp add: ParseUint_def parse_digits_format_nat MaxUint64_def unat_of_nat)

lemma ParseInt_format_int:
  assumes "- (2 ^ 63) \<le> z" and "z < 2 ^ 63"
  shows "ParseInt (format_int z) = Inr z"
proof (cases "z < 0")
  case True
  have "nat (- z) \<le> MaxUint64" using assms by (simp add: MaxUint64_def nat_le_iff)
  then obtain w where "ParseUint (format_nat (nat (- z))) = Inr w" "unat w = nat (- z)"
    using ParseUint_format_nat by blast
  with True assms show ?thesis by (simp add: ParseInt_def format_int_def)
next
  case False
  have "hd (format_nat (nat z)) \<noteq> CHR ''-''"
    using format_nat_digits [OF hd_in_set [OF format_nat_nonempty]] digit_not_special by blast
  moreover have "nat z \<le> MaxUint64" using assms by (simp add: MaxUint64_def nat_le_iff)
  then obtain w where "ParseUint (format_nat (nat z)) = Inr w" "unat w = nat z"
    using ParseUint_format_nat by blast
  ultimately show ?thesis using False assms by (simp add: ParseInt_def format_int_def)
qed

lemma format_int_one: "format_int 1 = ''1''"
  by code_simp

lemma ParseInt_one [simp]: "ParseInt ''1'' = Inr 1"
  using ParseInt_format_int [of 1] by (simp add: format_int_one)

lemma unmarshal_result:
  assumes "wf_json v"
  shows "unmarshal_raw_struct response_fields (print_json (result_json v)) zero_response
    = Inr \<lparr>rsp_JSONRPC = print_json (JStr ''2.0''), rsp_Result = print_json v, rsp_Error = None, rsp_ID = 1\<rparr>"
proof -
  have "unmarshal_raw_struct response_fields (print_json (result_json v)) zero_response
      = decode_members response_fields [(''jsonrpc'', print_json (JStr ''2.0''), JStr ''2.0''),
          (''result'', print_json v, v), (''id'', print_json (JNum ''1''), JNum ''1'')] zero_response"
    using assms unmarshal_raw_struct_print [of "[(''jsonrpc'', JStr ''2.0''), (''result'', v), (''id'', JNum ''1'')]"]
    by (simp add: result_json_def del: print_json.simps)
  then show ?thesis
    by (simp add: response_fields_def set_field_def decode_RawMessage_def on_tree_def decode_int_def zero_response_def
        del: print_json.simps)
qed

lemma callContext_result:
  assumes "http_Do http (jr_url r) (request meth params) e = (ok_body v, e')" and "wf_json v" and "v \<noteq> JNull"
  shows "callContext http r dec old meth params e =
    (case dec (print_json v) of
       Inl err \<Rightarrow> (Inl (Err_Wrap ''unmarshal result: '' err ('', raw: '' @ print_json v)), e')
     | Inr x \<Rightarrow> (Inr x, e'))"
proof -
  have "print_json v \<noteq> []" using print_json_head [OF assms(2)] by auto
  moreover have "print_json v \<noteq> ''null''"
    using json_parse_print [OF assms(2)] json_parse_print [of JNull] assms(3) by auto
  ultimately show ?thesis
    using assms(1) unmarshal_result [OF assms(2)] by (simp add: callContext_def Let_def del: print_json.simps split: sum.split)
qed

lemma callContext_null:
  assumes "http_Do http (jr_url r) (request meth params) e = (ok_body JNull, e')"
  shows "callContext http r dec old meth params e = (Inr old, e')"
  using assms unmarshal_result [of JNull] by (simp add: callContext_def Let_def)

lemma callContext_error:
  assumes "http_Do http (jr_url r) (request meth params) e = (Inr (print_json (error_json cd msg)), e')"
    and "- (2 ^ 63) \<le> cd" and "cd < 2 ^ 63" and "valid_utf8 msg"
  shows "callContext http r dec old meth params e =
    (Inl (Err_New (''RPC error '' @ format_int cd @ '': '' @ msg)), e')"
proof -
  have "int_number (format_int cd)" by (simp add: format_int_def)
  then have wf: "wf_json (error_json cd msg)" using assms(4) by (simp add: error_json_def)
  then have "unmarshal_raw_struct response_fields (print_json (error_json cd msg)) zero_response
      = Inr \<lparr>rsp_JSONRPC = print_json (JStr ''2.0''), rsp_Result = [],
          rsp_Error = Some \<lparr>re_Code = cd, re_Message = msg\<rparr>, rsp_ID = 1\<rparr>"
    unfolding error_json_def
    by (simp add: unmarshal_raw_struct_print response_fields_def set_field_def decode_RawMessage_def on_tree_def
        decode_int_def decode_error_def decode_struct_def error_fields_def decode_string_def zero_response_def
        ParseInt_format_int [OF assms(2,3)] del: print_json.simps)
  with assms(1) show ?thesis by (simp add: callContext_def Let_def del: print_json.simps)
qed

lemma scripted_Do [simp]: "http_Do scripted url body (a # answers, sent) = (a, answers, sent @ [body])"
  by (simp add: scripted_def)

lemmas call_scripted = callContext_result [where http = scripted, OF scripted_Do]
  callContext_null [where http = scripted, OF scripted_Do]
  callContext_error [where http = scripted, OF scripted_Do]

lemma decode_uint64_text: "json_Unmarshal (\<lambda>v. decode_uint64 v 0) (print_json (JNum (FormatUint n))) = Inr n"
  by (simp add: decode_uint64_def del: print_json.simps)

lemma BlockHeight_scripted:
  "BlockHeight scripted c (ok_body (JNum (FormatUint h)) # answers, sent)
     = (Inr h, answers, sent @ [request ''scdo_getBlockHeight'' []])"
  by (simp add: BlockHeight_def call_scripted decode_uint64_text del: print_json.simps)

lemma Nonce_scripted:
  "Nonce scripted c addr height (ok_body (JNum (FormatUint n)) # answers, sent)
     = (Inr n, answers, sent @ [request ''scdo_getAccountNonce'' [JStr addr, JStr [], JNum (format_int height)]])"
  by (simp add: Nonce_def call_scripted decode_uint64_text del: print_json.simps)

definition addTx_request :: "string \<Rightarrow> Tx \<Rightarrow> string" where
  "addTx_request fromAddr tx = request ''scdo_addTx'' [tx_json fromAddr tx (JObj
     [(''message'', JStr (''sign tx nonce='' @ FormatUint (tx_Nonce tx))), (''method'', JStr ''placeholder'')])]"

lemma addTx_scripted:
  "addTx scripted c fromAddr tx key (ok_body (JBool ok) # answers, sent)
     = (if ok then Inr [] else Inl (Err_New ''addTx returned false''), answers, sent @ [addTx_request fromAddr tx])"
  by (simp add: addTx_def SignTransaction_def call_scripted decode_bool_def addTx_request_def del: print_json.simps)

text \<open>The balance text of a node: base 0 takes the base from the prefix.\<close>

lemma SetString_prefixed: "big_SetString (''0x'' @ format_hex n) 0 = Some (int n)"
proof -
  have "\<forall>c \<in> set (format_hex n). digit_value c < 16" using format_hex_digits digit_value_lower_hex by blast
  from scan_loop_digits [OF this, of "CHR ''0''" True 0 0]
  have "scan_loop 16 True (format_hex n) (CHR ''0'') False 0 0 = (n, length (format_hex n), False, [])"
    by (simp add: digits_value_format_hex)
  then show ?thesis by (simp add: big_SetString_def nat_scan_def scan_prefix_def)
qed

lemma valid_hex_text: "valid_utf8 (''0x'' @ big_hex z)"
proof (rule valid_plain)
  have "plain_char (CHR ''0'')" "plain_char (CHR ''x'')" by (simp_all add: plain_char_def)
  with plain_big_hex [of z] show "\<forall>c \<in> set (''0x'' @ big_hex z). plain_char c" by simp
qed

section \<open>What goes over the wire\<close>

text \<open>Any transport, with the bodies of the requests recorded.\<close>

definition logged :: "'e Http \<Rightarrow> ('e \<times> string list) Http" where
  "logged http = \<lparr>http_Do = (\<lambda>url body (e, sent).
     case http_Do http url body e of (res, e) \<Rightarrow> (res, e, sent @ [body]))\<rparr>"

text \<open>A call sends one request, whatever comes back.\<close>

lemma callContext_logged:
  assumes "callContext (logged http) r dec old meth params (e, sent) = (res, e', sent')"
  shows "sent' = sent @ [request meth params]"
  using assms
  by (auto simp: callContext_def logged_def Let_def simp del: print_json.simps
      split: prod.splits sum.splits option.splits if_splits)

lemma addTx_logged:
  assumes "addTx (logged http) c fromAddr tx key (e, sent) = (res, e', sent')"
  shows "sent' = sent @ [addTx_request fromAddr tx] \<and> (\<forall>s. res = Inr s \<longrightarrow> s = [])"
  using assms
  by (auto simp: addTx_def SignTransaction_def addTx_request_def simp del: print_json.simps dest: callContext_logged
      split: prod.splits sum.splits if_splits)

section \<open>Receipts\<close>

definition fee_json :: "int option \<Rightarrow> json" where
  "fee_json fee = (case fee of None \<Rightarrow> JNull | Some z \<Rightarrow> JStr (''0x'' @ big_hex z))"

definition receipt_json :: "Receipt \<Rightarrow> json list \<Rightarrow> json" where
  "receipt_json r logs = JObj
     [(''txhash'', JStr (rc_TxHash r)), (''contract'', JStr (rc_ContractAddress r)), (''failed'', JBool (rc_Failed r)),
      (''usedGas'', JNum (FormatUint (rc_UsedGas r))), (''poststate'', JStr (rc_PostState r)),
      (''result'', JStr (rc_Result r)),
      (''totalFee'', fee_json (rc_TotalFee r)),
      (''logs'', JArr logs)]"

definition utf8_receipt :: "Receipt \<Rightarrow> bool" where
  "utf8_receipt r \<longleftrightarrow> valid_utf8 (rc_TxHash r) \<and> valid_utf8 (rc_ContractAddress r) \<and> valid_utf8 (rc_PostState r)
     \<and> valid_utf8 (rc_Result r)"

lemma wf_receipt_json: "utf8_receipt r \<Longrightarrow> list_all wf_json logs \<Longrightarrow> wf_json (receipt_json r logs)"
proof -
  have "valid_utf8 ''txhash''" "valid_utf8 ''contract''" "valid_utf8 ''failed''" "valid_utf8 ''usedGas''"
      "valid_utf8 ''poststate''" "valid_utf8 ''totalFee''" "valid_utf8 ''logs''"
    by (rule valid_utf8_ascii, simp)+
  then show "utf8_receipt r \<Longrightarrow> list_all wf_json logs \<Longrightarrow> wf_json (receipt_json r logs)"
    using valid_hex_text by (auto simp: receipt_json_def utf8_receipt_def fee_json_def split: option.split)
qed

lemma decode_HexBig_print: "decode_HexBig (print_json (fee_json z), fee_json z) old = Inr z"
  using HexBig_text_roundtrip
  by (simp add: decode_HexBig_def fee_json_def HexBig_MarshalJSON_def del: print_json.simps split: option.split)

lemma unmarshal_receipt:
  assumes "utf8_receipt r" and "list_all wf_json logs" and "rc_Logs r = map print_json logs"
  shows "unmarshal_raw_struct receipt_fields (print_json (receipt_json r logs)) zero_Receipt = Inr r"
proof -
  have "raw_array (print_json (JArr logs)) = Some (map (\<lambda>v. (print_json v, v)) logs)"
    using assms(2) by (intro raw_array_print) simp
  then have "decode_RawMessages (print_json (JArr logs), JArr logs) old = Inr (rc_Logs r)" for old
    by (simp add: decode_RawMessages_def assms(3) comp_def del: print_json.simps)
  moreover have "unmarshal_raw_struct receipt_fields (print_json (receipt_json r logs)) zero_Receipt
      = decode_members receipt_fields (map (\<lambda>(k, v). (k, print_json v, v))
          (case receipt_json r logs of JObj ms \<Rightarrow> ms | _ \<Rightarrow> [])) zero_Receipt"
    using unmarshal_raw_struct_print [OF wf_receipt_json [OF assms(1,2), unfolded receipt_json_def]]
    unfolding receipt_json_def by (simp only: json.case)
  ultimately show ?thesis
    by (simp add: receipt_json_def receipt_fields_def set_field_def on_tree_def decode_string_def decode_bool_def
        decode_uint64_def decode_HexBig_print zero_Receipt_def del: print_json.simps)
qed

text \<open>A text without the first letter of the word cannot contribute to an occurrence of it.\<close>

lemma strings_Contains_append: "x \<notin> set p \<Longrightarrow> strings_Contains (p @ s) (x # w) = strings_Contains s (x # w)"
  by (induction p) auto

lemma contains_not_found:
  "strings_Contains (''RPC error '' @ format_int cd @ '': '' @ msg) ''leveldb: not found''
     \<longleftrightarrow> strings_Contains msg ''leveldb: not found''"
proof -
  have "CHR ''l'' \<notin> set (format_nat n)" for n using format_nat_digits by (force simp: is_digit_def)
  then have "CHR ''l'' \<notin> set (''RPC error '' @ format_int cd @ '': '')" by (simp add: format_int_def)
  from strings_Contains_append [OF this, of msg "''eveldb: not found''"] show ?thesis
    by (simp only: append_assoc)
qed

section \<open>Properties\<close>

text \<open>
  Against a node that answers in JSON-RPC, the queries return what the node said: the height, the nonce
  and the balance given as a hexadecimal string. An answer whose result is \<open>null\<close> is height 0 and nonce 0
  without an error, but no balance.
\<close>

theorem queries_return_answer:
  "fst (BlockHeight scripted c ([ok_body (JNum (FormatUint h))], sent)) = Inr h
    \<and> fst (Nonce scripted c addr height ([ok_body (JNum (FormatUint n))], sent)) = Inr n
    \<and> fst (Balance scripted c addr height ([ok_body (JStr (''0x'' @ format_hex b))], sent)) = Inr (int b)
    \<and> fst (BlockHeight scripted c ([ok_body JNull], sent)) = Inr 0
    \<and> fst (Nonce scripted c addr height ([ok_body JNull], sent)) = Inr 0
    \<and> fst (Balance scripted c addr height ([ok_body JNull], sent)) = Inl (Err_New ''invalid balance hex: '')"
proof -
  have "valid_utf8 (''0x'' @ format_hex b)" using valid_hex_text [of "int b"] by (simp add: big_hex_def)
  then have "fst (Balance scripted c addr height ([ok_body (JStr (''0x'' @ format_hex b))], sent)) = Inr (int b)"
    using SetString_prefixed [of b] by (simp add: Balance_def call_scripted decode_string_def del: print_json.simps)
  moreover have "fst (Balance scripted c addr height ([ok_body JNull], sent)) = Inl (Err_New ''invalid balance hex: '')"
    by (simp add: Balance_def call_scripted big_SetString_def del: print_json.simps)
  ultimately show ?thesis
    by (simp add: BlockHeight_scripted Nonce_scripted BlockHeight_def Nonce_def call_scripted decode_uint64_def
        del: print_json.simps)
qed

text \<open>
  Sending a transaction without a nonce to a node that answers: three requests, in this order, the
  last one the transaction with the nonce the node gave for the sender at the height it gave (as
  \<open>int64\<close>); success exactly when the node accepts it. With a nonce, only the transaction is sent.
\<close>

theorem SendTx_requests:
  "SendTx scripted addr c tx key
      ((if tx_Nonce tx = 0 then [ok_body (JNum (FormatUint h)), ok_body (JNum (FormatUint n))] else [])
         @ [ok_body (JBool ok)], [])
    = (if ok then Inr [] else Inl (Err_New ''addTx returned false''), [],
       (if tx_Nonce tx = 0
        then [request ''scdo_getBlockHeight'' [],
              request ''scdo_getAccountNonce'' [JStr (addr key), JStr [], JNum (format_int (int64_of h))],
              addTx_request (addr key) (tx\<lparr>tx_Nonce := n\<rparr>)]
        else [addTx_request (addr key) tx]))"
  by (simp add: SendTx_def PubkeyToAddress_def BlockHeight_scripted Nonce_scripted addTx_scripted del: print_json.simps)

text \<open>
  C38. Whatever the node answers, \<open>SendTx\<close> puts at most one transaction on the wire, as its last request;
  without a nonce it does so only after the height and the nonce were answered, and it reports success
  only after the transaction was sent. The string it returns on success is always empty, never a hash.
\<close>

theorem SendTx_wire:
  assumes "SendTx (logged http) addr c tx key (e, []) = (res, e', sent)"
  shows "(if tx_Nonce tx \<noteq> 0 then sent = [addTx_request (addr key) tx]
      else sent = [request ''scdo_getBlockHeight'' []]
        \<or> (\<exists>h. sent = [request ''scdo_getBlockHeight'' [],
              request ''scdo_getAccountNonce'' [JStr (addr key), JStr [], JNum (format_int (int64_of h))]])
        \<or> (\<exists>h n. sent = [request ''scdo_getBlockHeight'' [],
              request ''scdo_getAccountNonce'' [JStr (addr key), JStr [], JNum (format_int (int64_of h))],
              addTx_request (addr key) (tx\<lparr>tx_Nonce := n\<rparr>)]))
    \<and> (\<forall>s. res = Inr s \<longrightarrow> s = [] \<and> (\<exists>n. last sent = addTx_request (addr key) (tx\<lparr>tx_Nonce := n\<rparr>)))"
proof (cases "tx_Nonce tx = 0")
  case False
  with assms addTx_logged [of http c "addr key" tx key e "[]" res e' sent] show ?thesis
    by (auto simp: SendTx_def PubkeyToAddress_def simp del: print_json.simps intro!: exI [of _ "tx_Nonce tx"])
next
  case True
  obtain hres e1 sent1 where h: "BlockHeight (logged http) c (e, []) = (hres, e1, sent1)" by (metis surj_pair)
  then have s1: "sent1 = [request ''scdo_getBlockHeight'' []]"
    unfolding BlockHeight_def by (auto dest: callContext_logged simp del: print_json.simps)
  show ?thesis
  proof (cases hres)
    case (Inl err)
    with True h assms s1 show ?thesis by (auto simp: SendTx_def PubkeyToAddress_def simp del: print_json.simps)
  next
    case height: (Inr height)
    obtain nres e2 sent2 where n: "Nonce (logged http) c (addr key) (int64_of height) (e1, sent1) = (nres, e2, sent2)"
      by (metis surj_pair)
    then have s2: "sent2 = sent1 @ [request ''scdo_getAccountNonce'' [JStr (addr key), JStr [], JNum (format_int (int64_of height))]]"
      unfolding Nonce_def by (auto dest: callContext_logged simp del: print_json.simps)
    show ?thesis
    proof (cases nres)
      case (Inl err)
      with True h height n assms s1 s2 show ?thesis
        by (auto simp: SendTx_def PubkeyToAddress_def simp del: print_json.simps)
    next
      case (Inr nonce)
      with True h height n assms have "addTx (logged http) c (addr key) (tx\<lparr>tx_Nonce := nonce\<rparr>) key (e2, sent2) = (res, e', sent)"
        by (simp add: SendTx_def PubkeyToAddress_def)
      from addTx_logged [OF this] True s1 s2 show ?thesis by (auto simp del: print_json.simps)
    qed
  qed
qed

text \<open>
  C40. A mined transaction: the receipt a node sends comes back field by field, with the fee in hexadecimal and
  the logs as their JSON text. A receipt without hash, contract and gas counts as not found.
\<close>

theorem GetReceipt_roundtrip:
  assumes "utf8_receipt r" and "list_all wf_json logs" and "rc_Logs r = map print_json logs"
  shows "GetReceipt scripted c txHash (ok_body (receipt_json r logs) # answers, sent)
    = (Inr (if rc_TxHash r = [] \<and> rc_ContractAddress r = [] \<and> rc_UsedGas r = 0 then None else Some r),
       answers, sent @ [request ''scdo_getReceiptByTxHash'' [JStr txHash, JStr []]])"
proof -
  have "receipt_json r logs \<noteq> JNull" by (simp add: receipt_json_def)
  with unmarshal_receipt [OF assms] wf_receipt_json [OF assms(1,2)] show ?thesis
    by (simp add: GetReceipt_def call_scripted del: print_json.simps)
qed

text \<open>
  An RPC error is a receipt that is not there yet exactly when its message contains the database's
  \<open>leveldb: not found\<close>; every other one is reported with its code and message.
\<close>

theorem GetReceipt_error:
  assumes "- (2 ^ 63) \<le> cd" and "cd < 2 ^ 63" and "valid_utf8 msg"
  shows "fst (GetReceipt scripted c txHash (Inr (print_json (error_json cd msg)) # answers, sent))
    = (if strings_Contains msg ''leveldb: not found'' then Inr None
       else Inl (Err_New (''RPC error '' @ format_int cd @ '': '' @ msg)))"
proof -
  have call: "callContext scripted (cl_http c) dec old meth params (Inr (print_json (error_json cd msg)) # answers, sent)
      = (Inl (Err_New (''RPC error '' @ format_int cd @ '': '' @ msg)), answers, sent @ [request meth params])"
    for dec :: "string \<Rightarrow> Receipt go_result" and old meth params
    by (rule callContext_error [OF scripted_Do assms])
  show ?thesis
    by (simp only: GetReceipt_def call prod.case sum.case error_msg.simps contains_not_found if_distrib [of fst] fst_conv)
qed

definition sample_client :: Client where
  "sample_client = \<lparr>cl_rpcURL = ''http://node'', cl_http = newJSONRPC ''http://node''\<rparr>"

definition sample_receipt :: Receipt where
  "sample_receipt = \<lparr>rc_TxHash = ''0xabc'', rc_ContractAddress = ''1S01'', rc_Failed = True, rc_UsedGas = 26152,
     rc_PostState = ''0x60'', rc_Result = ''evm: execution reverted'', rc_TotalFee = Some 26184, rc_Logs = []\<rparr>"

theorem GetReceipt_roundtrip_witness:
  "fst (GetReceipt scripted sample_client ''0xabc'' ([ok_body (receipt_json sample_receipt [])], [])) = Inr (Some sample_receipt)"
proof -
  have "utf8_receipt sample_receipt" by (simp add: utf8_receipt_def sample_receipt_def valid_utf8_ascii)
  from GetReceipt_roundtrip [OF this, of "[]"] show ?thesis
    by (simp add: sample_receipt_def del: print_json.simps)
qed

theorem GetReceipt_error_witness:
  "fst (GetReceipt scripted sample_client ''0xabc'' ([Inr (print_json (error_json (- 32000) ''leveldb: not found''))], []))
    = Inr None"
proof -
  have "valid_utf8 ''leveldb: not found''" by (rule valid_utf8_ascii) simp
  from GetReceipt_error [OF _ _ this, of "- 32000"] show ?thesis by (simp del: print_json.simps)
qed

theorem SendTx_wire_witness:
  "\<exists>res e' sent. SendTx (logged scripted) (\<lambda>_. ''0xaa'') sample_client
       \<lparr>tx_To = ''0xbb'', tx_Amount = Some 1, tx_GasPrice = Some 1, tx_GasLimit = 21000, tx_Payload = [], tx_Nonce = 7\<rparr>
       () (([], []), []) = (res, e', sent)
     \<and> length sent = 1"
proof -
  let ?tx = "\<lparr>tx_To = ''0xbb'', tx_Amount = Some 1, tx_GasPrice = Some 1, tx_GasLimit = 21000, tx_Payload = [], tx_Nonce = 7\<rparr>"
  obtain res e' sent where run: "SendTx (logged scripted) (\<lambda>_. ''0xaa'') sample_client ?tx () (([], []), []) = (res, e', sent)"
    by (metis surj_pair)
  from SendTx_wire [OF this] have "length sent = 1" by (simp del: print_json.simps)
  with run show ?thesis by blast
qed

end
