(* ===== verification/Scdo_Wire.thy ===== *)
theory Scdo_Wire
  imports Scdo_Client
begin

text \<open>
  What the client of \<open>go/scdo\<close> puts on the wire: a type of JSON-RPC requests, by method and parameters, and that every
  request of every operation has it, over any transport.
\<close>

section \<open>The type of a request\<close>

fun json_kind :: "json \<Rightarrow> string" where
  "json_kind JNull = ''null''"
| "json_kind (JBool b) = ''boolean''"
| "json_kind (JNum s) = ''number''"
| "json_kind (JStr s) = ''string''"
| "json_kind (JArr vs) = ''array''"
| "json_kind (JObj ms) = ''object''"

text \<open>The parameters each method is called with, by their JSON types.\<close>

definition tx_typed :: "json \<Rightarrow> bool" where
  "tx_typed v \<longleftrightarrow> (case v of JObj ms \<Rightarrow> map (map_prod id json_kind) ms =
     [(''AccountNonce'', ''number''), (''Amount'', ''string''), (''From'', ''string''), (''GasLimit'', ''number''),
      (''GasPrice'', ''string''), (''Payload'', ''string''), (''Signature'', ''object''), (''To'', ''string''),
      (''Type'', ''number'')] | _ \<Rightarrow> False)"

definition params_typed :: "string \<Rightarrow> json \<Rightarrow> bool" where
  "params_typed meth params \<longleftrightarrow>
     (case params of
        JNull \<Rightarrow> meth = ''scdo_getBlockHeight''
      | JArr vs \<Rightarrow>
          (meth = ''scdo_getBalance'' \<or> meth = ''scdo_getAccountNonce'') \<and> map json_kind vs = [''string'', ''string'', ''number'']
          \<or> meth = ''scdo_getReceiptByTxHash'' \<and> map json_kind vs = [''string'', ''string'']
          \<or> meth = ''scdo_addTx'' \<and> (case vs of [tx] \<Rightarrow> tx_typed tx | _ \<Rightarrow> False)
      | _ \<Rightarrow> False)"

text \<open>A body that is a request of JSON-RPC 2.0 for one of these methods.\<close>

definition request_typed :: "string \<Rightarrow> bool" where
  "request_typed body \<longleftrightarrow>
     (\<exists>meth params. json_parse body = Some (JObj
        [(''jsonrpc'', JStr ''2.0''), (''method'', JStr meth), (''params'', params), (''id'', JNum ''1'')])
      \<and> params_typed meth params)"

lemma request_names [simp]:
  "valid_utf8 ''scdo_getBlockHeight''" "valid_utf8 ''scdo_getBalance''" "valid_utf8 ''scdo_getAccountNonce''"
  "valid_utf8 ''scdo_getReceiptByTxHash''" "valid_utf8 ''scdo_addTx''" "valid_utf8 ''params''" "valid_utf8 ''method''"
  by (rule valid_utf8_ascii, simp)+

lemma request_typed_print:
  assumes "list_all wf_json params" and "valid_utf8 meth"
    and "params_typed meth (if params = [] then JNull else JArr params)"
  shows "request_typed (request meth params)"
proof -
  have "wf_json (rpcRequest meth params)" using assms(1,2) by (simp add: rpcRequest_def)
  from json_parse_print [OF this] assms(3) show ?thesis
    unfolding request_typed_def rpcRequest_def by blast
qed

lemma int_number_format [simp]: "int_number (format_int z)"
  by (simp add: format_int_def)

lemma big_String_ascii: "valid_utf8 (big_String z)"
proof (cases z)
  case None
  have "valid_utf8 ''<nil>''" by (rule valid_utf8_ascii) simp
  with None show ?thesis by (simp add: big_String_def)
next
  case (Some x)
  have "\<forall>c \<in> set (format_int x). code c < 128" using format_nat_ascii by (auto simp: format_int_def)
  with Some show ?thesis by (auto simp: big_String_def intro: valid_utf8_ascii)
qed

lemma addTx_request_typed:
  assumes "valid_utf8 fromAddr" and "valid_utf8 (tx_To tx)"
  shows "request_typed (addTx_request fromAddr tx)"
  unfolding addTx_request_def
proof (rule request_typed_print)
  have "valid_utf8 ''AccountNonce''" "valid_utf8 ''Amount''" "valid_utf8 ''From''" "valid_utf8 ''GasLimit''"
      "valid_utf8 ''GasPrice''" "valid_utf8 ''Payload''" "valid_utf8 ''Signature''" "valid_utf8 ''To''" "valid_utf8 ''Type''"
      "valid_utf8 ''placeholder''"
    by (rule valid_utf8_ascii, simp)+
  moreover have "valid_utf8 (''0x'' @ hex_EncodeToString (tx_Payload tx))"
    by (rule valid_utf8_ascii) (use hex_ascii in auto)
  moreover have "\<forall>c \<in> set (FormatUint n). code c < 128" for n
    using FormatUint_digits by (fastforce simp: is_digit_def)
  then have "valid_utf8 (''sign tx nonce='' @ FormatUint (tx_Nonce tx))"
    by (intro valid_utf8_ascii) auto
  moreover have "int_number ''0''" by (simp add: plain_number_def is_digit_def)
  ultimately show "list_all wf_json [tx_json fromAddr tx (JObj
      [(''message'', JStr (''sign tx nonce='' @ FormatUint (tx_Nonce tx))), (''method'', JStr ''placeholder'')])]"
    using assms big_String_ascii by (simp add: tx_json_def)
qed (simp_all add: params_typed_def tx_typed_def tx_json_def)


text \<open>The requests of the operations, over any transport.\<close>

lemma logged_requests:
  "snd (snd (BlockHeight (logged http) c (e, sent))) = sent @ [request ''scdo_getBlockHeight'' []]"
  "snd (snd (Nonce (logged http) c addr height (e, sent)))
     = sent @ [request ''scdo_getAccountNonce'' [JStr addr, JStr [], JNum (format_int height)]]"
  "snd (snd (Balance (logged http) c addr height (e, sent)))
     = sent @ [request ''scdo_getBalance'' [JStr addr, JStr [], JNum (format_int height)]]"
  "snd (snd (GetReceipt (logged http) c txHash (e, sent))) = sent @ [request ''scdo_getReceiptByTxHash'' [JStr txHash, JStr []]]"
  "snd (snd (addTx (logged http) c fromAddr tx key (e, sent))) = sent @ [addTx_request fromAddr tx]"
proof -
  have call: "snd (snd (callContext (logged http) r dec old meth params (e, sent))) = sent @ [request meth params]"
    for r dec old meth params
    using callContext_logged by (metis prod.collapse)
  note [simp del] = print_json.simps
  show "snd (snd (BlockHeight (logged http) c (e, sent))) = sent @ [request ''scdo_getBlockHeight'' []]"
    "snd (snd (Nonce (logged http) c addr height (e, sent)))
       = sent @ [request ''scdo_getAccountNonce'' [JStr addr, JStr [], JNum (format_int height)]]"
    by (simp_all add: BlockHeight_def Nonce_def call)
  show "snd (snd (Balance (logged http) c addr height (e, sent)))
       = sent @ [request ''scdo_getBalance'' [JStr addr, JStr [], JNum (format_int height)]]"
    by (simp add: Balance_def case_prod_beta split: sum.split option.split) (auto simp: call)
  show "snd (snd (GetReceipt (logged http) c txHash (e, sent))) = sent @ [request ''scdo_getReceiptByTxHash'' [JStr txHash, JStr []]]"
    by (simp add: GetReceipt_def case_prod_beta split: sum.split) (auto simp: call)
  show "snd (snd (addTx (logged http) c fromAddr tx key (e, sent))) = sent @ [addTx_request fromAddr tx]"
    by (metis addTx_logged prod.collapse)
qed

lemma requests_typed:
  "request_typed (request ''scdo_getBlockHeight'' [])"
  "valid_utf8 addr \<Longrightarrow> request_typed (request ''scdo_getAccountNonce'' [JStr addr, JStr [], JNum (format_int height)])"
  "valid_utf8 addr \<Longrightarrow> request_typed (request ''scdo_getBalance'' [JStr addr, JStr [], JNum (format_int height)])"
  "valid_utf8 txHash \<Longrightarrow> request_typed (request ''scdo_getReceiptByTxHash'' [JStr txHash, JStr []])"
  by (rule request_typed_print; simp add: params_typed_def)+



end
