(* ===== verification/Log_Records.thy ===== *)
theory Log_Records
  imports Go_Text Sha256 "HOL-Library.Sublist"
begin

text \<open>
  The log record of \<open>go/logfilter/logfilter.go\<close>, its deduplication key and the deduplication
  loop of \<open>RunOnce\<close>. The key hashes the block number and the transaction hash only; the
  theorems say exactly which logs of a batch survive.
\<close>

section \<open>Model\<close>

record LogResult =
  lr_BlockNumber :: string
  lr_BlockNumUint :: u64
  lr_TransactionHash :: string
  lr_Address :: string
  lr_Topics :: "string list"
  lr_Data :: string

definition key_text :: "LogResult \<Rightarrow> string" where
  "key_text l = lr_BlockNumber l @ ''|'' @ lr_TransactionHash l"

definition uniqueKey :: "LogResult \<Rightarrow> string" where
  "uniqueKey l = hex_EncodeToString (Sum256 (map byte_of_char (key_text l)))"

text \<open>The loop over \<open>logs\<close> with the map \<open>seen\<close>: a log is kept when its key is new.\<close>

fun dedup_batch :: "string set \<Rightarrow> LogResult list \<Rightarrow> LogResult list" where
  "dedup_batch seen [] = []"
| "dedup_batch seen (l # logs) =
     (let k = uniqueKey l in
      if k \<notin> seen then l # dedup_batch (insert k seen) logs
      else dedup_batch seen logs)"

section \<open>Lemmas\<close>

lemma byte_of_char_inject [simp]: "byte_of_char c = byte_of_char d \<longleftrightarrow> c = d"
proof
  assume "byte_of_char c = byte_of_char d"
  then have "unat (word_of_nat (of_char c) :: byte) = unat (word_of_nat (of_char d) :: byte)"
    by (simp add: byte_of_char_def)
  then have "(of_char c :: nat) mod 256 = of_char d mod 256" by (simp add: unat_of_nat)
  then show "c = d" by simp
qed simp

lemma inj_byte_of_char: "inj byte_of_char"
  by (simp add: inj_def)

lemma uniqueKey_eq_iff:
  "uniqueKey l = uniqueKey m \<longleftrightarrow>
     Sum256 (map byte_of_char (key_text l)) = Sum256 (map byte_of_char (key_text m))"
  by (simp add: uniqueKey_def)

lemma uniqueKey_cong:
  "lr_BlockNumber l = lr_BlockNumber m \<Longrightarrow> lr_TransactionHash l = lr_TransactionHash m
    \<Longrightarrow> uniqueKey l = uniqueKey m"
  by (simp add: uniqueKey_def key_text_def)

text \<open>Before the separator stands a decimal number, so the text determines both parts.\<close>

lemma key_text_inject:
  assumes "\<forall>c \<in> set (lr_BlockNumber l). is_digit c" and "\<forall>c \<in> set (lr_BlockNumber m). is_digit c"
    and "key_text l = key_text m"
  shows "lr_BlockNumber l = lr_BlockNumber m \<and> lr_TransactionHash l = lr_TransactionHash m"
proof -
  have take: "takeWhile (\<lambda>c. c \<noteq> CHR ''|'') (key_text x) = lr_BlockNumber x"
    if "\<forall>c \<in> set (lr_BlockNumber x). is_digit c" for x :: LogResult
  proof -
    have "\<forall>c \<in> set (lr_BlockNumber x). c \<noteq> CHR ''|''"
      using that by (auto simp: is_digit_def)
    then show ?thesis by (simp add: key_text_def takeWhile_append2)
  qed
  from take [OF assms(1)] take [OF assms(2)] assms(3)
  have "lr_BlockNumber l = lr_BlockNumber m" by metis
  with assms(3) show ?thesis by (simp add: key_text_def)
qed

lemma dedup_keys:
  "distinct (map uniqueKey (dedup_batch seen logs))
    \<and> set (map uniqueKey (dedup_batch seen logs)) = uniqueKey ` set logs - seen"
  by (induction seen logs rule: dedup_batch.induct) (auto simp: Let_def)

lemma dedup_subseq: "subseq (dedup_batch seen logs) logs"
  by (induction seen logs rule: dedup_batch.induct) (auto simp: Let_def)

lemma set_dedup_subset: "set (dedup_batch seen logs) \<subseteq> set logs"
  by (induction seen logs rule: dedup_batch.induct) (auto simp: Let_def)

lemma dedup_key_image: "uniqueKey ` set (dedup_batch {} logs) = uniqueKey ` set logs"
  using dedup_keys [of "{}" logs] by simp

lemma dedup_append:
  "dedup_batch seen (xs @ ys) =
     dedup_batch seen xs @ dedup_batch (seen \<union> uniqueKey ` set xs) ys"
proof (induction xs arbitrary: seen)
  case (Cons l xs)
  then show ?case
    by (cases "uniqueKey l \<in> seen") (simp_all add: Let_def insert_absorb)
qed simp

section \<open>Properties\<close>

text \<open>
  Deduplication keeps, in order, exactly the first log of every key: the result is a
  subsequence of the batch without repeated keys, it has every key of the batch, and a log is
  kept at its place exactly when its key does not occur earlier.
\<close>

theorem dedup_batch_correct:
  "subseq (dedup_batch {} logs) logs
    \<and> distinct (map uniqueKey (dedup_batch {} logs))
    \<and> uniqueKey ` set (dedup_batch {} logs) = uniqueKey ` set logs
    \<and> dedup_batch {} (logs @ [l]) =
        (if uniqueKey l \<in> uniqueKey ` set logs then dedup_batch {} logs else dedup_batch {} logs @ [l])"
  using dedup_keys [of "{}" logs] by (simp add: dedup_subseq dedup_append dedup_key_image Let_def)

text \<open>
  C32. Two logs of the same transaction are one log to the deduplication: whatever their
  address, topics and data, only the first of them survives.
\<close>

theorem dedup_drops_second_log_of_transaction:
  assumes "lr_BlockNumber l = lr_BlockNumber m" and "lr_TransactionHash l = lr_TransactionHash m"
  shows "dedup_batch {} (xs @ l # ys @ m # zs) = dedup_batch {} (xs @ l # ys @ zs)"
proof -
  let ?pre = "xs @ l # ys" and ?seen = "uniqueKey ` set (xs @ l # ys)"
  have "uniqueKey m \<in> ?seen" using assms uniqueKey_cong [of m l] by auto
  then have "dedup_batch ?seen (m # zs) = dedup_batch ?seen zs" by (simp only: dedup_batch.simps Let_def) simp
  then have "dedup_batch {} (?pre @ m # zs) = dedup_batch {} (?pre @ zs)"
    by (simp only: dedup_append Un_empty_left)
  then show ?thesis by simp
qed

definition transfer_log :: "string \<Rightarrow> LogResult" where
  "transfer_log data = \<lparr>lr_BlockNumber = ''100'', lr_BlockNumUint = 100,
     lr_TransactionHash = ''0xabc'', lr_Address = ''0xa'', lr_Topics = [], lr_Data = data\<rparr>"

theorem dedup_drops_second_log_of_transaction_witness:
  "dedup_batch {} ([] @ transfer_log ''01'' # [] @ transfer_log ''02'' # [])
     = dedup_batch {} ([] @ transfer_log ''01'' # [] @ [])"
  by (rule dedup_drops_second_log_of_transaction) (simp_all add: transfer_log_def)

text \<open>
  Nothing else is lost: on logs with decimal block numbers, if SHA-256 does not collide on
  the key texts of the batch, the transactions (block number and hash) that occur in the result
  are exactly those of the batch.
\<close>

theorem dedup_keeps_every_transaction:
  assumes "\<forall>l \<in> set logs. \<forall>c \<in> set (lr_BlockNumber l). is_digit c"
    and "inj_on Sum256 ((\<lambda>l. map byte_of_char (key_text l)) ` set logs)"
  shows "(\<lambda>l. (lr_BlockNumber l, lr_TransactionHash l)) ` set (dedup_batch {} logs)
    = (\<lambda>l. (lr_BlockNumber l, lr_TransactionHash l)) ` set logs"
proof
  let ?tx = "\<lambda>l. (lr_BlockNumber l, lr_TransactionHash l)"
  show "?tx ` set (dedup_batch {} logs) \<subseteq> ?tx ` set logs"
    using set_dedup_subset by blast
  show "?tx ` set logs \<subseteq> ?tx ` set (dedup_batch {} logs)"
  proof
    fix p assume "p \<in> ?tx ` set logs"
    then obtain l where l: "l \<in> set logs" "p = ?tx l" by blast
    then have "uniqueKey l \<in> uniqueKey ` set (dedup_batch {} logs)" by (simp add: dedup_key_image)
    then obtain m where m: "m \<in> set (dedup_batch {} logs)" "uniqueKey m = uniqueKey l" by auto
    then have "m \<in> set logs" using set_dedup_subset by blast
    have "Sum256 (map byte_of_char (key_text m)) = Sum256 (map byte_of_char (key_text l))"
      using m(2) by (simp only: uniqueKey_eq_iff)
    then have "map byte_of_char (key_text m) = map byte_of_char (key_text l)"
      using imageI [OF \<open>m \<in> set logs\<close>, of "\<lambda>l. map byte_of_char (key_text l)"]
        imageI [OF l(1), of "\<lambda>l. map byte_of_char (key_text l)"]
      by (rule inj_onD [OF assms(2)])
    then have "key_text m = key_text l"
      using inj_byte_of_char by (simp add: inj_map_eq_map)
    with assms(1) l \<open>m \<in> set logs\<close> have "?tx m = ?tx l"
      using key_text_inject [of m l] by simp
    then have "p = ?tx m" using l(2) by simp
    then show "p \<in> ?tx ` set (dedup_batch {} logs)" using m(1) by (rule image_eqI)
  qed
qed

theorem dedup_keeps_every_transaction_witness:
  "(\<lambda>l. (lr_BlockNumber l, lr_TransactionHash l)) ` set (dedup_batch {} [transfer_log ''01'', transfer_log ''02''])
    = (\<lambda>l. (lr_BlockNumber l, lr_TransactionHash l)) ` set [transfer_log ''01'', transfer_log ''02'']"
  by (rule dedup_keeps_every_transaction)
    (simp_all add: transfer_log_def is_digit_def key_text_def)

end
