(* ===== verification/Pending_Pool.thy ===== *)
theory Pending_Pool
  imports Log_Records "HOL-Library.AList"
begin

text \<open>
  The \<open>PendingPool\<close> interface of \<open>go/logfilter/logfilter.go\<close> and its in-memory implementation
  \<open>BlockPendingPool\<close>. The Go map from block heights to logs is an association list with
  distinct keys; the order in which \<open>range\<close> visits a map is not specified by Go, so it is a
  parameter \<open>ord\<close> that may return any permutation, a different one at each call (\<open>seed\<close> counts
  the iterations). The mutex makes each operation atomic, so an operation is a state function.

  The locale \<open>pending_pool\<close> (over the lists of logs a pool can store) is what a client of the interface relies on, stated over the map
  from heights to pending logs; \<open>draining_pool\<close> adds that a pop removes every confirmed height.
  The in-memory pool is an instance of both for every iteration order.
\<close>

section \<open>Model\<close>

text \<open>The interface, as a record of operations on the pool's state.\<close>

record 'p PendingPool =
  pp_Add :: "u64 \<Rightarrow> LogResult list \<Rightarrow> 'p \<Rightarrow> go_error option \<times> 'p"
  pp_PopConfirmed :: "u64 \<Rightarrow> u64 \<Rightarrow> 'p \<Rightarrow> LogResult list go_result \<times> 'p"
  pp_Count :: "'p \<Rightarrow> int go_result \<times> 'p"

type_synonym pool_data = "(u64 \<times> LogResult list) list"

record BlockPendingPool =
  data :: pool_data
  seed :: nat

text \<open>The iteration order of the \<open>n\<close>-th \<open>range\<close> over the map.\<close>

type_synonym iteration = "nat \<Rightarrow> pool_data \<Rightarrow> pool_data"

definition NewBlockPendingPool :: BlockPendingPool where
  "NewBlockPendingPool = \<lparr>data = [], seed = 0\<rparr>"

definition BlockPendingPool_Add ::
  "u64 \<Rightarrow> LogResult list \<Rightarrow> BlockPendingPool \<Rightarrow> go_error option \<times> BlockPendingPool" where
  "BlockPendingPool_Add blockHeight logs p =
     (None, p\<lparr>data := AList.update blockHeight logs (data p)\<rparr>)"

text \<open>The loop of \<open>PopConfirmed\<close>: the entries still to visit, the map and \<open>out\<close>.\<close>

fun pop_range :: "u64 \<Rightarrow> u64 \<Rightarrow> pool_data \<Rightarrow> pool_data \<Rightarrow> LogResult list \<Rightarrow> LogResult list \<times> pool_data" where
  "pop_range latestBlock confirmNum [] m out = (out, m)"
| "pop_range latestBlock confirmNum ((h, logs) # rest) m out =
     (if h + confirmNum \<le> latestBlock
      then pop_range latestBlock confirmNum rest (AList.delete h m) (out @ logs)
      else pop_range latestBlock confirmNum rest m out)"

definition BlockPendingPool_PopConfirmed ::
  "iteration \<Rightarrow> u64 \<Rightarrow> u64 \<Rightarrow> BlockPendingPool \<Rightarrow> LogResult list go_result \<times> BlockPendingPool" where
  "BlockPendingPool_PopConfirmed ord latestBlock confirmNum p =
     (let (out, m) = pop_range latestBlock confirmNum (ord (seed p) (data p)) (data p) []
      in (Inr out, p\<lparr>data := m, seed := Suc (seed p)\<rparr>))"

definition BlockPendingPool_Count :: "BlockPendingPool \<Rightarrow> int go_result \<times> BlockPendingPool" where
  "BlockPendingPool_Count p = (Inr (int (length (data p))), p)"

definition block_pool :: "iteration \<Rightarrow> BlockPendingPool PendingPool" where
  "block_pool ord =
     \<lparr>pp_Add = BlockPendingPool_Add, pp_PopConfirmed = BlockPendingPool_PopConfirmed ord,
      pp_Count = BlockPendingPool_Count\<rparr>"

section \<open>The contract of a pending pool\<close>

text \<open>
  A height \<open>h\<close> is confirmed at head \<open>l\<close> with depth \<open>c\<close> when \<open>h + c \<le> l\<close> in 64-bit arithmetic.
\<close>

abbreviation confirmed :: "u64 \<Rightarrow> u64 \<Rightarrow> u64 \<Rightarrow> bool" where
  "confirmed l c h \<equiv> h + c \<le> l"

text \<open>The logs of a map, as a multiset; \<open>confirmed_logs\<close> are those of the confirmed heights.\<close>

definition pending_logs :: "(u64 \<rightharpoonup> LogResult list) \<Rightarrow> LogResult multiset" where
  "pending_logs m = (\<Sum>h \<in> dom m. mset (the (m h)))"

definition confirmed_logs :: "u64 \<Rightarrow> u64 \<Rightarrow> (u64 \<rightharpoonup> LogResult list) \<Rightarrow> LogResult multiset" where
  "confirmed_logs l c m = (\<Sum>h \<in> {h \<in> dom m. confirmed l c h}. mset (the (m h)))"

lemma finite_dom_u64 [simp]: "finite (dom (m :: u64 \<rightharpoonup> 'v))"
  by (rule finite)

lemma in_confirmed_logs:
  "x \<in># confirmed_logs l c m \<longleftrightarrow> (\<exists>h logs. m h = Some logs \<and> confirmed l c h \<and> x \<in> set logs)"
  by (force simp: confirmed_logs_def set_mset_sum)

lemma in_pending_logs: "x \<in># pending_logs m \<longleftrightarrow> (\<exists>h logs. m h = Some logs \<and> x \<in> set logs)"
  by (force simp: pending_logs_def set_mset_sum)

lemma pending_logs_empty [simp]: "pending_logs Map.empty = {#}"
  by (simp add: pending_logs_def)

lemma pending_logs_update:
  "m h = None \<Longrightarrow> pending_logs (m(h \<mapsto> logs)) = mset logs + pending_logs m"
  by (simp add: pending_logs_def domIff sum.insert) (rule sum.cong; auto)

lemma pending_logs_split:
  "pending_logs m = confirmed_logs l c m + pending_logs (m |` {h. \<not> confirmed l c h})"
proof -
  have "dom m = {h \<in> dom m. confirmed l c h} \<union> {h \<in> dom m. \<not> confirmed l c h}" by blast
  then have "pending_logs m = confirmed_logs l c m + (\<Sum>h \<in> {h \<in> dom m. \<not> confirmed l c h}. mset (the (m h)))"
    unfolding pending_logs_def confirmed_logs_def
    by (subst (1) \<open>dom m = _\<close>) (rule sum.union_disjoint; auto)
  also have "(\<Sum>h \<in> {h \<in> dom m. \<not> confirmed l c h}. mset (the (m h)))
      = pending_logs (m |` {h. \<not> confirmed l c h})"
    unfolding pending_logs_def by (rule sum.cong) (auto simp: restrict_map_def split: if_splits)
  finally show ?thesis .
qed

locale pending_pool =
  fixes pool :: "'p PendingPool"
    and pend :: "'p \<Rightarrow> (u64 \<rightharpoonup> LogResult list)"
    and valid :: "'p \<Rightarrow> bool"
    and storable :: "LogResult list \<Rightarrow> bool"
  assumes add_ok: "valid p \<Longrightarrow> storable logs \<Longrightarrow> pp_Add pool h logs p = (None, p') \<Longrightarrow>
      valid p' \<and> pend p' = (pend p)(h \<mapsto> logs)"
    and add_err: "valid p \<Longrightarrow> storable logs \<Longrightarrow> pp_Add pool h logs p = (Some err, p') \<Longrightarrow>
      valid p' \<and> (pend p' = pend p \<or> pend p' = (pend p)(h \<mapsto> logs))"
    and pop_ok: "valid p \<Longrightarrow> pp_PopConfirmed pool l c p = (Inr out, p') \<Longrightarrow>
      valid p' \<and> mset out = confirmed_logs l c (pend p) \<and> pending_logs (pend p) = mset out + pending_logs (pend p')
      \<and> (\<forall>h. \<not> confirmed l c h \<longrightarrow> pend p' h = pend p h) \<and> pend p' \<subseteq>\<^sub>m pend p"
    and pop_err: "valid p \<Longrightarrow> pp_PopConfirmed pool l c p = (Inl err, p') \<Longrightarrow> valid p'"
    and count_valid: "valid p \<Longrightarrow> pp_Count pool p = (n, p') \<Longrightarrow> valid p' \<and> pend p' = pend p"
begin

text \<open>Everything popped was added under a confirmed height and not overwritten since.\<close>

lemma pop_confirmed_origin:
  assumes "valid p" and "pp_PopConfirmed pool l c p = (Inr out, p')" and "x \<in> set out"
  shows "\<exists>h logs. pend p h = Some logs \<and> confirmed l c h \<and> x \<in> set logs"
  using pop_ok [OF assms(1,2)] assms(3) in_confirmed_logs [of x l c "pend p"] by (metis set_mset_mset)

text \<open>A batch added under a confirmed fresh height comes back in full with the next pop.\<close>

lemma add_then_pop:
  assumes "valid p" and "storable logs" and "pend p h = None" and "confirmed l c h"
    and "pp_Add pool h logs p = (None, p1)" and "pp_PopConfirmed pool l c p1 = (Inr out, p2)"
  shows "mset logs \<subseteq># mset out"
proof -
  have "pend p1 = (pend p)(h \<mapsto> logs)" "valid p1" using add_ok [OF assms(1,2,5)] by auto
  then have "mset out = confirmed_logs l c ((pend p)(h \<mapsto> logs))"
    using pop_ok [OF _ assms(6)] by simp
  moreover have "{k \<in> dom ((pend p)(h \<mapsto> logs)). confirmed l c k}
      = insert h {k \<in> dom (pend p). confirmed l c k}"
    using assms(4) by auto
  ultimately show ?thesis
    using assms(3) by (simp add: confirmed_logs_def domIff)
qed

end

locale draining_pool = pending_pool +
  assumes pop_removes: "valid p \<Longrightarrow> pp_PopConfirmed pool l c p = (Inr out, p') \<Longrightarrow>
      pend p' = (pend p) |` {h. \<not> confirmed l c h}"
begin

lemma pop_idempotent:
  assumes "valid p" and "pp_PopConfirmed pool l c p = (Inr out, p1)"
    and "pp_PopConfirmed pool l c p1 = (Inr out2, p2)"
  shows "out2 = [] \<and> pend p2 = pend p1"
proof -
  have v: "valid p1" using pop_ok [OF assms(1,2)] by simp
  have "confirmed_logs l c (pend p1) = {#}"
    using pop_removes [OF assms(1,2)] by (simp add: confirmed_logs_def restrict_map_def dom_def)
  then show ?thesis
    using pop_ok [OF v assms(3)] pop_removes [OF v assms(3)] pop_removes [OF assms(1,2)] by simp
qed

end

section \<open>The in-memory pool implements the contract\<close>

definition block_pending :: "BlockPendingPool \<Rightarrow> (u64 \<rightharpoonup> LogResult list)" where
  "block_pending p = map_of (data p)"

definition block_valid :: "BlockPendingPool \<Rightarrow> bool" where
  "block_valid p \<longleftrightarrow> distinct (map fst (data p))"

abbreviation confirmed_entries :: "u64 \<Rightarrow> u64 \<Rightarrow> pool_data \<Rightarrow> pool_data" where
  "confirmed_entries l c es \<equiv> filter (\<lambda>(h, logs). confirmed l c h) es"

lemma pop_range_out:
  "fst (pop_range l c es m out) = out @ concat (map snd (confirmed_entries l c es))"
  by (induction l c es m out rule: pop_range.induct) auto

lemma pop_range_map:
  "map_of (snd (pop_range l c es m out)) =
     (map_of m) |` {h. \<not> (h \<in> fst ` set es \<and> confirmed l c h)}"
proof (induction l c es m out rule: pop_range.induct)
  case (2 l c h logs rest m out)
  then show ?case
    by (cases "confirmed l c h")
      (auto simp: fun_eq_iff restrict_map_def AList.delete_conv')
qed (simp add: restrict_map_def)

lemma pop_range_distinct:
  "distinct (map fst m) \<Longrightarrow> distinct (map fst (snd (pop_range l c es m out)))"
  by (induction l c es m out rule: pop_range.induct) (auto simp: AList.distinct_delete)

lemma mset_confirmed_entries:
  "distinct (map fst es) \<Longrightarrow>
     mset (concat (map snd (confirmed_entries l c es))) = confirmed_logs l c (map_of es)"
proof (induction es)
  case (Cons e es)
  obtain h logs where e: "e = (h, logs)" by (cases e)
  with Cons.prems have new: "h \<notin> dom (map_of es)" by (auto simp: dom_map_of_conv_image_fst)
  have rest: "(\<Sum>k \<in> {k \<in> dom (map_of es). confirmed l c k}. mset (the (map_of (e # es) k)))
      = confirmed_logs l c (map_of es)"
    unfolding confirmed_logs_def by (rule sum.cong) (use e new in auto)
  have dom: "{k \<in> dom (map_of (e # es)). confirmed l c k} = (if confirmed l c h
      then insert h {k \<in> dom (map_of es). confirmed l c k}
      else {k \<in> dom (map_of es). confirmed l c k})"
    using e by auto
  have "confirmed_logs l c (map_of (e # es))
      = (if confirmed l c h then mset logs else {#}) + confirmed_logs l c (map_of es)"
    unfolding confirmed_logs_def [of l c "map_of (e # es)"] dom
    using new rest by (auto simp: e)
  with Cons e show ?case by (simp add: fun_upd_def)
qed (simp add: confirmed_logs_def)

text \<open>
  What Go guarantees about \<open>range\<close> over a map: every entry is visited once, in some order.
\<close>

locale map_iteration =
  fixes ord :: iteration
  assumes ord_permutes: "mset (ord n xs) = mset xs"
begin

lemma ord_set: "set (ord n xs) = set xs"
  using ord_permutes [of n xs] by (metis set_mset_mset)

lemma ord_keys: "distinct (map fst (ord n xs)) \<longleftrightarrow> distinct (map fst xs)"
  by (rule mset_eq_imp_distinct_iff) (simp add: ord_permutes)

lemma ord_map_of: "distinct (map fst xs) \<Longrightarrow> map_of (ord n xs) = map_of xs"
  by (rule map_of_inject_set [THEN iffD2]) (simp_all add: ord_keys ord_set)

lemma PopConfirmed_correct:
  assumes "block_valid p" and "BlockPendingPool_PopConfirmed ord l c p = (res, p')"
  shows "\<exists>out. res = Inr out \<and> mset out = confirmed_logs l c (block_pending p)
    \<and> block_valid p' \<and> block_pending p' = (block_pending p) |` {h. \<not> confirmed l c h}"
proof -
  let ?es = "ord (seed p) (data p)"
  obtain out m where pr: "pop_range l c ?es (data p) [] = (out, m)" by fastforce
  have "mset out = confirmed_logs l c (map_of (data p))"
    using pop_range_out [of l c ?es "data p" "[]"] mset_confirmed_entries [of ?es, where l = l and c = c] assms(1)
    by (simp add: pr block_valid_def ord_keys ord_map_of)
  moreover have "map_of m = (map_of (data p)) |` {h. \<not> confirmed l c h}"
    using pop_range_map [of l c ?es "data p" "[]"]
    by (auto simp: pr ord_set fun_eq_iff restrict_map_def dest: map_of_eq_None_iff [THEN iffD2])
  moreover have "distinct (map fst m)"
    using pop_range_distinct [of "data p" l c ?es "[]"] assms(1) by (simp add: pr block_valid_def)
  ultimately show ?thesis
    using assms(2) by (auto simp: BlockPendingPool_PopConfirmed_def pr block_pending_def block_valid_def)
qed

sublocale block: draining_pool "block_pool ord" block_pending block_valid "\<lambda>_. True"
proof
  fix p p' h logs err l c out n
  assume v: "block_valid p"
  show "pp_Add (block_pool ord) h logs p = (None, p') \<Longrightarrow>
      block_valid p' \<and> block_pending p' = (block_pending p)(h \<mapsto> logs)"
    using v by (auto simp: block_pool_def BlockPendingPool_Add_def block_valid_def block_pending_def
        AList.update_conv' AList.distinct_update)
  show "pp_Add (block_pool ord) h logs p = (Some err, p') \<Longrightarrow>
      block_valid p' \<and> (block_pending p' = block_pending p \<or> block_pending p' = (block_pending p)(h \<mapsto> logs))"
    by (simp add: block_pool_def BlockPendingPool_Add_def)
  show "pp_PopConfirmed (block_pool ord) l c p = (Inr out, p') \<Longrightarrow>
      block_valid p' \<and> mset out = confirmed_logs l c (block_pending p)
      \<and> pending_logs (block_pending p) = mset out + pending_logs (block_pending p')
      \<and> (\<forall>h. \<not> confirmed l c h \<longrightarrow> block_pending p' h = block_pending p h)
      \<and> block_pending p' \<subseteq>\<^sub>m block_pending p"
    using PopConfirmed_correct [OF v, of l c "Inr out" p'] pending_logs_split [of "block_pending p" l c]
    by (auto simp: block_pool_def map_le_def restrict_map_def)
  show "pp_PopConfirmed (block_pool ord) l c p = (Inl err, p') \<Longrightarrow> block_valid p'"
    using PopConfirmed_correct [OF v, of l c "Inl err" p'] by (auto simp: block_pool_def)
  show "pp_Count (block_pool ord) p = (n, p') \<Longrightarrow> block_valid p' \<and> block_pending p' = block_pending p"
    using v by (auto simp: block_pool_def BlockPendingPool_Count_def)
  show "pp_PopConfirmed (block_pool ord) l c p = (Inr out, p') \<Longrightarrow>
      block_pending p' = (block_pending p) |` {h. \<not> confirmed l c h}"
    using PopConfirmed_correct [OF v, of l c "Inr out" p'] by (auto simp: block_pool_def)
qed

lemma block_pool_contract: "pending_pool (block_pool ord) block_pending block_valid (\<lambda>_. True)"
  by (rule block.pending_pool_axioms)

end

interpretation insertion_order: map_iteration "\<lambda>n xs. xs"
  by unfold_locales simp

text \<open>Without 64-bit overflow, being confirmed is being \<open>c\<close> blocks deep.\<close>

lemma confirmed_nat:
  "unat h + unat c < 2 ^ 64 \<Longrightarrow> confirmed l c h \<longleftrightarrow> unat h + unat c \<le> unat l"
  by (simp add: word_le_nat_alt unat_add_u64)

text \<open>The states an in-memory pool can be in.\<close>

inductive pool_reachable :: "iteration \<Rightarrow> BlockPendingPool \<Rightarrow> bool" for ord where
  new: "pool_reachable ord NewBlockPendingPool"
| add: "pool_reachable ord p \<Longrightarrow> BlockPendingPool_Add h logs p = (err, p') \<Longrightarrow> pool_reachable ord p'"
| pop: "pool_reachable ord p \<Longrightarrow> BlockPendingPool_PopConfirmed ord l c p = (res, p') \<Longrightarrow>
    pool_reachable ord p'"

lemma block_valid_New [simp]: "block_valid NewBlockPendingPool"
  by (simp add: block_valid_def NewBlockPendingPool_def)

lemma block_pending_New [simp]: "block_pending NewBlockPendingPool = Map.empty"
  by (simp add: block_pending_def NewBlockPendingPool_def)

lemma pool_reachable_valid:
  assumes "map_iteration ord" and "pool_reachable ord p"
  shows "block_valid p"
  using assms(2)
proof induction
  case new
  show ?case by simp
next
  case (add p h logs err p')
  then show ?case
    by (auto simp: BlockPendingPool_Add_def block_valid_def AList.distinct_update)
next
  case (pop p l c res p')
  then show ?case
    using map_iteration.PopConfirmed_correct [OF assms(1)] by blast
qed

section \<open>Properties\<close>

text \<open>
  C13. In every state an in-memory pool can reach, whatever order Go's map iteration takes,
  \<open>PopConfirmed\<close> succeeds, returns exactly the logs of the confirmed heights and removes exactly
  these heights, and \<open>Count\<close> is the number of heights that are pending.
\<close>

theorem BlockPendingPool_correct:
  assumes "map_iteration ord" and "pool_reachable ord p"
  shows "(\<exists>out p'. BlockPendingPool_PopConfirmed ord l c p = (Inr out, p')
      \<and> mset out = confirmed_logs l c (block_pending p)
      \<and> block_pending p' = (block_pending p) |` {h. \<not> confirmed l c h})
    \<and> BlockPendingPool_Count p = (Inr (int (card (dom (block_pending p)))), p)"
proof -
  have v: "block_valid p" using assms by (rule pool_reachable_valid)
  obtain res p' where pop: "BlockPendingPool_PopConfirmed ord l c p = (res, p')" by fastforce
  have "card (dom (block_pending p)) = length (data p)"
    using v distinct_card [of "map fst (data p)"]
    by (simp add: block_pending_def block_valid_def dom_map_of_conv_image_fst)
  with map_iteration.PopConfirmed_correct [OF assms(1) v pop] pop show ?thesis
    by (auto simp: BlockPendingPool_Count_def)
qed

theorem BlockPendingPool_correct_witness:
  "let p = \<lparr>data = [(100, [transfer_log ''01''])], seed = 0\<rparr> in
     (\<exists>out p'. BlockPendingPool_PopConfirmed (\<lambda>n xs. xs) 106 6 p = (Inr out, p')
      \<and> mset out = confirmed_logs 106 6 (block_pending p)
      \<and> block_pending p' = (block_pending p) |` {h. \<not> confirmed 106 6 h})
     \<and> BlockPendingPool_Count p = (Inr (int (card (dom (block_pending p)))), p)"
proof -
  have "pool_reachable (\<lambda>n xs. xs) \<lparr>data = [(100, [transfer_log ''01''])], seed = 0\<rparr>"
    by (rule pool_reachable.add [OF pool_reachable.new, of 100 "[transfer_log ''01'']"])
      (simp add: BlockPendingPool_Add_def NewBlockPendingPool_def)
  from BlockPendingPool_correct [OF insertion_order.map_iteration_axioms this]
  show ?thesis by (simp only: Let_def)
qed

end
