(* ===== verification/Semaphore.thy ===== *)
theory Semaphore
  imports Go_Prelude
begin

text \<open>
  \<open>RPCSemaphore\<close> of \<open>go/logfilter/logfilter.go\<close>: a buffered channel used as a counting
  semaphore, with the in-flight gauge it maintains. \<open>Acquire\<close> is Go's \<open>select\<close> between a done
  context and a free slot; when neither is ready it waits and looks again, which is a loop here.
  The second half is the concurrent use: many tasks, each with its own local semaphore, share
  one global semaphore; a step relation interleaves their acquisitions and releases.
\<close>

section \<open>Model\<close>

text \<open>
  What the code observes of its surroundings: whether the context is done, which ready case a
  \<open>select\<close> takes, the outcome of a wait (\<open>None\<close>: the timer fired, otherwise the context error),
  and the clock. Durations and times are in nanoseconds.
\<close>

record 'e Host =
  ctx_Err :: "'e \<Rightarrow> go_error option \<times> 'e"
  pick :: "'e \<Rightarrow> bool \<times> 'e"
  wait_for :: "int \<Rightarrow> 'e \<Rightarrow> go_error option \<times> 'e"
  time_Now :: "'e \<Rightarrow> int \<times> 'e"

text \<open>The channel: its capacity and the number of elements in it.\<close>

record RPCSemaphore =
  sem_cap :: nat
  sem_len :: nat

text \<open>\<open>make(chan struct{}, n)\<close> panics (\<open>None\<close>) on a negative size.\<close>

definition NewRPCSemaphore :: "int \<Rightarrow> RPCSemaphore option" where
  "NewRPCSemaphore maxConcurrent =
     (if maxConcurrent < 0 then None else Some \<lparr>sem_cap = nat maxConcurrent, sem_len = 0\<rparr>)"

definition has_room :: "RPCSemaphore \<Rightarrow> bool" where
  "has_room s \<longleftrightarrow> sem_len s < sem_cap s"

text \<open>The two channel operations and the gauge \<open>logfilter_rpc_concurrent_inflight\<close>.\<close>

definition take_slot :: "RPCSemaphore \<times> int \<Rightarrow> RPCSemaphore \<times> int" where
  "take_slot = (\<lambda>(s, gauge). (s\<lparr>sem_len := Suc (sem_len s)\<rparr>, gauge + 1))"

definition Acquire_body ::
  "'e Host \<Rightarrow> (RPCSemaphore \<times> int) \<times> 'e \<Rightarrow>
     ((RPCSemaphore \<times> int) \<times> 'e + go_error option \<times> (RPCSemaphore \<times> int) \<times> 'e) option" where
  "Acquire_body host = (\<lambda>(sg, e).
     let (done, e) = ctx_Err host e;
         (first, e) = pick host e
     in if done \<noteq> None \<and> (first \<or> \<not> has_room (fst sg)) then Some (Inr (done, sg, e))
        else if has_room (fst sg) then Some (Inr (None, take_slot sg, e))
        else Some (Inl (sg, e)))"

definition Acquire ::
  "'e Host \<Rightarrow> RPCSemaphore \<times> int \<Rightarrow> 'e \<Rightarrow> (go_error option \<times> (RPCSemaphore \<times> int) \<times> 'e) option" where
  "Acquire host sg e = go_loop (Acquire_body host) (sg, e)"

text \<open>\<open>Release\<close> receives from the channel; on an empty channel it would block (\<open>None\<close>).\<close>

definition Release :: "RPCSemaphore \<times> int \<Rightarrow> (RPCSemaphore \<times> int) option" where
  "Release = (\<lambda>(s, gauge).
     if sem_len s = 0 then None else Some (s\<lparr>sem_len := sem_len s - 1\<rparr>, gauge - 1))"

section \<open>Lemmas\<close>

lemma Acquire_room:
  assumes "has_room (fst sg)"
  shows "Acquire host sg e =
    (let (done, e) = ctx_Err host e; (first, e) = pick host e
     in if done \<noteq> None \<and> first then Some (done, sg, e) else Some (None, take_slot sg, e))"
  using assms unfolding Acquire_def
  by (subst go_loop.simps) (simp add: Acquire_body_def case_prod_beta Let_def)

lemma New_fresh_sem: "NewRPCSemaphore c = Some s \<Longrightarrow> sem_len s = 0 \<and> int (sem_cap s) = c"
  by (auto simp: NewRPCSemaphore_def split: if_splits)

lemma Release_take_slot [simp]: "Release (take_slot sg) = Some sg"
  by (simp add: Release_def take_slot_def case_prod_beta)

lemma Acquire_result:
  assumes "Acquire host sg e = Some (err, sg', e')"
  shows "case err of None \<Rightarrow> has_room (fst sg) \<and> sg' = take_slot sg | Some _ \<Rightarrow> sg' = sg"
proof -
  let ?Q = "\<lambda>(err, sg', e'). case err of None \<Rightarrow> has_room (fst sg) \<and> sg' = take_slot sg
      | Some _ \<Rightarrow> sg' = sg"
  from assms have "go_loop (Acquire_body host) (sg, e) = Some (err, sg', e')"
    by (simp add: Acquire_def)
  then have "?Q (err, sg', e')"
    by (rule go_loop_rule [where I = "\<lambda>(s, e). s = sg"])
      (auto simp: Acquire_body_def Let_def split: prod.splits if_splits option.splits)
  then show ?thesis by simp
qed

text \<open>The only error of \<open>Acquire\<close> is that of the done context.\<close>

lemma Acquire_error:
  assumes "Acquire host sg e = Some (Some err, sg', e')"
  shows "\<exists>e0. fst (ctx_Err host e0) = Some err"
proof -
  obtain s where "Acquire_body host s = Some (Inr (Some err, sg', e'))"
    using go_loop_exit_state [OF assms [unfolded Acquire_def]] by blast
  then show ?thesis
    by (auto simp: Acquire_body_def Let_def split: prod.splits if_splits) (metis fst_conv)+
qed

section \<open>Tasks sharing a semaphore\<close>

text \<open>
  A task in \<open>RunOnce\<close> first takes a slot of its local semaphore, then one of the shared one,
  makes its RPC and releases both; if the context is cancelled while it waits for the shared
  one, it releases its local slot.
\<close>

datatype phase = Idle | Holds_Local | Holds_Both

record system =
  shared :: RPCSemaphore
  local_sem :: "nat \<Rightarrow> RPCSemaphore"
  gauge :: int
  phase_of :: "nat \<Rightarrow> phase"

inductive sem_step :: "nat \<Rightarrow> system \<Rightarrow> system \<Rightarrow> bool" for n where
  acquire_local: "i < n \<Longrightarrow> phase_of s i = Idle \<Longrightarrow> has_room (local_sem s i) \<Longrightarrow>
    take_slot (local_sem s i, gauge s) = (l, g) \<Longrightarrow>
    sem_step n s (s\<lparr>local_sem := (local_sem s)(i := l), gauge := g,
      phase_of := (phase_of s)(i := Holds_Local)\<rparr>)"
| acquire_shared: "i < n \<Longrightarrow> phase_of s i = Holds_Local \<Longrightarrow> has_room (shared s) \<Longrightarrow>
    take_slot (shared s, gauge s) = (sh, g) \<Longrightarrow>
    sem_step n s (s\<lparr>shared := sh, gauge := g, phase_of := (phase_of s)(i := Holds_Both)\<rparr>)"
| cancelled: "i < n \<Longrightarrow> phase_of s i = Holds_Local \<Longrightarrow>
    Release (local_sem s i, gauge s) = Some (l, g) \<Longrightarrow>
    sem_step n s (s\<lparr>local_sem := (local_sem s)(i := l), gauge := g,
      phase_of := (phase_of s)(i := Idle)\<rparr>)"
| finished: "i < n \<Longrightarrow> phase_of s i = Holds_Both \<Longrightarrow>
    Release (shared s, gauge s) = Some (sh, g) \<Longrightarrow>
    Release (local_sem s i, g) = Some (l, g') \<Longrightarrow>
    sem_step n s (s\<lparr>shared := sh, local_sem := (local_sem s)(i := l), gauge := g',
      phase_of := (phase_of s)(i := Idle)\<rparr>)"

inductive sem_reach :: "nat \<Rightarrow> system \<Rightarrow> system \<Rightarrow> bool" for n s0 where
  start: "sem_reach n s0 s0"
| step: "sem_reach n s0 s \<Longrightarrow> sem_step n s t \<Longrightarrow> sem_reach n s0 t"

definition initial :: "RPCSemaphore \<Rightarrow> (nat \<Rightarrow> RPCSemaphore) \<Rightarrow> system" where
  "initial sh ls = \<lparr>shared = sh, local_sem = ls, gauge = 0, phase_of = (\<lambda>_. Idle)\<rparr>"

definition holders :: "nat \<Rightarrow> system \<Rightarrow> nat set" where
  "holders n s = {i. i < n \<and> phase_of s i = Holds_Both}"

definition local_holders :: "nat \<Rightarrow> system \<Rightarrow> nat set" where
  "local_holders n s = {i. i < n \<and> phase_of s i \<noteq> Idle}"

definition sem_inv :: "nat \<Rightarrow> system \<Rightarrow> bool" where
  "sem_inv n s \<longleftrightarrow>
     sem_len (shared s) = card (holders n s) \<and> sem_len (shared s) \<le> sem_cap (shared s)
     \<and> (\<forall>i < n. sem_len (local_sem s i) = (if phase_of s i = Idle then 0 else 1)
          \<and> sem_len (local_sem s i) \<le> sem_cap (local_sem s i))
     \<and> gauge s = int (card (holders n s) + card (local_holders n s))"

inductive_cases sem_stepE: "sem_step n s t"

lemma finite_holders [simp]: "finite (holders n s)" "finite (local_holders n s)"
  by (simp_all add: holders_def local_holders_def)

lemma holders_update:
  "phase_of t = (phase_of s)(i := p) \<Longrightarrow> i < n \<Longrightarrow>
     holders n t = (if p = Holds_Both then insert i (holders n s) else holders n s - {i})"
  "phase_of t = (phase_of s)(i := p) \<Longrightarrow> i < n \<Longrightarrow>
     local_holders n t = (if p = Idle then local_holders n s - {i} else insert i (local_holders n s))"
  by (auto simp: holders_def local_holders_def)

lemma holders_mem:
  "i < n \<Longrightarrow> i \<in> holders n s \<longleftrightarrow> phase_of s i = Holds_Both"
  "i < n \<Longrightarrow> i \<in> local_holders n s \<longleftrightarrow> phase_of s i \<noteq> Idle"
  by (simp_all add: holders_def local_holders_def)

lemmas sem_step_simps = sem_inv_def holders_update holders_mem take_slot_def Release_def has_room_def
  card_insert_if card_Diff_singleton_if

lemma sem_inv_step:
  assumes "sem_step n s t" and "sem_inv n s"
  shows "sem_inv n t"
  using assms
proof (induction rule: sem_step.induct)
  case (acquire_local i s l g)
  then show ?case by (auto simp: sem_step_simps insert_absorb)
next
  case (acquire_shared i s sh g)
  then show ?case by (auto simp: sem_step_simps)
next
  case (cancelled i s l g)
  then have "0 < card (local_holders n s)"
    by (metis card_gt_0_iff empty_iff finite_holders(2) holders_mem(2) phase.distinct(1))
  with cancelled show ?case by (auto simp: sem_step_simps split: if_splits)
next
  case (finished i s sh g l g')
  then have "0 < card (local_holders n s)" "0 < card (holders n s)"
    by (metis card_gt_0_iff empty_iff finite_holders holders_mem phase.distinct(3))+
  with finished show ?case by (auto simp: sem_step_simps split: if_splits)
qed

lemma sem_inv_initial:
  assumes "sem_len sh = 0" and "\<forall>i < n. sem_len (ls i) = 0"
  shows "sem_inv n (initial sh ls)"
  using assms by (simp add: sem_inv_def initial_def holders_def local_holders_def)

lemma sem_reach_inv: "sem_reach n s0 s \<Longrightarrow> sem_inv n s0 \<Longrightarrow> sem_inv n s"
  by (induction rule: sem_reach.induct) (auto intro: sem_inv_step)

lemma sem_reach_caps:
  "sem_reach n s0 s \<Longrightarrow> sem_cap (shared s) = sem_cap (shared s0)
     \<and> (\<forall>i. sem_cap (local_sem s i) = sem_cap (local_sem s0 i))"
proof (induction rule: sem_reach.induct)
  case (step s t)
  from step.hyps(2) step.IH show ?case
    by (induction rule: sem_step.induct) (auto simp: take_slot_def Release_def split: if_splits)
qed simp

section \<open>Properties\<close>

text \<open>
  However the tasks interleave, never more than the shared semaphore's capacity of them are
  inside an RPC, and the in-flight gauge counts two for each of these and one for each task that
  waits with its local slot: it is not the number of RPC requests in flight.
\<close>

theorem semaphore_bounds_rpcs:
  assumes "NewRPCSemaphore c = Some sh" and "\<forall>i < n. NewRPCSemaphore (k i) = Some (ls i)"
    and "sem_reach n (initial sh ls) s"
  shows "int (card (holders n s)) \<le> c
    \<and> gauge s = 2 * int (card (holders n s)) + int (card {i. i < n \<and> phase_of s i = Holds_Local})"
proof -
  have fresh: "sem_len sh = 0" "\<forall>i < n. sem_len (ls i) = 0" "int (sem_cap sh) = c"
    using assms(1,2) New_fresh_sem by blast+
  then have inv: "sem_inv n s" using sem_reach_inv [OF assms(3)] sem_inv_initial by blast
  have "sem_cap (shared s) = sem_cap sh"
    using sem_reach_caps [OF assms(3)] by (simp add: initial_def)
  moreover have "local_holders n s = holders n s \<union> {i. i < n \<and> phase_of s i = Holds_Local}"
    by (auto simp: local_holders_def holders_def) (metis phase.exhaust)
  then have "card (local_holders n s)
      = card (holders n s) + card {i. i < n \<and> phase_of s i = Holds_Local}"
    by (simp add: holders_def card_Un_disjoint disjoint_iff)
  ultimately show ?thesis
    using inv fresh(3) by (auto simp: sem_inv_def)
qed

text \<open>Two tasks, one slot: the first one is inside its RPC, the second holds its local slot.\<close>

definition sample_sem :: RPCSemaphore where
  "sample_sem = \<lparr>sem_cap = 1, sem_len = 0\<rparr>"

definition sample_system :: system where
  "sample_system = \<lparr>shared = \<lparr>sem_cap = 1, sem_len = 1\<rparr>,
     local_sem = (\<lambda>_. sample_sem)(0 := \<lparr>sem_cap = 1, sem_len = 1\<rparr>, 1 := \<lparr>sem_cap = 1, sem_len = 1\<rparr>),
     gauge = 3, phase_of = (\<lambda>_. Idle)(0 := Holds_Both, 1 := Holds_Local)\<rparr>"

lemma sample_system_reach: "sem_reach 2 (initial sample_sem (\<lambda>_. sample_sem)) sample_system"
proof -
  let ?full = "\<lparr>sem_cap = 1, sem_len = 1\<rparr> :: RPCSemaphore" and ?i0 = "initial sample_sem (\<lambda>_. sample_sem)"
  let ?s1 = "?i0\<lparr>local_sem := (\<lambda>_. sample_sem)(0 := ?full), gauge := 1,
      phase_of := (\<lambda>_. Idle)(0 := Holds_Local)\<rparr>"
  let ?s2 = "?s1\<lparr>shared := ?full, gauge := 2, phase_of := (phase_of ?s1)(0 := Holds_Both)\<rparr>"
  have "sem_step 2 ?i0 (?i0\<lparr>local_sem := (local_sem ?i0)(0 := ?full), gauge := 1,
      phase_of := (phase_of ?i0)(0 := Holds_Local)\<rparr>)"
    by (rule acquire_local) (simp_all add: initial_def has_room_def take_slot_def sample_sem_def)
  then have 1: "sem_step 2 ?i0 ?s1" by (simp add: initial_def)
  have 2: "sem_step 2 ?s1 ?s2"
    by (rule acquire_shared) (simp_all add: initial_def has_room_def take_slot_def sample_sem_def)
  have "sem_step 2 ?s2 (?s2\<lparr>local_sem := (local_sem ?s2)(1 := ?full), gauge := 3,
      phase_of := (phase_of ?s2)(1 := Holds_Local)\<rparr>)"
    by (rule acquire_local) (simp_all add: initial_def has_room_def take_slot_def sample_sem_def)
  then have 3: "sem_step 2 ?s2 sample_system"
    by (simp add: initial_def sample_system_def fun_upd_twist)
  from 1 2 3 show ?thesis by (blast intro: sem_reach.intros)
qed

theorem semaphore_bounds_rpcs_witness:
  "int (card (holders 2 sample_system)) \<le> 1
    \<and> gauge sample_system = 2 * int (card (holders 2 sample_system))
        + int (card {i. i < 2 \<and> phase_of sample_system i = Holds_Local})"
  by (rule semaphore_bounds_rpcs [OF _ _ sample_system_reach, of _ "\<lambda>_. 1"])
    (simp_all add: NewRPCSemaphore_def sample_sem_def)

text \<open>
  Taking the local slot before the shared one cannot deadlock: with at least one slot in
  every semaphore, some task can always take the slot it waits for or finish its RPC.
\<close>

theorem semaphore_no_deadlock:
  assumes "0 < n" and "sem_len sh = 0" and "\<forall>i < n. sem_len (ls i) = 0"
    and "0 < sem_cap sh" and "\<forall>i < n. 0 < sem_cap (ls i)" and "sem_reach n (initial sh ls) s"
  shows "\<exists>i < n. phase_of s i = Idle \<and> has_room (local_sem s i)
    \<or> phase_of s i = Holds_Local \<and> has_room (shared s) \<or> phase_of s i = Holds_Both"
proof -
  have inv: "sem_inv n s"
    using sem_reach_inv [OF assms(6)] sem_inv_initial assms(2,3) by blast
  have caps: "sem_cap (shared s) = sem_cap sh" "\<forall>i. sem_cap (local_sem s i) = sem_cap (ls i)"
    using sem_reach_caps [OF assms(6)] by (simp_all add: initial_def)
  show ?thesis
  proof (cases "\<exists>i < n. phase_of s i \<noteq> Holds_Local")
    case True
    then show ?thesis
      using inv caps assms(5) by (auto simp: sem_inv_def has_room_def) (metis phase.exhaust)
  next
    case False
    then have "holders n s = {}" by (auto simp: holders_def)
    with inv caps(1) assms(4) have "has_room (shared s)" by (simp add: sem_inv_def has_room_def)
    with False assms(1) show ?thesis by blast
  qed
qed

theorem semaphore_no_deadlock_witness:
  "\<exists>i < 2. phase_of sample_system i = Idle \<and> has_room (local_sem sample_system i)
    \<or> phase_of sample_system i = Holds_Local \<and> has_room (shared sample_system)
    \<or> phase_of sample_system i = Holds_Both"
  by (rule semaphore_no_deadlock [OF _ _ _ _ _ sample_system_reach])
    (simp_all add: sample_sem_def)

text \<open>
  \<open>Acquire\<close> with a free slot returns at once, with the slot or with the error of a done
  context; on a full semaphore it does not return while the context stays alive; and in every
  case an error leaves the semaphore and the gauge as they were.
\<close>

theorem Acquire_correct:
  "(has_room (fst sg) \<longrightarrow> Acquire host sg e \<noteq> None)
    \<and> (\<not> has_room (fst sg) \<and> (\<forall>e. fst (ctx_Err host e) = None) \<longrightarrow> Acquire host sg e = None)
    \<and> (\<forall>err sg' e'. Acquire host sg e = Some (err, sg', e') \<longrightarrow>
        sg' = (if err = None then take_slot sg else sg))"
proof (intro conjI impI allI)
  show "has_room (fst sg) \<Longrightarrow> Acquire host sg e \<noteq> None"
    by (simp add: Acquire_room case_prod_beta Let_def)
next
  assume full: "\<not> has_room (fst sg) \<and> (\<forall>e. fst (ctx_Err host e) = None)"
  show "Acquire host sg e = None"
    unfolding Acquire_def
    by (rule go_loop_diverges [where I = "\<lambda>(s, e). s = sg"])
      (use full in \<open>auto simp: Acquire_body_def Let_def case_prod_beta\<close>)
next
  fix err sg' e'
  assume "Acquire host sg e = Some (err, sg', e')"
  then show "sg' = (if err = None then take_slot sg else sg)"
    by (auto dest: Acquire_result split: option.splits)
qed

definition idle_host :: "unit Host" where
  "idle_host = \<lparr>ctx_Err = (\<lambda>e. (None, e)), pick = (\<lambda>e. (False, e)),
     wait_for = (\<lambda>d e. (None, e)), time_Now = (\<lambda>e. (0, e))\<rparr>"

theorem Acquire_correct_witness:
  "Acquire idle_host (sample_sem, 0) () \<noteq> None
    \<and> Acquire idle_host (\<lparr>sem_cap = 1, sem_len = 1\<rparr>, 1) () = None"
  using Acquire_correct [of "(sample_sem, 0)" idle_host "()"]
    Acquire_correct [of "(\<lparr>sem_cap = 1, sem_len = 1\<rparr>, 1)" idle_host "()"]
  by (simp add: has_room_def sample_sem_def idle_host_def)

end
