(* ===== verification/Checkpoint.thy ===== *)
theory Checkpoint
  imports Go_Text Semaphore
begin

text \<open>
  The checkpoint stores of \<open>go/logfilter/logfilter.go\<close>: in memory, as a decimal text file, and
  in Redis. The disk and the Redis server are outside the program: the operations the code calls
  are records of functions on an environment, and what the code relies on about them is stated
  as the predicates \<open>disk_reads_back\<close> and \<open>redis_reads_back\<close>.

  The locale \<open>checkpoint_store\<close> is what the log filter relies on: a successful load after a
  successful save returns the saved block.
\<close>

section \<open>Model\<close>

record 'e CheckpointStore =
  cs_Save :: "u64 \<Rightarrow> 'e \<Rightarrow> go_error option \<times> 'e"
  cs_Load :: "'e \<Rightarrow> u64 go_result \<times> 'e"

text \<open>The in-memory store is its value.\<close>

record MemoryCheckpointStore =
  mem_val :: u64

definition NewMemoryCheckpointStore :: "u64 \<Rightarrow> MemoryCheckpointStore" where
  "NewMemoryCheckpointStore initVal = \<lparr>mem_val = initVal\<rparr>"

definition MemoryCheckpointStore_Save ::
  "u64 \<Rightarrow> MemoryCheckpointStore \<Rightarrow> go_error option \<times> MemoryCheckpointStore" where
  "MemoryCheckpointStore_Save block m = (None, m\<lparr>mem_val := block\<rparr>)"

definition MemoryCheckpointStore_Load ::
  "MemoryCheckpointStore \<Rightarrow> u64 go_result \<times> MemoryCheckpointStore" where
  "MemoryCheckpointStore_Load m = (Inr (mem_val m), m)"

text \<open>\<open>os.WriteFile\<close> and \<open>os.ReadFile\<close> of a named file.\<close>

record 'e Disk =
  WriteFile :: "string \<Rightarrow> string \<Rightarrow> 'e \<Rightarrow> go_error option \<times> 'e"
  ReadFile :: "string \<Rightarrow> 'e \<Rightarrow> string go_result \<times> 'e"

record FileCheckpointStore =
  fcs_path :: string

definition FileCheckpointStore_Save ::
  "'e Host \<Rightarrow> 'e Disk \<Rightarrow> FileCheckpointStore \<Rightarrow> u64 \<Rightarrow> 'e \<Rightarrow> go_error option \<times> 'e" where
  "FileCheckpointStore_Save host disk f block e =
     (case ctx_Err host e of
        (Some err, e) \<Rightarrow> (Some err, e)
      | (None, e) \<Rightarrow> WriteFile disk (fcs_path f) (FormatUint block) e)"

definition FileCheckpointStore_Load ::
  "'e Host \<Rightarrow> 'e Disk \<Rightarrow> FileCheckpointStore \<Rightarrow> 'e \<Rightarrow> u64 go_result \<times> 'e" where
  "FileCheckpointStore_Load host disk f e =
     (case ctx_Err host e of
        (Some err, e) \<Rightarrow> (Inl err, e)
      | (None, e) \<Rightarrow>
          (case ReadFile disk (fcs_path f) e of
             (Inl err, e) \<Rightarrow>
               if errors_Is (Some err) (Some Os_ErrNotExist) then (Inr 0, e) else (Inl err, e)
           | (Inr txt, e) \<Rightarrow> (ParseUint txt, e)))"

text \<open>The two commands of the Redis client the store uses.\<close>

record 'e RedisKV =
  rdb_SetUint :: "string \<Rightarrow> u64 \<Rightarrow> 'e \<Rightarrow> go_error option \<times> 'e"
  rdb_GetUint64 :: "string \<Rightarrow> 'e \<Rightarrow> u64 go_result \<times> 'e"

record RedisCheckpointStore =
  rcs_key :: string

definition RedisCheckpointStore_Save ::
  "'e RedisKV \<Rightarrow> RedisCheckpointStore \<Rightarrow> u64 \<Rightarrow> 'e \<Rightarrow> go_error option \<times> 'e" where
  "RedisCheckpointStore_Save rdb r block e = rdb_SetUint rdb (rcs_key r) block e"

definition RedisCheckpointStore_Load ::
  "'e RedisKV \<Rightarrow> RedisCheckpointStore \<Rightarrow> 'e \<Rightarrow> u64 go_result \<times> 'e" where
  "RedisCheckpointStore_Load rdb r e =
     (case rdb_GetUint64 rdb (rcs_key r) e of
        (Inl err, e) \<Rightarrow>
          if errors_Is (Some err) (Some Redis_Nil) then (Inr 0, e) else (Inl err, e)
      | (Inr v, e) \<Rightarrow> (Inr v, e))"

section \<open>What the code relies on\<close>

text \<open>
  A successful read of a file returns what the last successful write stored; between the two the
  context may be polled, which does not touch the disk.
\<close>

definition disk_reads_back :: "'e Host \<Rightarrow> 'e Disk \<Rightarrow> bool" where
  "disk_reads_back host disk \<longleftrightarrow>
     (\<forall>p c e e1 e2 res e3. WriteFile disk p c e = (None, e1) \<and> snd (ctx_Err host e1) = e2
        \<and> ReadFile disk p e2 = (res, e3) \<longrightarrow> res = Inr c \<or> (\<exists>err. res = Inl err \<and> \<not> errors_Is (Some err) (Some Os_ErrNotExist)))"

definition redis_reads_back :: "'e RedisKV \<Rightarrow> bool" where
  "redis_reads_back rdb \<longleftrightarrow>
     (\<forall>k v e e1 res e2. rdb_SetUint rdb k v e = (None, e1) \<and> rdb_GetUint64 rdb k e1 = (res, e2)
        \<longrightarrow> res = Inr v \<or> (\<exists>err. res = Inl err \<and> \<not> errors_Is (Some err) (Some Redis_Nil)))"

section \<open>The contract of a checkpoint store\<close>

locale checkpoint_store =
  fixes save :: "u64 \<Rightarrow> 's \<Rightarrow> go_error option \<times> 's"
    and load :: "'s \<Rightarrow> u64 go_result \<times> 's"
  assumes load_after_save:
    "save b s = (None, s1) \<Longrightarrow> load s1 = (Inr v, s2) \<Longrightarrow> v = b"
begin

text \<open>The last of two saves wins.\<close>

lemma save_overwrites:
  "save a s = (err, s1) \<Longrightarrow> save b s1 = (None, s2) \<Longrightarrow> load s2 = (Inr v, s3) \<Longrightarrow> v = b"
  by (rule load_after_save)

end

interpretation memory_store: checkpoint_store MemoryCheckpointStore_Save MemoryCheckpointStore_Load
  by unfold_locales (simp add: MemoryCheckpointStore_Save_def MemoryCheckpointStore_Load_def)

lemma file_store_law:
  assumes "disk_reads_back host disk" and "FileCheckpointStore_Save host disk f b e = (None, e1)"
    and "FileCheckpointStore_Load host disk f e1 = (Inr v, e2)"
  shows "v = b"
proof -
  obtain e' where w: "WriteFile disk (fcs_path f) (FormatUint b) e' = (None, e1)"
    using assms(2) by (auto simp: FileCheckpointStore_Save_def split: prod.splits option.splits)
  obtain res e3 where r: "ReadFile disk (fcs_path f) (snd (ctx_Err host e1)) = (res, e3)"
    by fastforce
  have "res = Inr (FormatUint b)
      \<or> (\<exists>err. res = Inl err \<and> \<not> errors_Is (Some err) (Some Os_ErrNotExist))"
    using assms(1) w r unfolding disk_reads_back_def by blast
  with assms(3) r show ?thesis
    by (auto simp: FileCheckpointStore_Load_def split: prod.splits option.splits if_splits)
qed

text \<open>The two external services, as locales that make the stores instances of the contract.\<close>

locale disk_service =
  fixes host :: "'e Host" and disk :: "'e Disk" and f :: FileCheckpointStore
  assumes reads_back: "disk_reads_back host disk"
begin

sublocale file_store: checkpoint_store
  "FileCheckpointStore_Save host disk f" "FileCheckpointStore_Load host disk f"
  by unfold_locales (rule file_store_law [OF reads_back])

lemmas file_roundtrip = file_store.load_after_save

end

locale redis_service =
  fixes rdb :: "'e RedisKV" and r :: RedisCheckpointStore
  assumes reads_back: "redis_reads_back rdb"
begin

sublocale redis_store: checkpoint_store "RedisCheckpointStore_Save rdb r" "RedisCheckpointStore_Load rdb r"
proof
  fix b s s1 v s2
  assume "RedisCheckpointStore_Save rdb r b s = (None, s1)"
    and load: "RedisCheckpointStore_Load rdb r s1 = (Inr v, s2)"
  then have set: "rdb_SetUint rdb (rcs_key r) b s = (None, s1)"
    by (simp add: RedisCheckpointStore_Save_def)
  obtain res e2 where get: "rdb_GetUint64 rdb (rcs_key r) s1 = (res, e2)" by fastforce
  have "res = Inr b \<or> (\<exists>err. res = Inl err \<and> \<not> errors_Is (Some err) (Some Redis_Nil))"
    using reads_back set get unfolding redis_reads_back_def by blast
  with load get show "v = b"
    by (auto simp: RedisCheckpointStore_Load_def split: if_splits)
qed

lemmas redis_roundtrip = redis_store.load_after_save

end

section \<open>Instances\<close>

text \<open>A disk that keeps the files in a map, and a Redis server that keeps its keys in one.\<close>

type_synonym files = "string \<rightharpoonup> string"

definition plain_host :: "'e Host" where
  "plain_host = \<lparr>ctx_Err = (\<lambda>e. (None, e)), pick = (\<lambda>e. (False, e)),
     wait_for = (\<lambda>d e. (None, e)), time_Now = (\<lambda>e. (0, e))\<rparr>"

definition plain_disk :: "files Disk" where
  "plain_disk = \<lparr>WriteFile = (\<lambda>p c fs. (None, fs(p \<mapsto> c))),
     ReadFile = (\<lambda>p fs. (case fs p of None \<Rightarrow> Inl Os_ErrNotExist | Some c \<Rightarrow> Inr c, fs))\<rparr>"

definition plain_redis :: "(string \<rightharpoonup> u64) RedisKV" where
  "plain_redis = \<lparr>rdb_SetUint = (\<lambda>k v m. (None, m(k \<mapsto> v))),
     rdb_GetUint64 = (\<lambda>k m. (case m k of None \<Rightarrow> Inl Redis_Nil | Some v \<Rightarrow> Inr v, m))\<rparr>"

lemma plain_disk_reads_back: "disk_reads_back plain_host plain_disk"
  by (auto simp: disk_reads_back_def plain_disk_def plain_host_def)

lemma plain_redis_reads_back: "redis_reads_back plain_redis"
  by (auto simp: redis_reads_back_def plain_redis_def)

interpretation text_file: disk_service plain_host plain_disk "\<lparr>fcs_path = ''checkpoint''\<rparr>"
  by unfold_locales (rule plain_disk_reads_back)

interpretation redis_key: redis_service plain_redis "\<lparr>rcs_key = ''checkpoint''\<rparr>"
  by unfold_locales (rule plain_redis_reads_back)

section \<open>Properties\<close>



end
