(* ===== verification/Rpc.thy ===== *)
theory Rpc
  imports Log_Records Semaphore
begin

text \<open>
  The RPC side of \<open>go/logfilter/logfilter.go\<close>: the \<open>RPCQuerier\<close> interface, the error test that
  triggers batch shrinking, and \<open>RealRPC\<close>, which wraps a go-ethereum client with retries and
  exponential backoff. The client and go-ethereum's hex conversions are parameters
  (\<open>EthClient\<close>, \<open>EthCommon\<close>). The retry loop is one definition used by both operations, as the
  two Go loops are the same up to the call and the message.
\<close>

section \<open>Model\<close>

record 'e RPCQuerier =
  rpc_BlockNumber :: "'e \<Rightarrow> u64 go_result \<times> 'e"
  rpc_EthGetLogs ::
    "u64 \<Rightarrow> u64 \<Rightarrow> string list \<Rightarrow> string list list \<Rightarrow> 'e \<Rightarrow> LogResult list go_result \<times> 'e"

definition IsRateLimitOrRangeErr :: "go_error option \<Rightarrow> bool" where
  "IsRateLimitOrRangeErr err =
     (case err of
        None \<Rightarrow> False
      | Some e \<Rightarrow>
          (let msg = error_msg e in
           msg = ''block range too large'' \<or> msg = ''query timeout'' \<or> msg = ''rate limit exceeded''))"

text \<open>The go-ethereum values the code passes on: addresses and hashes are byte strings.\<close>

record FilterQuery =
  fq_FromBlock :: int
  fq_ToBlock :: int
  fq_Addresses :: "bytes list"
  fq_Topics :: "bytes list list"

record EthLog =
  el_BlockNumber :: u64
  el_TxHash :: bytes
  el_Address :: bytes
  el_Topics :: "bytes list"
  el_Data :: bytes

record EthCommon =
  HexToAddress :: "string \<Rightarrow> bytes"
  HexToHash :: "string \<Rightarrow> bytes"
  Hash_Hex :: "bytes \<Rightarrow> string"
  Address_Hex :: "bytes \<Rightarrow> string"
  Bytes2Hex :: "bytes \<Rightarrow> string"

record 'e EthClient =
  ec_BlockNumber :: "'e \<Rightarrow> u64 go_result \<times> 'e"
  ec_FilterLogs :: "FilterQuery \<Rightarrow> 'e \<Rightarrow> EthLog list go_result \<times> 'e"
  ec_Close :: "'e \<Rightarrow> 'e"

record 'e RealRPC =
  client :: "'e EthClient"
  maxRetries :: int
  retryBaseWait :: int

definition WithMaxRetries :: "int \<Rightarrow> 'e RealRPC \<Rightarrow> 'e RealRPC" where
  "WithMaxRetries n r = r\<lparr>maxRetries := n\<rparr>"

definition WithRetryBaseWait :: "int \<Rightarrow> 'e RealRPC \<Rightarrow> 'e RealRPC" where
  "WithRetryBaseWait d r = r\<lparr>retryBaseWait := d\<rparr>"

text \<open>\<open>dial\<close> is \<open>ethclient.Dial\<close>; 500 ms in nanoseconds.\<close>

definition NewRealRPC ::
  "(string \<Rightarrow> 'e EthClient go_result) \<Rightarrow> string \<Rightarrow> ('e RealRPC \<Rightarrow> 'e RealRPC) list \<Rightarrow> 'e RealRPC go_result" where
  "NewRealRPC dial rpcEndpoint opts =
     (case dial rpcEndpoint of
        Inl err \<Rightarrow> Inl err
      | Inr c \<Rightarrow> Inr (fold (\<lambda>opt r. opt r) opts
          \<lparr>client = c, maxRetries = 3, retryBaseWait = 500 * 1000000\<rparr>))"

definition RealRPC_Close :: "'e RealRPC \<Rightarrow> 'e \<Rightarrow> 'e" where
  "RealRPC_Close r e = ec_Close (client r) e"

text \<open>
  The world of a retried call: the environment, the retry metric, and the observations the
  theorems need (the number of calls made and the timer durations asked for).
\<close>

record 'e rworld =
  renv :: 'e
  rpcRetriesTotal :: nat
  calls_made :: nat
  waits :: "int list"

text \<open>\<open>r.retryBaseWait * (1 << attempt)\<close> in 64-bit two's complement.\<close>

definition retry_wait :: "int \<Rightarrow> int \<Rightarrow> int" where
  "retry_wait base attempt = sint (word_of_int base * push_bit (nat attempt) 1 :: 64 word)"

type_synonym 'e retry_state = "int \<times> go_error option \<times> 'e rworld"

definition retry_body ::
  "'e Host \<Rightarrow> ('e \<Rightarrow> 'v go_result \<times> 'e) \<Rightarrow> string \<Rightarrow> 'e RealRPC \<Rightarrow>
     'e retry_state \<Rightarrow> ('e retry_state + 'v go_result \<times> 'e rworld) option" where
  "retry_body host call label r = (\<lambda>(attempt, lastErr, w).
     if attempt \<le> maxRetries r then
       (let (res, e) = call (renv w);
            w = w\<lparr>renv := e, calls_made := Suc (calls_made w)\<rparr>
        in case res of
             Inr v \<Rightarrow> Some (Inr (Inr v, w))
           | Inl err \<Rightarrow>
               (let w = w\<lparr>rpcRetriesTotal := Suc (rpcRetriesTotal w)\<rparr> in
                if attempt = maxRetries r
                then Some (Inr (Inl (Err_Wrap label err []), w))
                else
                  let d = retry_wait (retryBaseWait r) attempt;
                      (done, e) = wait_for host d (renv w);
                      w = w\<lparr>renv := e, waits := waits w @ [d]\<rparr>
                  in case done of
                       Some cerr \<Rightarrow> Some (Inr (Inl cerr, w))
                     | None \<Rightarrow> Some (Inl (attempt + 1, Some err, w))))
     else Some (Inr (Inl (case lastErr of
            None \<Rightarrow> Err_New (label @ ''%!w(<nil>)'')
          | Some err \<Rightarrow> Err_Wrap label err []), w)))"

definition RealRPC_BlockNumber ::
  "'e Host \<Rightarrow> 'e RealRPC \<Rightarrow> 'e rworld \<Rightarrow> (u64 go_result \<times> 'e rworld) option" where
  "RealRPC_BlockNumber host r w =
     go_loop (retry_body host (ec_BlockNumber (client r)) ''block number retries exhausted: '' r)
       (0, None, w)"

text \<open>\<open>fetchRawLogs\<close>: build the query, ask the client, convert the logs.\<close>

definition build_query :: "EthCommon \<Rightarrow> u64 \<Rightarrow> u64 \<Rightarrow> string list \<Rightarrow> string list list \<Rightarrow> FilterQuery" where
  "build_query C fromBlock toBlock addresses topics =
     \<lparr>fq_FromBlock = uint fromBlock, fq_ToBlock = uint toBlock,
      fq_Addresses = (if 0 < length addresses then map (HexToAddress C) addresses else []),
      fq_Topics = (if 0 < length topics then map (map (HexToHash C)) topics else [])\<rparr>"

definition convert_log :: "EthCommon \<Rightarrow> EthLog \<Rightarrow> LogResult" where
  "convert_log C l =
     \<lparr>lr_BlockNumber = FormatUint (el_BlockNumber l), lr_BlockNumUint = el_BlockNumber l,
      lr_TransactionHash = Hash_Hex C (el_TxHash l), lr_Address = Address_Hex C (el_Address l),
      lr_Topics = map (Hash_Hex C) (el_Topics l), lr_Data = Bytes2Hex C (el_Data l)\<rparr>"

definition fetchRawLogs ::
  "EthCommon \<Rightarrow> 'e RealRPC \<Rightarrow> u64 \<Rightarrow> u64 \<Rightarrow> string list \<Rightarrow> string list list \<Rightarrow> 'e
     \<Rightarrow> LogResult list go_result \<times> 'e" where
  "fetchRawLogs C r fromBlock toBlock addresses topics e =
     (case ec_FilterLogs (client r) (build_query C fromBlock toBlock addresses topics) e of
        (Inl err, e) \<Rightarrow> (Inl err, e)
      | (Inr raw, e) \<Rightarrow> (Inr (map (convert_log C) raw), e))"

definition RealRPC_EthGetLogs ::
  "'e Host \<Rightarrow> EthCommon \<Rightarrow> 'e RealRPC \<Rightarrow> u64 \<Rightarrow> u64 \<Rightarrow> string list \<Rightarrow> string list list \<Rightarrow> 'e rworld
     \<Rightarrow> (LogResult list go_result \<times> 'e rworld) option" where
  "RealRPC_EthGetLogs host C r fromBlock toBlock addresses topics w =
     go_loop (retry_body host (fetchRawLogs C r fromBlock toBlock addresses topics)
         ''get logs retries exhausted: '' r)
       (0, None, w)"

section \<open>Lemmas\<close>

text \<open>The error of a done context is one of the two sentinels of package \<open>context\<close>.\<close>

definition context_errors :: "'e Host \<Rightarrow> bool" where
  "context_errors host \<longleftrightarrow>
     (\<forall>d e err. fst (wait_for host d e) = Some err \<longrightarrow> err = Context_Canceled \<or> err = Context_DeadlineExceeded)"

lemma context_errorsD:
  "context_errors host \<Longrightarrow> wait_for host d e = (Some err, e') \<Longrightarrow>
     err = Context_Canceled \<or> err = Context_DeadlineExceeded"
  unfolding context_errors_def by (metis fst_conv)

lemma retry_terminates:
  fixes host :: "'e Host" and call :: "'e \<Rightarrow> 'v go_result \<times> 'e"
  shows "\<exists>res. go_loop (retry_body host call label r) (a, le, w) = Some res"
proof (rule go_loop_total [where I = "\<lambda>_. True" and m = "\<lambda>(a, le, w). nat (maxRetries r + 1 - a)"])
  fix s
  show "(\<exists>res. retry_body host call label r s = Some (Inr res)) \<or>
    (\<exists>s'. retry_body host call label r s = Some (Inl s') \<and> True \<and>
      (case s' of (a, le, w) \<Rightarrow> nat (maxRetries r + 1 - a))
        < (case s of (a, le, w) \<Rightarrow> nat (maxRetries r + 1 - a)))"
    by (auto simp: retry_body_def Let_def split: prod.split sum.split option.split)
qed simp

text \<open>
  The bookkeeping of the retry loop: after \<open>a\<close> failed attempts there were \<open>a\<close> calls, \<open>a\<close> counted
  retries and \<open>a\<close> waits, each twice as long as the one before.
\<close>

definition retry_inv :: "'e RealRPC \<Rightarrow> 'e rworld \<Rightarrow> 'e retry_state \<Rightarrow> bool" where
  "retry_inv r w0 = (\<lambda>(a, le, w).
     0 \<le> a \<and> a \<le> max 0 (maxRetries r) \<and> (le = None \<longleftrightarrow> a = 0)
     \<and> calls_made w = calls_made w0 + nat a
     \<and> rpcRetriesTotal w = rpcRetriesTotal w0 + nat a
     \<and> waits w = waits w0 @ map (\<lambda>i. retry_wait (retryBaseWait r) (int i)) [0..<nat a])"

lemma retry_inv_start: "retry_inv r w (0, None, w)"
  by (simp add: retry_inv_def)

lemma retry_inv_step:
  assumes "retry_inv r w0 s" and "retry_body host call label r s = Some (Inl s')"
  shows "retry_inv r w0 s'"
proof -
  obtain a le w where s: "s = (a, le, w)" by (cases s)
  then have a: "0 \<le> a" using assms(1) by (simp add: retry_inv_def)
  then have "nat (a + 1) = Suc (nat a)" "int (nat a) = a" by auto
  with assms show ?thesis
    by (auto simp: s retry_inv_def retry_body_def Let_def
        split: if_splits prod.splits sum.splits option.splits)
qed

text \<open>What is known when the retry loop returns.\<close>

definition retry_post :: "'e RealRPC \<Rightarrow> 'e rworld \<Rightarrow> 'v go_result \<times> 'e rworld \<Rightarrow> bool" where
  "retry_post r w0 = (\<lambda>(res, w).
     \<exists>n k. calls_made w = calls_made w0 + n \<and> 1 \<le> n \<and> int n \<le> maxRetries r + 1
       \<and> rpcRetriesTotal w = rpcRetriesTotal w0 + (case res of Inr _ \<Rightarrow> n - 1 | Inl _ \<Rightarrow> n)
       \<and> k \<le> n \<and> int k \<le> maxRetries r
       \<and> waits w = waits w0 @ map (\<lambda>i. retry_wait (retryBaseWait r) (int i)) [0..<k])"

lemma retry_postI:
  assumes "calls_made w = calls_made w0 + n" "1 \<le> n" "int n \<le> maxRetries r + 1"
    "rpcRetriesTotal w = rpcRetriesTotal w0 + (case res of Inr _ \<Rightarrow> n - 1 | Inl _ \<Rightarrow> n)"
    "k \<le> n" "int k \<le> maxRetries r"
    "waits w = waits w0 @ map (\<lambda>i. retry_wait (retryBaseWait r) (int i)) [0..<k]"
  shows "retry_post r w0 (res, w)"
  using assms unfolding retry_post_def by blast

lemma retry_exit:
  assumes "0 \<le> maxRetries r" and "retry_inv r w0 s"
    and "retry_body host call label r s = Some (Inr out)"
  shows "retry_post r w0 out"
proof -
  obtain a le w where s: "s = (a, le, w)" by (cases s)
  have a: "0 \<le> a" "a \<le> maxRetries r" using assms(1,2) by (auto simp: s retry_inv_def)
  then obtain m where m: "a = int m" using zero_le_imp_eq_int by blast
  have inv: "calls_made w = calls_made w0 + m" "rpcRetriesTotal w = rpcRetriesTotal w0 + m"
      "waits w = waits w0 @ map (\<lambda>i. retry_wait (retryBaseWait r) (int i)) [0..<m]"
    using assms(2) by (auto simp: s m retry_inv_def)
  obtain res e where c: "call (renv w) = (res, e)" by fastforce
  show ?thesis
  proof (cases res)
    case (Inr v)
    with assms(3) a c m inv show ?thesis
      by (auto simp: s retry_body_def Let_def intro!: retry_postI [of _ _ "Suc m" _ _ m])
  next
    case (Inl err)
    obtain dn e2 where wt: "wait_for host (retry_wait (retryBaseWait r) a) e = (dn, e2)" by fastforce
    show ?thesis
    proof (cases "a = maxRetries r")
      case True
      with Inl assms(3) a c m inv show ?thesis
        by (auto simp: s retry_body_def Let_def intro!: retry_postI [of _ _ "Suc m" _ _ m])
    next
      case False
      with Inl assms(3) a c wt m inv show ?thesis
        by (cases dn)
          (auto simp: s retry_body_def Let_def intro!: retry_postI [of _ _ "Suc m" _ _ "Suc m"])
    qed
  qed
qed

lemma retry_correct:
  assumes "0 \<le> maxRetries r"
    and "go_loop (retry_body host call label r) (0, None, w) = Some out"
  shows "retry_post r w out"
  using assms(2) retry_inv_start retry_inv_step retry_exit [OF assms(1)] by (rule go_loop_rule)

text \<open>An error of the retry loop is a context error or wrapped with the loop's message.\<close>

definition labelled_error :: "string \<Rightarrow> 'v go_result \<times> 'w \<Rightarrow> bool" where
  "labelled_error label out \<longleftrightarrow> (\<forall>err. fst out = Inl err \<longrightarrow>
     err = Context_Canceled \<or> err = Context_DeadlineExceeded \<or> (\<exists>rest. error_msg err = label @ rest))"

lemma retry_body_error:
  "context_errors host \<Longrightarrow> retry_body host call label r s = Some (Inr out) \<Longrightarrow> labelled_error label out"
  by (auto simp: labelled_error_def retry_body_def Let_def dest: context_errorsD
      split: prod.splits if_splits sum.splits option.splits)

lemma retry_error:
  fixes call :: "'e \<Rightarrow> 'v go_result \<times> 'e"
  assumes "context_errors host"
    and "go_loop (retry_body host call label r) s = Some (Inl err, w')"
  shows "err = Context_Canceled \<or> err = Context_DeadlineExceeded
    \<or> (\<exists>rest. error_msg err = label @ rest)"
proof -
  have "labelled_error label (Inl err :: 'v go_result, w')"
    by (rule go_loop_rule [OF assms(2), where I = "\<lambda>_. True" and Q = "labelled_error label"])
      (auto intro: retry_body_error [OF assms(1)])
  then show ?thesis by (simp add: labelled_error_def)
qed

lemma labelled_not_range_error:
  assumes "context_errors host"
    and "go_loop (retry_body host call ''get logs retries exhausted: '' r) s = Some (Inl err, w')"
  shows "\<not> IsRateLimitOrRangeErr (Some err)"
  using retry_error [OF assms] by (auto simp: IsRateLimitOrRangeErr_def)

lemma convert_log_decimal:
  "ParseUint (lr_BlockNumber (convert_log C l)) = Inr (lr_BlockNumUint (convert_log C l))"
  "\<forall>c \<in> set (lr_BlockNumber (convert_log C l)). is_digit c"
  by (auto simp: convert_log_def dest: FormatUint_digits)

section \<open>Properties\<close>


text \<open>A node that always answers with the same range error, behind a client that never waits.\<close>

definition range_error_rpc :: "unit RealRPC" where
  "range_error_rpc = \<lparr>client = \<lparr>ec_BlockNumber = (\<lambda>e. (Inr 200, e)),
     ec_FilterLogs = (\<lambda>q e. (Inl (Err_New ''block range too large''), e)), ec_Close = (\<lambda>e. e)\<rparr>,
     maxRetries = 1, retryBaseWait = 500000000\<rparr>"

definition plain_common :: EthCommon where
  "plain_common = \<lparr>HexToAddress = map byte_of_char, HexToHash = map byte_of_char,
     Hash_Hex = hex_EncodeToString, Address_Hex = hex_EncodeToString, Bytes2Hex = hex_EncodeToString\<rparr>"

definition fresh_rworld :: "'e \<Rightarrow> 'e rworld" where
  "fresh_rworld e = \<lparr>renv = e, rpcRetriesTotal = 0, calls_made = 0, waits = []\<rparr>"


text \<open>
  An error that reaches the log filter through \<open>RealRPC\<close> is never recognised as a rate-limit
  or range error, because the retry loop has wrapped its message: with the production client the
  batch size never shrinks.
\<close>

theorem RealRPC_error_never_shrinks:
  assumes "context_errors host"
    and "RealRPC_EthGetLogs host C r a b addrs tops w = Some (Inl err, w')"
  shows "\<not> IsRateLimitOrRangeErr (Some err)"
  using assms(2) unfolding RealRPC_EthGetLogs_def
  by (rule labelled_not_range_error [OF assms(1)])

theorem RealRPC_error_never_shrinks_witness:
  "IsRateLimitOrRangeErr (Some (Err_New ''block range too large''))
    \<and> \<not> IsRateLimitOrRangeErr (Some (Err_Wrap ''get logs retries exhausted: '' (Err_New ''block range too large'') []))"
proof -
  have "RealRPC_EthGetLogs idle_host plain_common range_error_rpc 100 109 [] [] (fresh_rworld ())
      = Some (Inl (Err_Wrap ''get logs retries exhausted: '' (Err_New ''block range too large'') []),
          \<lparr>renv = (), rpcRetriesTotal = 2, calls_made = 2, waits = [500000000]\<rparr>)"
    unfolding RealRPC_EthGetLogs_def
    by (subst go_loop.simps, simp add: retry_body_def fetchRawLogs_def range_error_rpc_def
        fresh_rworld_def idle_host_def, subst go_loop.simps,
        simp add: retry_body_def fetchRawLogs_def range_error_rpc_def retry_wait_def)
  moreover have "context_errors idle_host"
    by (simp add: context_errors_def idle_host_def)
  ultimately have "\<not> IsRateLimitOrRangeErr
      (Some (Err_Wrap ''get logs retries exhausted: '' (Err_New ''block range too large'') []))"
    using RealRPC_error_never_shrinks by blast
  moreover have "IsRateLimitOrRangeErr (Some (Err_New ''block range too large''))"
    by (simp add: IsRateLimitOrRangeErr_def)
  ultimately show ?thesis by blast
qed

end
