(* ===== verification/Log_Task.thy ===== *)
theory Log_Task
  imports Pending_Pool Checkpoint Rpc
begin

text \<open>
  \<open>LogTask\<close> of \<open>go/logfilter/logfilter.go\<close>: one round of synchronisation (\<open>RunOnce\<close>) and the
  task's main loop (\<open>TaskLoop\<close>). The task talks to its collaborators through the interfaces of the
  other theories (RPC, checkpoint store, pending pool, semaphores) and through the batch handler.

  The world holds what a round changes besides the task itself: the environment, the pool's
  state, the two semaphores, the metrics, and a trace of the external calls in order. The trace
  is an observation and no definition reads it; the theorems are about it. A call through a nil
  \<open>PendingPool\<close> panics, which is the value \<open>None\<close>, as is a call that never returns. The round
  is that of one task: other tasks that share the semaphore are in the theory of semaphores.
\<close>

section \<open>Model\<close>

datatype call =
    Call_BlockNumber "u64 go_result"
  | Call_EthGetLogs u64 u64 "LogResult list go_result"
  | Call_HandleBatch "LogResult list" "go_error option"
  | Call_Save u64 "go_error option"

type_synonym 'e LogBatchHandler = "LogResult list \<Rightarrow> 'e \<Rightarrow> go_error option \<times> 'e"

definition NoopBatchHandler :: "'e LogBatchHandler" where
  "NoopBatchHandler logs e = (None, e)"

text \<open>The task; the semaphores it points to are in the world. A zero time is \<open>None\<close>.\<close>

record ('e, 'p) LogTask =
  TaskName :: string
  Address :: "string list"
  Topics :: "string list list"
  Checkpoint :: u64
  BatchSize :: u64
  RPC :: "'e RPCQuerier"
  Store :: "'e CheckpointStore"
  BatchHandler :: "'e LogBatchHandler"
  LiveMode :: bool
  LivePollInterval :: int
  RestartBackoff :: int
  MaxBackoff :: int
  ConfirmBlockNum :: u64
  PendingPool :: "'p PendingPool option"
  unhealthyStart :: "int option"

record ('e, 'p) world =
  env :: 'e
  pool :: 'p
  RPCSem :: RPCSemaphore
  TaskLocalSem :: RPCSemaphore
  rpcConcurrent :: int
  rpcOk :: nat
  rpcFail :: nat
  logsTotal :: nat
  batchDurations :: "int list"
  pendingBlockCount :: int
  taskHealth :: nat
  taskUnhealthyNs :: int
  taskLiveMode :: nat
  trace :: "call list"

text \<open>\<open>Acquire\<close> and \<open>Release\<close> on the semaphores of the world.\<close>

definition acquire_local :: "'e Host \<Rightarrow> ('e, 'p) world \<Rightarrow> (go_error option \<times> ('e, 'p) world) option" where
  "acquire_local host w =
     map_option (\<lambda>(err, (s, g), e). (err, w\<lparr>TaskLocalSem := s, rpcConcurrent := g, env := e\<rparr>))
       (Acquire host (TaskLocalSem w, rpcConcurrent w) (env w))"

definition acquire_rpc :: "'e Host \<Rightarrow> ('e, 'p) world \<Rightarrow> (go_error option \<times> ('e, 'p) world) option" where
  "acquire_rpc host w =
     map_option (\<lambda>(err, (s, g), e). (err, w\<lparr>RPCSem := s, rpcConcurrent := g, env := e\<rparr>))
       (Acquire host (RPCSem w, rpcConcurrent w) (env w))"

definition release_local :: "('e, 'p) world \<Rightarrow> ('e, 'p) world option" where
  "release_local w =
     map_option (\<lambda>(s, g). w\<lparr>TaskLocalSem := s, rpcConcurrent := g\<rparr>)
       (Release (TaskLocalSem w, rpcConcurrent w))"

definition release_rpc :: "('e, 'p) world \<Rightarrow> ('e, 'p) world option" where
  "release_rpc w =
     map_option (\<lambda>(s, g). w\<lparr>RPCSem := s, rpcConcurrent := g\<rparr>)
       (Release (RPCSem w, rpcConcurrent w))"

text \<open>The end of a batch, in 64-bit arithmetic.\<close>

definition batch_end :: "u64 \<Rightarrow> u64 \<Rightarrow> u64 \<Rightarrow> u64" where
  "batch_end latestBlock currentStart batchSize =
     (let end = currentStart + batchSize - 1 in if latestBlock < end then latestBlock else end)"

text \<open>
  First half of the loop body: take both slots, query the node, give both slots back. The
  result is an acquisition error, or the batch's start time, its end and the node's answer.
\<close>

definition locked_fetch ::
  "'e Host \<Rightarrow> u64 \<Rightarrow> ('e, 'p) LogTask \<Rightarrow> u64 \<Rightarrow> ('e, 'p) world \<Rightarrow>
     ((int \<times> u64 \<times> LogResult list go_result) go_result \<times> ('e, 'p) world) option" where
  "locked_fetch host latestBlock t currentStart w =
     Option.bind (acquire_local host w) (\<lambda>(lerr, w).
     case lerr of
       Some err \<Rightarrow> Some (Inl err, w)
     | None \<Rightarrow>
         Option.bind (acquire_rpc host w) (\<lambda>(gerr, w).
         case gerr of
           Some err \<Rightarrow> map_option (\<lambda>w. (Inl err, w)) (release_local w)
         | None \<Rightarrow>
             let (batchStart, e) = time_Now host (env w);
                 end = batch_end latestBlock currentStart (BatchSize t);
                 (res, e) = rpc_EthGetLogs (RPC t) currentStart end (Address t) (Topics t) e;
                 w = w\<lparr>env := e, trace := trace w @ [Call_EthGetLogs currentStart end res]\<rparr>
             in Option.bind (release_rpc w) (\<lambda>w.
                map_option (\<lambda>w. (Inr (batchStart, end, res), w)) (release_local w))))"

text \<open>
  Second half, for the logs of a successful query: deduplicate, buffer, pop what is confirmed,
  hand it over, save the checkpoint. \<open>None\<close> in the result is the nil error.
\<close>

definition hand_over ::
  "('e, 'p) LogTask \<Rightarrow> u64 \<Rightarrow> LogResult list \<Rightarrow> ('e, 'p) world \<Rightarrow>
     go_error option \<times> ('e, 'p) LogTask \<times> ('e, 'p) world" where
  "hand_over t end ready w =
     (if 0 < length ready then
        let (herr, e) = BatchHandler t ready (env w);
            w = w\<lparr>env := e, trace := trace w @ [Call_HandleBatch ready herr]\<rparr>
        in case herr of
             Some err \<Rightarrow> (Some (Err_Wrap ''batch handler: '' err []), t, w)
           | None \<Rightarrow>
               let (serr, e) = cs_Save (Store t) end (env w);
                   w = w\<lparr>env := e, trace := trace w @ [Call_Save end serr]\<rparr>
               in case serr of
                    Some err \<Rightarrow> (Some (Err_Wrap ''save checkpoint: '' err []), t, w)
                  | None \<Rightarrow> (None, t\<lparr>Checkpoint := end\<rparr>, w)
      else (None, t, w))"

definition process_batch ::
  "u64 \<Rightarrow> 'p PendingPool \<Rightarrow> ('e, 'p) LogTask \<Rightarrow> u64 \<Rightarrow> u64 \<Rightarrow> LogResult list \<Rightarrow> ('e, 'p) world \<Rightarrow>
     go_error option \<times> ('e, 'p) LogTask \<times> ('e, 'p) world" where
  "process_batch latestBlock P t currentStart end logs w =
     (let batchDedup = dedup_batch {} logs;
          w = w\<lparr>logsTotal := logsTotal w + length batchDedup\<rparr>;
          (aerr, p) = pp_Add P currentStart batchDedup (pool w);
          w = w\<lparr>pool := p\<rparr>
      in case aerr of
           Some err \<Rightarrow> (Some (Err_Wrap ''pending add: '' err []), t, w)
         | None \<Rightarrow>
             let (pres, p) = pp_PopConfirmed P latestBlock (ConfirmBlockNum t) (pool w);
                 w = w\<lparr>pool := p\<rparr>
             in case pres of
                  Inl err \<Rightarrow> (Some (Err_Wrap ''pending pop: '' err []), t, w)
                | Inr ready \<Rightarrow> hand_over t end ready w)"

text \<open>The metrics at the end of the loop body; an error of \<open>Count\<close> is ignored.\<close>

definition record_batch ::
  "'e Host \<Rightarrow> 'p PendingPool \<Rightarrow> int \<Rightarrow> ('e, 'p) world \<Rightarrow> ('e, 'p) world" where
  "record_batch host P batchStart w =
     (let (now, e) = time_Now host (env w);
          w = w\<lparr>env := e, batchDurations := batchDurations w @ [now - batchStart]\<rparr>;
          (cres, p) = pp_Count P (pool w);
          w = w\<lparr>pool := p\<rparr>
      in case cres of
           Inr pending \<Rightarrow> w\<lparr>pendingBlockCount := pending\<rparr>
         | Inl _ \<Rightarrow> w)"

type_synonym ('e, 'p) round = "('e, 'p) LogTask \<times> u64 \<times> ('e, 'p) world"
type_synonym ('e, 'p) outcome = "bool go_result \<times> ('e, 'p) LogTask \<times> ('e, 'p) world"

definition RunOnce_body ::
  "'e Host \<Rightarrow> u64 \<Rightarrow> ('e, 'p) round \<Rightarrow> (('e, 'p) round + ('e, 'p) outcome) option" where
  "RunOnce_body host latestBlock = (\<lambda>(t, currentStart, w).
     if latestBlock < currentStart then Some (Inr (Inr True, t, w))
     else let (done, e) = ctx_Err host (env w); w = w\<lparr>env := e\<rparr> in
     case done of
       Some err \<Rightarrow> Some (Inr (Inl err, t, w))
     | None \<Rightarrow>
         Option.bind (locked_fetch host latestBlock t currentStart w) (\<lambda>(fetched, w).
         case fetched of
           Inl err \<Rightarrow> Some (Inr (Inl err, t, w))
         | Inr (batchStart, end, Inl err) \<Rightarrow>
             let w = w\<lparr>rpcFail := Suc (rpcFail w)\<rparr> in
             if IsRateLimitOrRangeErr (Some err) then
               let t = t\<lparr>BatchSize := BatchSize t div 2\<rparr> in
               if BatchSize t < 1
               then Some (Inr (Inl (Err_Wrap ''batch reduced to 1, still failing: '' err []), t, w))
               else Some (Inl (t, currentStart, w))
             else Some (Inr (Inl (Err_Wrap ''rpc query: '' err []), t, w))
         | Inr (batchStart, end, Inr logs) \<Rightarrow>
             let w = w\<lparr>rpcOk := Suc (rpcOk w)\<rparr> in
             case PendingPool t of
               None \<Rightarrow> None
             | Some P \<Rightarrow>
                 (case process_batch latestBlock P t currentStart end logs w of
                    (Some err, t, w) \<Rightarrow> Some (Inr (Inl err, t, w))
                  | (None, t, w) \<Rightarrow> Some (Inl (t, end + 1, record_batch host P batchStart w)))))"

definition RunOnce ::
  "'e Host \<Rightarrow> ('e, 'p) LogTask \<Rightarrow> ('e, 'p) world \<Rightarrow> ('e, 'p) outcome option" where
  "RunOnce host t w =
     (let (bres, e) = rpc_BlockNumber (RPC t) (env w);
          w = w\<lparr>env := e, trace := trace w @ [Call_BlockNumber bres]\<rparr>
      in case bres of
           Inl err \<Rightarrow> Some (Inl (Err_Wrap ''get latest block: '' err []), t, w\<lparr>rpcFail := Suc (rpcFail w)\<rparr>)
         | Inr latestBlock \<Rightarrow>
             let w = w\<lparr>rpcOk := Suc (rpcOk w)\<rparr> in
             if latestBlock < Checkpoint t then Some (Inr True, t, w)
             else go_loop (RunOnce_body host latestBlock) (t, Checkpoint t, w))"

text \<open>
  The main loop. \<open>newPool\<close> is the pool that \<open>NewBlockPendingPool()\<close> puts in place of a nil one.
  The deferred function runs on every return.
\<close>

definition TaskLoop_body ::
  "'e Host \<Rightarrow> ('e, 'p) LogTask \<times> ('e, 'p) world \<Rightarrow>
     (('e, 'p) LogTask \<times> ('e, 'p) world + go_error option \<times> ('e, 'p) LogTask \<times> ('e, 'p) world) option" where
  "TaskLoop_body host = (\<lambda>(t, w).
     let (done, e) = ctx_Err host (env w); w = w\<lparr>env := e\<rparr> in
     case done of
       Some err \<Rightarrow> Some (Inr (Some err, t, w))
     | None \<Rightarrow>
         Option.bind (RunOnce host t w) (\<lambda>(res, t, w).
         case res of
           Inl err \<Rightarrow>
             let (t, w) = (case unhealthyStart t of
                   None \<Rightarrow> let (now, e) = time_Now host (env w) in
                           (t\<lparr>unhealthyStart := Some now\<rparr>, w\<lparr>env := e\<rparr>)
                 | Some _ \<Rightarrow> (t, w));
                 (now, e) = time_Now host (env w)
             in Some (Inr (Some err, t,
                  w\<lparr>env := e, taskUnhealthyNs := now - (case unhealthyStart t of Some s \<Rightarrow> s | None \<Rightarrow> 0)\<rparr>))
         | Inr caughtUp \<Rightarrow>
             let t = t\<lparr>unhealthyStart := None\<rparr>; w = w\<lparr>taskUnhealthyNs := 0\<rparr> in
             if \<not> LiveMode t then Some (Inr (None, t, w))
             else if caughtUp then
               let w = w\<lparr>taskLiveMode := 1\<rparr>;
                   (done, e) = wait_for host (LivePollInterval t) (env w);
                   w = w\<lparr>env := e\<rparr>
               in case done of
                    Some err \<Rightarrow> Some (Inr (Some err, t, w))
                  | None \<Rightarrow> Some (Inl (t, w))
             else Some (Inl (t, w\<lparr>taskLiveMode := 0\<rparr>))))"

definition TaskLoop ::
  "'e Host \<Rightarrow> 'p PendingPool \<times> 'p \<Rightarrow> ('e, 'p) LogTask \<Rightarrow> ('e, 'p) world \<Rightarrow>
     (go_error option \<times> ('e, 'p) LogTask \<times> ('e, 'p) world) option" where
  "TaskLoop host newPool t w =
     (let (t, w) = (case PendingPool t of
            None \<Rightarrow> (t\<lparr>PendingPool := Some (fst newPool)\<rparr>, w\<lparr>pool := snd newPool\<rparr>)
          | Some _ \<Rightarrow> (t, w));
          w = w\<lparr>taskHealth := 1\<rparr>
      in map_option (\<lambda>(err, t, w). (err, t, w\<lparr>taskHealth := 0, taskUnhealthyNs := 0\<rparr>))
           (go_loop (TaskLoop_body host) (t, w)))"

section \<open>What one pass of the loop body does\<close>

abbreviation sems :: "('e, 'p) world \<Rightarrow> RPCSemaphore \<times> RPCSemaphore \<times> int" where
  "sems w \<equiv> (RPCSem w, TaskLocalSem w, rpcConcurrent w)"

text \<open>\<open>extends w calls w'\<close>: from \<open>w\<close> to \<open>w'\<close> exactly these calls were made and every slot was given back.\<close>

definition extends :: "('e, 'p) world \<Rightarrow> call list \<Rightarrow> ('e, 'p) world \<Rightarrow> bool" where
  "extends w calls w' \<longleftrightarrow> trace w' = trace w @ calls \<and> sems w' = sems w"

lemma extends_refl [simp]: "extends w [] w"
  by (simp add: extends_def)

lemma extends_trans: "extends w cs1 w1 \<Longrightarrow> extends w1 cs2 w2 \<Longrightarrow> extends w (cs1 @ cs2) w2"
  by (simp add: extends_def)

lemma acquire_localD:
  assumes "acquire_local host w = Some (err, w')"
  shows "trace w' = trace w \<and> pool w' = pool w \<and> RPCSem w' = RPCSem w
    \<and> (case err of Some _ \<Rightarrow> sems w' = sems w
       | None \<Rightarrow> (TaskLocalSem w', rpcConcurrent w') = take_slot (TaskLocalSem w, rpcConcurrent w))"
  using assms by (auto simp: acquire_local_def dest: Acquire_result split: option.splits)

lemma acquire_rpcD:
  assumes "acquire_rpc host w = Some (err, w')"
  shows "trace w' = trace w \<and> pool w' = pool w \<and> TaskLocalSem w' = TaskLocalSem w
    \<and> (case err of Some _ \<Rightarrow> sems w' = sems w
       | None \<Rightarrow> (RPCSem w', rpcConcurrent w') = take_slot (RPCSem w, rpcConcurrent w))"
  using assms by (auto simp: acquire_rpc_def dest: Acquire_result split: option.splits)

lemma acquire_ctx_error:
  "acquire_local host w = Some (Some err, w') \<Longrightarrow> \<exists>e. fst (ctx_Err host e) = Some err"
  "acquire_rpc host w = Some (Some err, w') \<Longrightarrow> \<exists>e. fst (ctx_Err host e) = Some err"
  by (auto simp: acquire_local_def acquire_rpc_def dest: Acquire_error)

lemma release_localD:
  assumes "release_local w = Some w'"
  shows "trace w' = trace w \<and> pool w' = pool w \<and> RPCSem w' = RPCSem w
    \<and> Some (TaskLocalSem w', rpcConcurrent w') = Release (TaskLocalSem w, rpcConcurrent w)"
  using assms by (auto simp: release_local_def)

lemma release_rpcD:
  assumes "release_rpc w = Some w'"
  shows "trace w' = trace w \<and> pool w' = pool w \<and> TaskLocalSem w' = TaskLocalSem w
    \<and> Some (RPCSem w', rpcConcurrent w') = Release (RPCSem w, rpcConcurrent w)"
  using assms by (auto simp: release_rpc_def)

lemmas slot_simps = take_slot_def Release_def

text \<open>The locked section gives both slots back, whatever happens in it.\<close>

lemma locked_fetchD:
  assumes "locked_fetch host l t cs w = Some (r, w')"
  shows "pool w' = pool w \<and> (case r of
      Inl err \<Rightarrow> extends w [] w' \<and> (\<exists>e. fst (ctx_Err host e) = Some err)
    | Inr (batchStart, end, res) \<Rightarrow>
        end = batch_end l cs (BatchSize t) \<and> extends w [Call_EthGetLogs cs end res] w'
        \<and> (\<exists>e. fst (rpc_EthGetLogs (RPC t) cs end (Address t) (Topics t) e) = res))"
proof -
  from assms obtain lerr w1 where 1: "acquire_local host w = Some (lerr, w1)"
    by (auto simp: locked_fetch_def bind_eq_Some_conv)
  note l1 = acquire_localD [OF this]
  show ?thesis
  proof (cases lerr)
    case (Some err)
    with assms 1 l1 show ?thesis
      by (auto simp: locked_fetch_def extends_def dest: acquire_ctx_error)
  next
    case lok: None
    with assms 1 obtain gerr w2 where 2: "acquire_rpc host w1 = Some (gerr, w2)"
      by (auto simp: locked_fetch_def bind_eq_Some_conv)
    note l2 = acquire_rpcD [OF this]
    show ?thesis
    proof (cases gerr)
      case (Some err)
      with assms 1 2 lok have "release_local w2 = Some w'" "r = Inl err"
        by (auto simp: locked_fetch_def)
      with release_localD [OF this(1)] l1 l2 lok Some acquire_ctx_error(2) [OF 2 [unfolded Some]]
      show ?thesis by (auto simp: extends_def slot_simps)
    next
      case None
      obtain bs e where tm: "time_Now host (env w2) = (bs, e)" by fastforce
      let ?upto = "batch_end l cs (BatchSize t)"
      obtain res e2 where q: "rpc_EthGetLogs (RPC t) cs ?upto (Address t) (Topics t) e = (res, e2)"
        by fastforce
      let ?w3 = "w2\<lparr>env := e2, trace := trace w2 @ [Call_EthGetLogs cs ?upto res]\<rparr>"
      from assms 1 2 lok None tm q obtain w4 where
        "release_rpc ?w3 = Some w4" "release_local w4 = Some w'" "r = Inr (bs, ?upto, res)"
        by (auto simp: locked_fetch_def Let_def bind_eq_Some_conv)
      with release_rpcD [OF this(1)] release_localD [OF this(2)] l1 l2 lok None q show ?thesis
        by (auto simp: extends_def slot_simps intro!: exI [of _ e])
    qed
  qed
qed

text \<open>With room in both semaphores, the locked section returns.\<close>

lemma Acquire_returns: "has_room (fst sg) \<Longrightarrow> \<exists>err s g e'. Acquire host sg e = Some (err, (s, g), e')"
  by (simp add: Acquire_room Let_def case_prod_beta)

lemma acquire_local_returns:
  "has_room (TaskLocalSem w) \<Longrightarrow> \<exists>err w'. acquire_local host w = Some (err, w')"
  using Acquire_returns [of "(TaskLocalSem w, rpcConcurrent w)" host "env w"]
  by (auto simp: acquire_local_def)

lemma acquire_rpc_returns:
  "has_room (RPCSem w) \<Longrightarrow> \<exists>err w'. acquire_rpc host w = Some (err, w')"
  using Acquire_returns [of "(RPCSem w, rpcConcurrent w)" host "env w"]
  by (auto simp: acquire_rpc_def)

lemma locked_fetch_returns:
  assumes "has_room (TaskLocalSem w)" and "has_room (RPCSem w)"
  shows "\<exists>out. locked_fetch host l t cs w = Some out"
proof -
  obtain lerr w1 where 1: "acquire_local host w = Some (lerr, w1)"
    using acquire_local_returns [OF assms(1)] by blast
  note l1 = acquire_localD [OF this]
  show ?thesis
  proof (cases lerr)
    case (Some err)
    with 1 show ?thesis by (simp add: locked_fetch_def)
  next
    case lok: None
    obtain gerr w2 where 2: "acquire_rpc host w1 = Some (gerr, w2)"
      using acquire_rpc_returns assms(2) l1 by metis
    note l2 = acquire_rpcD [OF this]
    show ?thesis
    proof (cases gerr)
      case (Some err)
      with 1 2 lok l1 l2 show ?thesis
        by (auto simp: locked_fetch_def release_local_def slot_simps)
    next
      case None
      with 1 2 lok l1 l2 show ?thesis
        by (auto simp: locked_fetch_def release_local_def release_rpc_def slot_simps Let_def case_prod_beta)
    qed
  qed
qed

text \<open>The second half: the calls it adds, and when it changes the checkpoint.\<close>

lemma hand_overD:
  assumes "hand_over t end ready w = (err, t', w')"
  shows "pool w' = pool w \<and> (
      ready = [] \<and> err = None \<and> t' = t \<and> extends w [] w'
    \<or> (\<exists>e. ready \<noteq> [] \<and> err = Some (Err_Wrap ''batch handler: '' e []) \<and> t' = t
        \<and> (\<exists>e0. fst (BatchHandler t ready e0) = Some e) \<and> extends w [Call_HandleBatch ready (Some e)] w')
    \<or> (\<exists>e. ready \<noteq> [] \<and> err = Some (Err_Wrap ''save checkpoint: '' e []) \<and> t' = t
        \<and> (\<exists>e0. fst (cs_Save (Store t) end e0) = Some e) \<and> extends w [Call_HandleBatch ready None, Call_Save end (Some e)] w')
    \<or> ready \<noteq> [] \<and> err = None \<and> t' = t\<lparr>Checkpoint := end\<rparr>
        \<and> extends w [Call_HandleBatch ready None, Call_Save end None] w')"
  using assms
  by (auto simp: hand_over_def Let_def extends_def split: prod.splits option.splits if_splits)
    (metis fst_conv)+

text \<open>The whole second half, by where it stops.\<close>

lemma process_batch_cases:
  assumes "process_batch l P t cs end logs w = (err, t', w')"
  obtains
    (add) e p where "pp_Add P cs (dedup_batch {} logs) (pool w) = (Some e, p)"
      "err = Some (Err_Wrap ''pending add: '' e [])" "t' = t" "pool w' = p" "extends w [] w'"
  | (pop) p1 e p where "pp_Add P cs (dedup_batch {} logs) (pool w) = (None, p1)"
      "pp_PopConfirmed P l (ConfirmBlockNum t) p1 = (Inl e, p)"
      "err = Some (Err_Wrap ''pending pop: '' e [])" "t' = t" "pool w' = p" "extends w [] w'"
  | (handed) p1 p ready w1 where "pp_Add P cs (dedup_batch {} logs) (pool w) = (None, p1)"
      "pp_PopConfirmed P l (ConfirmBlockNum t) p1 = (Inr ready, p)"
      "pool w1 = p" "extends w [] w1" "hand_over t end ready w1 = (err, t', w')" "pool w' = p"
proof -
  obtain aerr p1 where a: "pp_Add P cs (dedup_batch {} logs) (pool w) = (aerr, p1)" by fastforce
  obtain pres p where p: "pp_PopConfirmed P l (ConfirmBlockNum t) p1 = (pres, p)" by fastforce
  show thesis
  proof (cases aerr)
    case (Some e)
    with a assms have "err = Some (Err_Wrap ''pending add: '' e [])" "t' = t"
        "w' = w\<lparr>logsTotal := logsTotal w + length (dedup_batch {} logs), pool := p1\<rparr>"
      by (auto simp: process_batch_def Let_def)
    with a Some show thesis by (intro add [of e p1]) (simp_all add: extends_def)
  next
    case aok: None
    show thesis
    proof (cases pres)
      case (Inl e)
      with a p aok assms have "err = Some (Err_Wrap ''pending pop: '' e [])" "t' = t"
          "w' = w\<lparr>logsTotal := logsTotal w + length (dedup_batch {} logs), pool := p\<rparr>"
        by (auto simp: process_batch_def Let_def)
      with a p aok Inl show thesis by (intro pop [of p1 e p]) (simp_all add: extends_def)
    next
      case (Inr ready)
      let ?w1 = "w\<lparr>logsTotal := logsTotal w + length (dedup_batch {} logs), pool := p\<rparr>"
      have "hand_over t end ready ?w1 = (err, t', w')"
        using a p aok Inr assms by (auto simp: process_batch_def Let_def)
      moreover from hand_overD [OF this] have "pool w' = p" by simp
      ultimately show thesis
        using a p aok Inr by (intro handed [of p1 ready p ?w1]) (simp_all add: extends_def)
    qed
  qed
qed

lemma record_batchD: "record_batch host P bs w = w' \<Longrightarrow> extends w [] w'
    \<and> pool w' = snd (pp_Count P (pool w))"
  by (auto simp: record_batch_def Let_def extends_def split: prod.splits sum.splits)

text \<open>One pass of the loop body, by where it ends.\<close>

lemma RunOnce_body_cases:
  assumes "RunOnce_body host l (t, cs, w) = Some x"
  obtains
    (caught_up) "l < cs" "x = Inr (Inr True, t, w)"
  | (stopped) err w' where "\<not> l < cs" "x = Inr (Inl err, t, w')" "extends w [] w'" "pool w' = pool w"
      "\<exists>e. fst (ctx_Err host e) = Some err"
  | (rpc_error) e w' where "\<not> l < cs" "\<not> IsRateLimitOrRangeErr (Some e)"
      "x = Inr (Inl (Err_Wrap ''rpc query: '' e []), t, w')" "pool w' = pool w"
      "extends w [Call_EthGetLogs cs (batch_end l cs (BatchSize t)) (Inl e)] w'"
      "\<exists>e0. fst (rpc_EthGetLogs (RPC t) cs (batch_end l cs (BatchSize t)) (Address t) (Topics t) e0) = Inl e"
  | (exhausted) e w' where "\<not> l < cs" "IsRateLimitOrRangeErr (Some e)" "BatchSize t div 2 < 1"
      "x = Inr (Inl (Err_Wrap ''batch reduced to 1, still failing: '' e []), t\<lparr>BatchSize := BatchSize t div 2\<rparr>, w')"
      "pool w' = pool w" "extends w [Call_EthGetLogs cs (batch_end l cs (BatchSize t)) (Inl e)] w'"
      "\<exists>e0. fst (rpc_EthGetLogs (RPC t) cs (batch_end l cs (BatchSize t)) (Address t) (Topics t) e0) = Inl e"
  | (shrink) e w' where "\<not> l < cs" "IsRateLimitOrRangeErr (Some e)" "\<not> BatchSize t div 2 < 1"
      "x = Inl (t\<lparr>BatchSize := BatchSize t div 2\<rparr>, cs, w')"
      "pool w' = pool w" "extends w [Call_EthGetLogs cs (batch_end l cs (BatchSize t)) (Inl e)] w'"
      "\<exists>e0. fst (rpc_EthGetLogs (RPC t) cs (batch_end l cs (BatchSize t)) (Address t) (Topics t) e0) = Inl e"
  | (failed) logs w1 P err t' w' where "\<not> l < cs" "PendingPool t = Some P" "pool w1 = pool w"
      "extends w [Call_EthGetLogs cs (batch_end l cs (BatchSize t)) (Inr logs)] w1"
      "process_batch l P t cs (batch_end l cs (BatchSize t)) logs w1 = (Some err, t', w')"
      "x = Inr (Inl err, t', w')"
      "\<exists>e0. fst (rpc_EthGetLogs (RPC t) cs (batch_end l cs (BatchSize t)) (Address t) (Topics t) e0) = Inr logs"
  | (advance) logs w1 P t' w2 w' where "\<not> l < cs" "PendingPool t = Some P" "pool w1 = pool w"
      "extends w [Call_EthGetLogs cs (batch_end l cs (BatchSize t)) (Inr logs)] w1"
      "process_batch l P t cs (batch_end l cs (BatchSize t)) logs w1 = (None, t', w2)"
      "extends w2 [] w'" "pool w' = snd (pp_Count P (pool w2))"
      "x = Inl (t', batch_end l cs (BatchSize t) + 1, w')"
      "\<exists>e0. fst (rpc_EthGetLogs (RPC t) cs (batch_end l cs (BatchSize t)) (Address t) (Topics t) e0) = Inr logs"
proof -
  let ?upto = "batch_end l cs (BatchSize t)"
  obtain dn e where c: "ctx_Err host (env w) = (dn, e)" by fastforce
  let ?w0 = "w\<lparr>env := e\<rparr>"
  show thesis
  proof (cases "l < cs")
    case True
    with assms show thesis by (intro caught_up) (simp_all add: RunOnce_body_def)
  next
    case run: False
    show thesis
    proof (cases dn)
      case (Some err)
      with assms run c show thesis
        by (intro stopped [of err ?w0])
          (simp_all add: RunOnce_body_def extends_def, metis fst_conv)
    next
      case alive: None
      with assms run c obtain r w1 where f: "locked_fetch host l t cs ?w0 = Some (r, w1)"
        by (auto simp: RunOnce_body_def Let_def bind_eq_Some_conv)
      note lf = locked_fetchD [OF this]
      show thesis
      proof (cases r)
        case (Inl err)
        with assms run c alive f lf show thesis
          by (intro stopped [of err w1]) (simp_all add: RunOnce_body_def extends_def)
      next
        case (Inr q)
        obtain bs res where q: "q = (bs, ?upto, res)"
          using lf Inr by (cases q) auto
        from lf Inr q have w1: "pool w1 = pool w" "extends w [Call_EthGetLogs cs ?upto res] w1"
            "\<exists>e0. fst (rpc_EthGetLogs (RPC t) cs ?upto (Address t) (Topics t) e0) = res"
          by (auto simp: extends_def)
        note body = assms run c alive f Inr q
        show thesis
        proof (cases res)
          case err: (Inl e)
          let ?w2 = "w1\<lparr>rpcFail := Suc (rpcFail w1)\<rparr>"
          have w2: "pool ?w2 = pool w" "extends w [Call_EthGetLogs cs ?upto (Inl e)] ?w2"
              "\<exists>e0. fst (rpc_EthGetLogs (RPC t) cs ?upto (Address t) (Topics t) e0) = Inl e"
            using w1 err by (simp_all add: extends_def)
          show thesis
          proof (cases "IsRateLimitOrRangeErr (Some e)")
            case True
            show thesis
            proof (cases "BatchSize t div 2 < 1")
              case less: True
              with True body err w2 show thesis
                by (intro exhausted [of e ?w2]) (simp_all add: RunOnce_body_def)
            next
              case more: False
              with True body err w2 show thesis
                by (intro shrink [of e ?w2]) (simp_all add: RunOnce_body_def)
            qed
          next
            case False
            with body err w2 show thesis
              by (intro rpc_error [of e ?w2]) (simp_all add: RunOnce_body_def)
          qed
        next
          case ok: (Inr logs)
          let ?w2 = "w1\<lparr>rpcOk := Suc (rpcOk w1)\<rparr>"
          have w2: "pool ?w2 = pool w" "extends w [Call_EthGetLogs cs ?upto (Inr logs)] ?w2"
              "\<exists>e0. fst (rpc_EthGetLogs (RPC t) cs ?upto (Address t) (Topics t) e0) = Inr logs"
            using w1 ok by (simp_all add: extends_def)
          from body ok obtain P where P: "PendingPool t = Some P"
            by (auto simp: RunOnce_body_def Let_def split: option.splits)
          obtain err t' w3 where pb: "process_batch l P t cs ?upto logs ?w2 = (err, t', w3)"
            by (metis prod_cases3)
          show thesis
          proof (cases err)
            case (Some e)
            with body ok P pb w2 show thesis
              by (intro failed [of P ?w2 logs e t' w3]) (simp_all add: RunOnce_body_def)
          next
            case None
            with body ok P pb w2 record_batchD [of host P bs w3] show thesis
              by (intro advance [of P ?w2 logs t' w3 "record_batch host P bs w3"])
                (simp_all add: RunOnce_body_def)
          qed
        qed
      qed
    qed
  qed
qed

section \<open>Reading a trace\<close>

text \<open>The blocks of the successful queries in order, their deduplicated logs, and the logs handed over.\<close>

definition blocks_fetched :: "call list \<Rightarrow> nat list" where
  "blocks_fetched calls = concat (map (\<lambda>c. case c of
     Call_EthGetLogs a b (Inr logs) \<Rightarrow> [unat a..<Suc (unat b)] | _ \<Rightarrow> []) calls)"

definition logs_fetched :: "call list \<Rightarrow> LogResult list" where
  "logs_fetched calls = concat (map (\<lambda>c. case c of
     Call_EthGetLogs a b (Inr logs) \<Rightarrow> dedup_batch {} logs | _ \<Rightarrow> []) calls)"

definition handed_over :: "call list \<Rightarrow> LogResult list" where
  "handed_over calls = concat (map (\<lambda>c. case c of Call_HandleBatch logs _ \<Rightarrow> logs | _ \<Rightarrow> []) calls)"

definition saved :: "call list \<Rightarrow> u64 list" where
  "saved calls = concat (map (\<lambda>c. case c of Call_Save b None \<Rightarrow> [b] | _ \<Rightarrow> []) calls)"

lemmas trace_defs = blocks_fetched_def logs_fetched_def handed_over_def saved_def

lemma trace_append [simp]:
  "blocks_fetched (xs @ ys) = blocks_fetched xs @ blocks_fetched ys"
  "logs_fetched (xs @ ys) = logs_fetched xs @ logs_fetched ys"
  "handed_over (xs @ ys) = handed_over xs @ handed_over ys"
  "saved (xs @ ys) = saved xs @ saved ys"
  by (simp_all add: trace_defs)

lemma trace_Nil [simp]:
  "blocks_fetched [] = []" "logs_fetched [] = []" "handed_over [] = []" "saved [] = []"
  by (simp_all add: trace_defs)

lemma trace_Cons [simp]:
  "blocks_fetched (Call_BlockNumber r # xs) = blocks_fetched xs"
  "blocks_fetched (Call_EthGetLogs a b (Inl e) # xs) = blocks_fetched xs"
  "blocks_fetched (Call_EthGetLogs a b (Inr logs) # xs) = [unat a..<Suc (unat b)] @ blocks_fetched xs"
  "blocks_fetched (Call_HandleBatch ls h # xs) = blocks_fetched xs"
  "blocks_fetched (Call_Save c h # xs) = blocks_fetched xs"
  "logs_fetched (Call_BlockNumber r # xs) = logs_fetched xs"
  "logs_fetched (Call_EthGetLogs a b (Inl e) # xs) = logs_fetched xs"
  "logs_fetched (Call_EthGetLogs a b (Inr logs) # xs) = dedup_batch {} logs @ logs_fetched xs"
  "logs_fetched (Call_HandleBatch ls h # xs) = logs_fetched xs"
  "logs_fetched (Call_Save c h # xs) = logs_fetched xs"
  "handed_over (Call_BlockNumber r # xs) = handed_over xs"
  "handed_over (Call_EthGetLogs a b q # xs) = handed_over xs"
  "handed_over (Call_HandleBatch ls h # xs) = ls @ handed_over xs"
  "handed_over (Call_Save c h # xs) = handed_over xs"
  "saved (Call_BlockNumber r # xs) = saved xs"
  "saved (Call_EthGetLogs a b q # xs) = saved xs"
  "saved (Call_HandleBatch ls h # xs) = saved xs"
  "saved (Call_Save c None # xs) = c # saved xs"
  "saved (Call_Save c (Some e) # xs) = saved xs"
  by (simp_all add: trace_defs)

section \<open>The round\<close>

text \<open>A round changes nothing of its task but the checkpoint and the batch size.\<close>

definition same_task :: "('e, 'p) LogTask \<Rightarrow> ('e, 'p) LogTask \<Rightarrow> bool" where
  "same_task t0 t \<longleftrightarrow> t\<lparr>Checkpoint := Checkpoint t0, BatchSize := BatchSize t0\<rparr> = t0"

lemma same_task_refl [simp]: "same_task t t"
  by (simp add: same_task_def)

lemma same_task_trans:
  assumes "same_task t0 t" and "same_task t t'"
  shows "same_task t0 t'"
proof -
  have "t'\<lparr>Checkpoint := Checkpoint t0, BatchSize := BatchSize t0\<rparr>
      = (t'\<lparr>Checkpoint := Checkpoint t, BatchSize := BatchSize t\<rparr>)
          \<lparr>Checkpoint := Checkpoint t0, BatchSize := BatchSize t0\<rparr>"
    by simp
  also have "\<dots> = t0" using assms by (simp add: same_task_def)
  finally show ?thesis by (simp add: same_task_def)
qed

lemma same_task_update [simp]:
  "same_task t0 (t\<lparr>Checkpoint := c\<rparr>) = same_task t0 t" "same_task t0 (t\<lparr>BatchSize := b\<rparr>) = same_task t0 t"
  by (simp_all add: same_task_def)

lemma same_taskD:
  assumes "same_task t0 t"
  shows "PendingPool t = PendingPool t0 \<and> ConfirmBlockNum t = ConfirmBlockNum t0 \<and> RPC t = RPC t0
    \<and> LiveMode t = LiveMode t0 \<and> BatchHandler t = BatchHandler t0 \<and> Store t = Store t0
    \<and> unhealthyStart t = unhealthyStart t0 \<and> LivePollInterval t = LivePollInterval t0
    \<and> RestartBackoff t = RestartBackoff t0 \<and> MaxBackoff t = MaxBackoff t0"
proof -
  from assms have "t0 = t\<lparr>Checkpoint := Checkpoint t0, BatchSize := BatchSize t0\<rparr>"
    by (simp add: same_task_def)
  then show ?thesis by (cases t; cases t0) simp
qed

lemma process_batch_task:
  assumes "process_batch l P t cs end logs w = (err, t', w')"
  shows "same_task t0 t' = same_task t0 t \<and> BatchSize t' = BatchSize t
    \<and> (\<exists>calls. extends w calls w' \<and> blocks_fetched calls = [] \<and> logs_fetched calls = []
        \<and> Checkpoint t' = last (Checkpoint t # saved calls) \<and> set (saved calls) \<subseteq> {end}
        \<and> (calls = [] \<or> (\<exists>ready e. calls = [Call_HandleBatch ready (Some e)])
           \<or> (\<exists>ready r. calls = [Call_HandleBatch ready None, Call_Save end r])))"
  using assms
proof (cases rule: process_batch_cases)
  case (handed p1 p ready w1)
  from hand_overD [OF handed(5)] extends_trans [OF handed(4), of _ w'] show ?thesis
    by (fastforce simp: last_ConsR)
qed (auto intro!: exI [of _ "[]"])

lemma batch_end_bounds:
  assumes "\<not> l < cs" and "0 < unat bs" and "unat l + unat bs < 2 ^ 64"
  shows "unat cs \<le> unat (batch_end l cs bs) \<and> unat (batch_end l cs bs) \<le> unat l
    \<and> unat (batch_end l cs bs) < unat cs + unat bs
    \<and> unat (batch_end l cs bs + 1) = Suc (unat (batch_end l cs bs))"
proof -
  have le: "unat cs \<le> unat l" using assms(1) by (simp add: word_le_nat_alt not_less)
  have sum: "unat (cs + bs) = unat cs + unat bs"
    using le assms(3) by (intro unat_add_u64) simp
  with assms(2) have "cs + bs \<noteq> 0" by (metis add_is_0 less_irrefl unat_0)
  then have "unat (cs + bs - 1) = unat cs + unat bs - 1"
    using unat_minus_one_u64 sum by simp
  then have e: "unat (batch_end l cs bs) = min (unat l) (unat cs + unat bs - 1)"
    by (auto simp: batch_end_def Let_def word_less_nat_alt)
  moreover have "unat (batch_end l cs bs + 1) = Suc (unat (batch_end l cs bs))"
    using e assms(2,3) by (intro unat_Suc_u64) (simp add: MaxUint64_def)
  ultimately show ?thesis using le assms(2) by auto
qed

lemma unat_div_2: "unat ((a :: u64) div 2) = unat a div 2"
  by (simp add: unat_div)

text \<open>
  Every checkpoint save comes directly after a successful hand-over, which comes directly after
  the successful query of the batch whose last block is saved.
\<close>

definition saves_guarded :: "call list \<Rightarrow> bool" where
  "saves_guarded calls \<longleftrightarrow> (\<forall>i < length calls. \<forall>b r. calls ! i = Call_Save b r \<longrightarrow>
     2 \<le> i \<and> (\<exists>ready. calls ! (i - 1) = Call_HandleBatch ready None)
     \<and> (\<exists>a logs. calls ! (i - 2) = Call_EthGetLogs a b (Inr logs)))"

lemma saves_guarded_append:
  assumes "saves_guarded xs" and "saves_guarded ys"
  shows "saves_guarded (xs @ ys)"
  unfolding saves_guarded_def
proof (intro allI impI)
  fix i b r
  assume i: "i < length (xs @ ys)" "(xs @ ys) ! i = Call_Save b r"
  show "2 \<le> i \<and> (\<exists>ready. (xs @ ys) ! (i - 1) = Call_HandleBatch ready None)
     \<and> (\<exists>a logs. (xs @ ys) ! (i - 2) = Call_EthGetLogs a b (Inr logs))"
  proof (cases "i < length xs")
    case True
    with i assms(1) show ?thesis by (auto simp: saves_guarded_def nth_append)
  next
    case False
    let ?j = "i - length xs"
    from False i have "?j < length ys" "ys ! ?j = Call_Save b r" by (auto simp: nth_append)
    with assms(2) have j: "2 \<le> ?j" "\<exists>ready. ys ! (?j - 1) = Call_HandleBatch ready None"
        "\<exists>a logs. ys ! (?j - 2) = Call_EthGetLogs a b (Inr logs)"
      unfolding saves_guarded_def by blast+
    moreover have "(xs @ ys) ! (i - 1) = ys ! (?j - 1)" "(xs @ ys) ! (i - 2) = ys ! (?j - 2)"
      using j(1) by (auto simp: nth_append algebra_simps)
    ultimately show ?thesis by auto
  qed
qed

lemma saves_guarded_batch:
  "saves_guarded []" "saves_guarded [Call_EthGetLogs a b q]"
  "saves_guarded [Call_EthGetLogs a b (Inr logs), Call_HandleBatch ready h]"
  "saves_guarded [Call_EthGetLogs a b (Inr logs), Call_HandleBatch ready None, Call_Save b r]"
  by (auto simp: saves_guarded_def less_Suc_eq numeral_2_eq_2)

text \<open>The invariant of a round: its calls, and the checkpoint as the last block saved.\<close>

definition round_inv :: "('e, 'p) LogTask \<Rightarrow> ('e, 'p) world \<Rightarrow> ('e, 'p) LogTask \<Rightarrow> ('e, 'p) world \<Rightarrow> bool" where
  "round_inv t0 w0 t w \<longleftrightarrow> same_task t0 t \<and> (\<exists>calls. extends w0 calls w \<and> saves_guarded calls
     \<and> Checkpoint t = last (Checkpoint t0 # saved calls))"

lemma round_invI:
  "same_task t0 t \<Longrightarrow> extends w0 calls w \<Longrightarrow> saves_guarded calls
    \<Longrightarrow> Checkpoint t = last (Checkpoint t0 # saved calls) \<Longrightarrow> round_inv t0 w0 t w"
  unfolding round_inv_def by blast

lemma round_inv_refl [simp]: "round_inv t w t w"
  by (rule round_invI [where calls = "[]"]) (simp_all add: saves_guarded_batch)

lemma round_inv_trans:
  assumes "round_inv t0 w0 t w" and "round_inv t w t' w'"
  shows "round_inv t0 w0 t' w'"
proof -
  from assms obtain xs ys where
    "extends w0 xs w" "saves_guarded xs" "Checkpoint t = last (Checkpoint t0 # saved xs)"
    "extends w ys w'" "saves_guarded ys" "Checkpoint t' = last (Checkpoint t # saved ys)"
    "same_task t0 t" "same_task t t'"
    unfolding round_inv_def by blast
  moreover from this have "same_task t0 t'" by (blast intro: same_task_trans)
  ultimately show ?thesis
    by (intro round_invI [where calls = "xs @ ys"])
      (auto intro: extends_trans saves_guarded_append)
qed

lemma round_inv_batch:
  assumes "extends w [Call_EthGetLogs cs end (Inr logs)] w1"
    and "process_batch l P t cs end logs w1 = (err, t', w2)" and "extends w2 [] w'"
  shows "round_inv t w t' w'"
proof -
  from process_batch_task [OF assms(2), of t] obtain calls where c: "extends w1 calls w2"
      "Checkpoint t' = last (Checkpoint t # saved calls)" "same_task t t'"
      "calls = [] \<or> (\<exists>ready e. calls = [Call_HandleBatch ready (Some e)])
         \<or> (\<exists>ready r. calls = [Call_HandleBatch ready None, Call_Save end r])"
    by auto
  have "extends w (Call_EthGetLogs cs end (Inr logs) # calls) w'"
    using assms(1,3) c(1) by (simp add: extends_def)
  then show ?thesis
    using c by (intro round_invI [where calls = "Call_EthGetLogs cs end (Inr logs) # calls"])
      (auto simp: saves_guarded_batch)
qed

lemma round_inv_query:
  assumes "extends w calls w'" and "calls = [] \<or> calls = [Call_EthGetLogs a b q]" and "t' = t \<or> t' = t\<lparr>BatchSize := n\<rparr>"
  shows "round_inv t w t' w'"
  using assms by (intro round_invI [where calls = calls]) (auto simp: saves_guarded_batch)

lemma RunOnce_body_inv:
  assumes "RunOnce_body host l (t, cs, w) = Some x"
  shows "case x of Inl (t', cs', w') \<Rightarrow> round_inv t w t' w' | Inr (res, t', w') \<Rightarrow> round_inv t w t' w'"
  using assms
  by (cases rule: RunOnce_body_cases) (auto intro: round_inv_query round_inv_batch extends_refl)

lemma RunOnce_loop_inv:
  assumes "go_loop (RunOnce_body host l) (t, cs, w) = Some (res, t', w')"
  shows "round_inv t w t' w'"
proof -
  have "(\<lambda>(res, t', w'). round_inv t w t' w') (res, t', w')"
    by (rule go_loop_rule [OF assms, where I = "\<lambda>(t', cs, w'). round_inv t w t' w'"])
      (auto dest!: RunOnce_body_inv intro: round_inv_trans)
  then show ?thesis by simp
qed

text \<open>
  The coverage invariant, for a batch size of at least one that does not overflow: the blocks
  before the cursor have each been fetched once, in order, in ranges of at most the batch size.
\<close>

definition within :: "('e, 'p) LogTask \<Rightarrow> u64 \<Rightarrow> call list \<Rightarrow> bool" where
  "within t0 l calls \<longleftrightarrow> (\<forall>a b q. Call_EthGetLogs a b q \<in> set calls \<longrightarrow>
     unat a \<le> unat b \<and> unat b \<le> unat l \<and> unat b < unat a + unat (BatchSize t0))"

definition cover_inv ::
  "('e, 'p) LogTask \<Rightarrow> u64 \<Rightarrow> ('e, 'p) world \<Rightarrow> ('e, 'p) round \<Rightarrow> bool" where
  "cover_inv t0 l w0 = (\<lambda>(t, cs, w).
     PendingPool t \<noteq> None \<and> 0 < unat (BatchSize t) \<and> unat (BatchSize t) \<le> unat (BatchSize t0)
     \<and> unat (Checkpoint t0) \<le> unat cs \<and> unat cs \<le> Suc (unat l)
     \<and> (\<exists>calls. extends w0 calls w \<and> within t0 l calls
         \<and> blocks_fetched calls = [unat (Checkpoint t0)..<unat cs]))"

definition cover_post ::
  "('e, 'p) LogTask \<Rightarrow> u64 \<Rightarrow> ('e, 'p) world \<Rightarrow> ('e, 'p) outcome \<Rightarrow> bool" where
  "cover_post t0 l w0 = (\<lambda>(res, t, w).
     \<exists>calls n. extends w0 calls w \<and> within t0 l calls \<and> n \<le> Suc (unat l)
       \<and> blocks_fetched calls = [unat (Checkpoint t0)..<n]
       \<and> (res = Inr True \<and> n = Suc (unat l) \<or> (\<exists>err. res = Inl err)))"

lemma upt_join: "i \<le> j \<Longrightarrow> j \<le> k \<Longrightarrow> [i..<j] @ [j..<k] = [i..<k]"
  by (metis le_add_diff_inverse upt_add_eq_append)

lemma withinI:
  assumes "within t0 l calls" and "\<not> l < cs" and "0 < unat n" and "unat n \<le> unat (BatchSize t0)"
    and "unat l + unat (BatchSize t0) < 2 ^ 64"
    and "\<forall>c \<in> set extra. case c of Call_EthGetLogs a b q \<Rightarrow> a = cs \<and> b = batch_end l cs n | _ \<Rightarrow> True"
  shows "within t0 l (calls @ extra)"
proof -
  have "unat l + unat n < 2 ^ 64" using assms(4,5) by simp
  from batch_end_bounds [OF assms(2,3) this] assms(1,4,6) show ?thesis
    by (fastforce simp: within_def split: call.splits)
qed

lemma process_batch_calls:
  assumes "process_batch l P t cs end logs w = (err, t', w')"
  obtains calls where "extends w calls w'" "blocks_fetched calls = []"
    "\<forall>c \<in> set calls. case c of Call_EthGetLogs a b q \<Rightarrow> False | _ \<Rightarrow> True"
    "BatchSize t' = BatchSize t" "PendingPool t' = PendingPool t"
proof -
  from process_batch_task [OF assms, of t] obtain calls where c: "extends w calls w'"
    "blocks_fetched calls = []" "BatchSize t' = BatchSize t" "same_task t t'"
    "calls = [] \<or> (\<exists>ready e. calls = [Call_HandleBatch ready (Some e)])
       \<or> (\<exists>ready r. calls = [Call_HandleBatch ready None, Call_Save end r])"
    by auto
  then show thesis using same_taskD [OF c(4)] by (intro that [of calls]) auto
qed

lemma cover_batch:
  assumes "unat l + unat (BatchSize t0) < 2 ^ 64" and "cover_inv t0 l w0 (t, cs, w)" and "\<not> l < cs"
    and "extends w [Call_EthGetLogs cs (batch_end l cs (BatchSize t)) (Inr logs)] w1"
    and "process_batch l P t cs (batch_end l cs (BatchSize t)) logs w1 = (err, t', w2)"
    and "extends w2 [] w'"
  shows "cover_inv t0 l w0 (t', batch_end l cs (BatchSize t) + 1, w')
    \<and> unat cs < unat (batch_end l cs (BatchSize t) + 1) \<and> BatchSize t' = BatchSize t"
proof -
  let ?upto = "batch_end l cs (BatchSize t)"
  from assms(2) obtain calls where inv: "PendingPool t \<noteq> None" "0 < unat (BatchSize t)"
      "unat (BatchSize t) \<le> unat (BatchSize t0)" "unat (Checkpoint t0) \<le> unat cs"
      "extends w0 calls w" "within t0 l calls" "blocks_fetched calls = [unat (Checkpoint t0)..<unat cs]"
    by (auto simp: cover_inv_def)
  have b: "unat cs \<le> unat ?upto" "unat ?upto \<le> unat l" "unat (?upto + 1) = Suc (unat ?upto)"
    using batch_end_bounds [OF assms(3) inv(2)] inv(3) assms(1) by auto
  obtain more where m: "extends w1 more w2" "blocks_fetched more = []"
    "\<forall>c \<in> set more. case c of Call_EthGetLogs a b q \<Rightarrow> False | _ \<Rightarrow> True"
    "BatchSize t' = BatchSize t" "PendingPool t' = PendingPool t"
    using process_batch_calls [OF assms(5)] by blast
  let ?calls = "calls @ Call_EthGetLogs cs ?upto (Inr logs) # more"
  have "extends w0 ?calls w'" using inv(5) assms(4,6) m(1) by (simp add: extends_def)
  moreover have "within t0 l ?calls"
    by (rule withinI [OF inv(6) assms(3) inv(2,3) assms(1)]) (use m(3) in \<open>fastforce split: call.splits\<close>)
  moreover have "blocks_fetched ?calls = [unat (Checkpoint t0)..<unat (?upto + 1)]"
    using inv(4,7) m(2) b upt_join [of "unat (Checkpoint t0)" "unat cs" "Suc (unat ?upto)"]
    by (simp del: upt_Suc)
  ultimately show ?thesis
    using inv(1-4) m(4,5) b unfolding cover_inv_def by (auto intro!: exI [of _ ?calls])
qed

lemma cover_query:
  assumes "unat l + unat (BatchSize t0) < 2 ^ 64" and "cover_inv t0 l w0 (t, cs, w)" and "\<not> l < cs"
    and "extends w calls w'" and "calls = [] \<or> calls = [Call_EthGetLogs cs (batch_end l cs (BatchSize t)) (Inl e)]"
  shows "cover_inv t0 l w0 (t, cs, w')"
proof -
  from assms(2) obtain prev where inv: "PendingPool t \<noteq> None" "0 < unat (BatchSize t)"
      "unat (BatchSize t) \<le> unat (BatchSize t0)" "unat (Checkpoint t0) \<le> unat cs" "unat cs \<le> Suc (unat l)"
      "extends w0 prev w" "within t0 l prev" "blocks_fetched prev = [unat (Checkpoint t0)..<unat cs]"
    by (auto simp: cover_inv_def)
  have "within t0 l (prev @ calls)"
    by (rule withinI [OF inv(7) assms(3) inv(2,3) assms(1)]) (use assms(5) in auto)
  moreover have "blocks_fetched (prev @ calls) = [unat (Checkpoint t0)..<unat cs]"
    using inv(8) assms(5) by auto
  ultimately show ?thesis
    using inv assms(4) extends_trans [OF inv(6) assms(4)] unfolding cover_inv_def by auto
qed

lemma cover_stop: "cover_inv t0 l w0 (t, cs, w) \<Longrightarrow> cover_post t0 l w0 (Inl err, t', w)"
  by (auto simp: cover_inv_def cover_post_def)

lemma cover_shrink:
  "cover_inv t0 l w0 (t, cs, w) \<Longrightarrow> \<not> BatchSize t div 2 < 1 \<Longrightarrow>
     cover_inv t0 l w0 (t\<lparr>BatchSize := BatchSize t div 2\<rparr>, cs, w)
     \<and> unat (BatchSize t div 2) < unat (BatchSize t)"
  by (auto simp: cover_inv_def unat_div_2 word_less_nat_alt)

text \<open>A pass of the body keeps the invariant and makes progress, or ends the round.\<close>

lemma cover_step:
  assumes "unat l + unat (BatchSize t0) < 2 ^ 64" and "cover_inv t0 l w0 (t, cs, w)"
    and "RunOnce_body host l (t, cs, w) = Some x"
  shows "case x of
      Inl (t', cs', w') \<Rightarrow> cover_inv t0 l w0 (t', cs', w')
        \<and> unat cs \<le> unat cs' \<and> unat (BatchSize t') \<le> unat (BatchSize t)
        \<and> (unat cs < unat cs' \<or> unat (BatchSize t') < unat (BatchSize t))
    | Inr out \<Rightarrow> cover_post t0 l w0 out"
  using assms(3)
proof (cases rule: RunOnce_body_cases)
  case caught_up
  with assms(2) have "unat cs = Suc (unat l)"
    by (auto simp: cover_inv_def word_less_nat_alt)
  with caught_up assms(2) show ?thesis by (auto simp: cover_inv_def cover_post_def)
next
  case (stopped err w')
  with cover_query [OF assms(1,2), of "[]" w'] show ?thesis by (simp add: cover_stop)
next
  case (rpc_error e w')
  with cover_query [OF assms(1,2) rpc_error(1,5)] show ?thesis by (auto intro: cover_stop)
next
  case (exhausted e w')
  with cover_query [OF assms(1,2) exhausted(1,6)] show ?thesis by (auto intro: cover_stop)
next
  case (shrink e w')
  with cover_query [OF assms(1,2) shrink(1,6)] cover_shrink [of t0 l w0 t cs w'] show ?thesis by auto
next
  case (failed logs w1 P err t' w')
  with cover_batch [OF assms(1,2) failed(1,4,5) extends_refl] show ?thesis by (auto intro: cover_stop)
next
  case (advance logs w1 P t' w2 w')
  with cover_batch [OF assms(1,2) advance(1,4,5,6)] show ?thesis by auto
qed

lemma cover_loop:
  assumes "unat l + unat (BatchSize t) < 2 ^ 64" and "cover_inv t l w (t, cs, w)"
    and "go_loop (RunOnce_body host l) (t, cs, w) = Some out"
  shows "cover_post t l w out"
  by (rule go_loop_rule [OF assms(3), where I = "cover_inv t l w", OF assms(2)])
    (auto dest: cover_step [OF assms(1)] split: prod.splits)

lemma cover_start:
  "PendingPool t \<noteq> None \<Longrightarrow> 0 < unat (BatchSize t) \<Longrightarrow> \<not> l < Checkpoint t \<Longrightarrow>
     cover_inv t l w (t, Checkpoint t, w)"
  by (auto simp: cover_inv_def within_def word_less_nat_alt intro!: exI [of _ "[]"])

text \<open>With room in both semaphores no call of the body blocks, and the round ends.\<close>

lemma RunOnce_body_returns:
  assumes "has_room (TaskLocalSem w)" and "has_room (RPCSem w)" and "PendingPool t \<noteq> None"
  shows "\<exists>x. RunOnce_body host l (t, cs, w) = Some x"
proof -
  obtain dn e where c: "ctx_Err host (env w) = (dn, e)" by fastforce
  obtain r w1 where f: "locked_fetch host l t cs (w\<lparr>env := e\<rparr>) = Some (r, w1)"
    using locked_fetch_returns [of "w\<lparr>env := e\<rparr>"] assms(1,2) by fastforce
  show ?thesis
    using assms(3) c f
    by (auto simp: RunOnce_body_def Let_def split: option.split sum.split prod.split)
qed

lemma RunOnce_loop_returns:
  assumes "unat l + unat (BatchSize t0) < 2 ^ 64" and "cover_inv t0 l w0 (t, cs, w)"
    and "has_room (TaskLocalSem w0)" and "has_room (RPCSem w0)"
  shows "\<exists>out. go_loop (RunOnce_body host l) (t, cs, w) = Some out"
proof (rule go_loop_total [where I = "cover_inv t0 l w0"
      and m = "\<lambda>(t, cs, w). (Suc (unat l) - unat cs) + unat (BatchSize t)"])
  fix s assume inv: "cover_inv t0 l w0 s"
  obtain t cs w where s: "s = (t, cs, w)" by (cases s)
  from inv assms(3,4) have "has_room (TaskLocalSem w)" "has_room (RPCSem w)" "PendingPool t \<noteq> None"
    by (auto simp: s cover_inv_def extends_def)
  then obtain x where x: "RunOnce_body host l s = Some x"
    using RunOnce_body_returns unfolding s by blast
  show "(\<exists>r. RunOnce_body host l s = Some (Inr r)) \<or>
     (\<exists>s'. RunOnce_body host l s = Some (Inl s') \<and> cover_inv t0 l w0 s' \<and>
        (case s' of (t, cs, w) \<Rightarrow> Suc (unat l) - unat cs + unat (BatchSize t))
        < (case s of (t, cs, w) \<Rightarrow> Suc (unat l) - unat cs + unat (BatchSize t)))"
  proof (cases x)
    case (Inl s')
    obtain t' cs' w' where s': "s' = (t', cs', w')" by (cases s')
    have "cover_inv t0 l w0 s'" "unat cs \<le> unat cs'" "unat (BatchSize t') \<le> unat (BatchSize t)"
        "unat cs < unat cs' \<or> unat (BatchSize t') < unat (BatchSize t)"
      using cover_step [OF assms(1) inv [unfolded s] x [unfolded s]] by (simp_all add: Inl s')
    moreover from this(1) have "unat cs' \<le> Suc (unat l)" by (simp add: s' cover_inv_def)
    ultimately show ?thesis using x by (auto simp: Inl s s')
  qed (use x in auto)
qed (rule assms(2))

section \<open>No log is lost or invented in a round\<close>

text \<open>\<open>from_query calls h logs\<close>: the batch that starts at \<open>h\<close> was fetched and deduplicates to \<open>logs\<close>.\<close>

definition from_query :: "call list \<Rightarrow> u64 \<Rightarrow> LogResult list \<Rightarrow> bool" where
  "from_query calls h logs \<longleftrightarrow>
     (\<exists>b raw. Call_EthGetLogs h b (Inr raw) \<in> set calls \<and> logs = dedup_batch {} raw)"

lemma from_query_append [simp]:
  "from_query (xs @ ys) h logs \<longleftrightarrow> from_query xs h logs \<or> from_query ys h logs"
  by (auto simp: from_query_def)

lemma from_query_simps [simp]:
  "\<not> from_query [] h logs"
  "from_query (Call_EthGetLogs a b (Inr raw) # xs) h logs \<longleftrightarrow>
     h = a \<and> logs = dedup_batch {} raw \<or> from_query xs h logs"
  "from_query (Call_HandleBatch ready err # xs) h logs = from_query xs h logs"
  by (auto simp: from_query_def)

lemma hand_over_calls:
  assumes "hand_over t end ready w = (err, t', w')"
  obtains calls where "extends w calls w'" "handed_over calls = ready" "logs_fetched calls = []"
    "\<And>h logs. \<not> from_query calls h logs"
    "PendingPool t' = PendingPool t" "ConfirmBlockNum t' = ConfirmBlockNum t"
  using hand_overD [OF assms] by (auto simp: from_query_def)

context pending_pool
begin

text \<open>
  The accounting of a round, over any pool that keeps the contract: what was handed over and what
  is pending is what was pending before and what was fetched, and every log handed over belongs to
  a batch whose first block is confirmed.
\<close>

definition origin :: "u64 \<Rightarrow> u64 \<Rightarrow> 'p \<Rightarrow> call list \<Rightarrow> LogResult \<Rightarrow> bool" where
  "origin l c p0 calls x \<longleftrightarrow> (\<exists>h logs. confirmed l c h \<and> x \<in> set logs
     \<and> (from_query calls h logs \<or> pend p0 h = Some logs))"

definition ledger :: "u64 \<Rightarrow> u64 \<Rightarrow> 'p \<Rightarrow> call list \<Rightarrow> 'p \<Rightarrow> bool" where
  "ledger l c p0 calls p \<longleftrightarrow> valid p
     \<and> mset (handed_over calls) + pending_logs (pend p) = pending_logs (pend p0) + mset (logs_fetched calls)
     \<and> (\<forall>h logs. pend p h = Some logs \<longrightarrow> from_query calls h logs \<or> pend p0 h = Some logs)
     \<and> (\<forall>x \<in> set (handed_over calls). origin l c p0 calls x)"

definition ledger_inv ::
  "u64 \<Rightarrow> ('e, 'p) LogTask \<Rightarrow> ('e, 'p) world \<Rightarrow> ('e, 'p) round \<Rightarrow> bool" where
  "ledger_inv l t0 w0 = (\<lambda>(t, cs, w). PendingPool t = Some pool
     \<and> ConfirmBlockNum t = ConfirmBlockNum t0
     \<and> (\<forall>h \<in> dom (pend (world.pool w)). unat h < unat cs)
     \<and> (\<exists>calls. extends w0 calls w \<and> ledger l (ConfirmBlockNum t0) (world.pool w0) calls (world.pool w)))"

definition ledger_post ::
  "u64 \<Rightarrow> ('e, 'p) LogTask \<Rightarrow> ('e, 'p) world \<Rightarrow> ('e, 'p) outcome \<Rightarrow> bool" where
  "ledger_post l t0 w0 = (\<lambda>(res, t, w). \<exists>calls. extends w0 calls w
     \<and> (\<forall>x \<in> set (handed_over calls). origin l (ConfirmBlockNum t0) (world.pool w0) calls x)
     \<and> mset (handed_over calls) \<subseteq># pending_logs (pend (world.pool w0)) + mset (logs_fetched calls)
     \<and> (res = Inr True \<longrightarrow> mset (handed_over calls) + pending_logs (pend (world.pool w))
          = pending_logs (pend (world.pool w0)) + mset (logs_fetched calls)))"

lemma origin_append: "origin l c p0 xs x \<Longrightarrow> origin l c p0 (xs @ ys) x"
  by (auto simp: origin_def)

lemma ledger_quiet:
  "ledger l c p0 calls p \<Longrightarrow> logs_fetched qs = [] \<Longrightarrow> handed_over qs = [] \<Longrightarrow>
     ledger l c p0 (calls @ qs) p"
  by (auto simp: ledger_def origin_append)

text \<open>Adding a fetched batch under a fresh height and popping what is confirmed balances the books.\<close>

lemma ledger_batch:
  assumes "ledger l c p0 calls p" and "pend p cs = None" and "storable (dedup_batch {} raw)"
    and "pp_Add pool cs (dedup_batch {} raw) p = (None, p1)"
    and "pp_PopConfirmed pool l c p1 = (Inr ready, p2)"
  shows "ledger l c p0 (calls @ Call_EthGetLogs cs b (Inr raw) # [Call_HandleBatch ready h]) p2"
proof -
  let ?calls = "calls @ Call_EthGetLogs cs b (Inr raw) # [Call_HandleBatch ready h]"
  have led: "valid p" "mset (handed_over calls) + pending_logs (pend p)
        = pending_logs (pend p0) + mset (logs_fetched calls)"
      "\<And>h logs. pend p h = Some logs \<Longrightarrow> from_query calls h logs \<or> pend p0 h = Some logs"
      "\<forall>x \<in> set (handed_over calls). origin l c p0 calls x"
    using assms(1) by (auto simp: ledger_def)
  have p1: "valid p1" "pend p1 = (pend p)(cs \<mapsto> dedup_batch {} raw)"
    using add_ok [OF led(1) assms(3,4)] by auto
  note pop = pop_ok [OF p1(1) assms(5)]
  have src: "from_query ?calls h logs \<or> pend p0 h = Some logs" if "pend p1 h = Some logs" for h logs
    using that led(3) p1(2) by (auto simp: from_query_def split: if_splits)
  have "pending_logs (pend p1) = mset (dedup_batch {} raw) + pending_logs (pend p)"
    using p1(2) assms(2) pending_logs_update by simp
  moreover have "pending_logs (pend p1) = mset ready + pending_logs (pend p2)" using pop by blast
  ultimately have "mset ready + pending_logs (pend p2) = mset (dedup_batch {} raw) + pending_logs (pend p)"
    by simp
  then have "mset (handed_over ?calls) + pending_logs (pend p2)
      = (mset (handed_over calls) + pending_logs (pend p)) + mset (dedup_batch {} raw)"
    by (simp add: add.assoc)
  then have "mset (handed_over ?calls) + pending_logs (pend p2)
      = pending_logs (pend p0) + mset (logs_fetched ?calls)"
    unfolding led(2) by simp
  moreover have "origin l c p0 ?calls x" if "x \<in> set (handed_over ?calls)" for x
  proof (cases "x \<in> set ready")
    case True
    with pop_confirmed_origin [OF p1(1) assms(5)] src show ?thesis unfolding origin_def by blast
  next
    case False
    with that led(4) show ?thesis by (auto intro: origin_append)
  qed
  moreover have "from_query ?calls h logs \<or> pend p0 h = Some logs" if "pend p2 h = Some logs" for h logs
    using src pop that by (simp add: map_le_def dom_def)
  ultimately show ?thesis using pop unfolding ledger_def by blast
qed

lemma ledger_cong:
  assumes "logs_fetched xs = logs_fetched ys" "handed_over xs = handed_over ys"
    and "\<And>h logs. from_query xs h logs = from_query ys h logs"
  shows "ledger l c p0 xs p = ledger l c p0 ys p"
  using assms by (simp add: ledger_def origin_def)

lemma ledger_post_of_inv: "ledger_inv l t0 w0 (t, cs, w) \<Longrightarrow> ledger_post l t0 w0 (res, t', w)"
  unfolding ledger_inv_def ledger_post_def ledger_def by (auto intro: mset_subset_eq_add_left simp flip: union_assoc) (metis mset_subset_eq_add_left)

lemma ledger_query:
  assumes "ledger_inv l t0 w0 (t, cs, w)" and "extends w calls w'" and "world.pool w' = world.pool w"
    and "calls = [] \<or> calls = [Call_EthGetLogs a b (Inl e)]"
  shows "ledger_inv l t0 w0 (t, cs, w')"
proof -
  from assms(1) obtain prev where prev: "extends w0 prev w"
      "ledger l (ConfirmBlockNum t0) (world.pool w0) prev (world.pool w)"
    by (auto simp: ledger_inv_def)
  have "ledger l (ConfirmBlockNum t0) (world.pool w0) (prev @ calls) (world.pool w')"
    using ledger_quiet [OF prev(2), of calls] assms(3,4) by auto
  with assms(1,3) extends_trans [OF prev(1) assms(2)] show ?thesis
    by (auto simp: ledger_inv_def)
qed

lemma ledger_failed:
  assumes "ledger_inv l t0 w0 (t, cs, w)" and "extends w [Call_EthGetLogs a b (Inr raw)] w'"
  shows "ledger_post l t0 w0 (Inl err, t', w')"
proof -
  from assms(1) obtain prev where prev: "extends w0 prev w"
      "ledger l (ConfirmBlockNum t0) (world.pool w0) prev (world.pool w)"
    by (auto simp: ledger_inv_def)
  let ?calls = "prev @ [Call_EthGetLogs a b (Inr raw)]"
  have "mset (handed_over prev) \<subseteq># pending_logs (pend (world.pool w0)) + mset (logs_fetched prev)"
    using prev(2) unfolding ledger_def by (metis mset_subset_eq_add_left)
  then have "mset (handed_over ?calls) \<subseteq># pending_logs (pend (world.pool w0)) + mset (logs_fetched ?calls)"
    by (simp add: subset_mset.add_increasing2 add.assoc [symmetric])
  moreover have "\<forall>x \<in> set (handed_over ?calls). origin l (ConfirmBlockNum t0) (world.pool w0) ?calls x"
    using prev(2) by (auto simp: ledger_def intro: origin_append)
  ultimately show ?thesis
    using extends_trans [OF prev(1) assms(2)] unfolding ledger_post_def by blast
qed

text \<open>A batch that is added and popped, with the calls of the hand-over.\<close>

lemma ledger_handed:
  assumes "ledger_inv l t0 w0 (t, cs, w)" and sto: "storable (dedup_batch {} raw)" and "unat cs < unat cs'" and "PendingPool t = Some P"
    and "extends w [Call_EthGetLogs cs b (Inr raw)] w1" and "world.pool w1 = world.pool w"
    and "pp_Add P cs (dedup_batch {} raw) (world.pool w1) = (None, p1)"
    and "pp_PopConfirmed P l (ConfirmBlockNum t) p1 = (Inr ready, p2)"
    and "extends w1 [] w2" and "hand_over t b ready w2 = (err, t', w3)" and "world.pool w3 = p2"
    and "extends w3 [] w'" and "pend (world.pool w') = pend p2" and "valid (world.pool w')"
  shows "ledger_inv l t0 w0 (t', cs', w')"
proof -
  have P: "P = pool" "ConfirmBlockNum t = ConfirmBlockNum t0"
    using assms(1,4) by (simp_all add: ledger_inv_def)
  from assms(1) obtain prev where prev: "extends w0 prev w" "\<forall>h \<in> dom (pend (world.pool w)). unat h < unat cs"
      "ledger l (ConfirmBlockNum t0) (world.pool w0) prev (world.pool w)"
    by (auto simp: ledger_inv_def)
  then have fresh: "pend (world.pool w) cs = None" by (metis domIff less_irrefl)
  obtain calls where c: "extends w2 calls w3" "handed_over calls = ready" "logs_fetched calls = []"
    "\<And>h logs. \<not> from_query calls h logs"
    "PendingPool t' = PendingPool t" "ConfirmBlockNum t' = ConfirmBlockNum t"
    using hand_over_calls [OF assms(10)] by blast
  let ?calls = "prev @ Call_EthGetLogs cs b (Inr raw) # calls"
  have "ledger l (ConfirmBlockNum t0) (world.pool w0) (prev @ Call_EthGetLogs cs b (Inr raw) # [Call_HandleBatch ready None]) p2"
    by (rule ledger_batch [OF prev(3) fresh sto]) (use assms(6,7,8) P in auto)
  also have "?this \<longleftrightarrow> ledger l (ConfirmBlockNum t0) (world.pool w0) ?calls p2"
    by (rule ledger_cong) (simp_all add: c(2-4))
  finally have "ledger l (ConfirmBlockNum t0) (world.pool w0) ?calls (world.pool w')"
    using assms(13,14) by (simp add: ledger_def)
  moreover have "extends w0 ?calls w'"
    using prev(1) assms(5,9,12) c(1) by (simp add: extends_def)
  moreover have "\<forall>h \<in> dom (pend (world.pool w')). unat h < unat cs'"
  proof -
    have v: "valid (world.pool w)" using prev(3) by (simp add: ledger_def)
    have "pend p1 = (pend (world.pool w))(cs \<mapsto> dedup_batch {} raw)" "valid p1"
      using add_ok [OF v sto] assms(6,7) P by auto
    moreover have "pend p2 \<subseteq>\<^sub>m pend p1"
      using pop_ok [OF \<open>valid p1\<close>] assms(8) P by blast
    ultimately have "dom (pend p2) \<subseteq> insert cs (dom (pend (world.pool w)))"
      using map_le_implies_dom_le by fastforce
    then have "h = cs \<or> h \<in> dom (pend (world.pool w))" if "h \<in> dom (pend (world.pool w'))" for h
      using that assms(13) by auto
    with prev(2) assms(3) show ?thesis by (metis less_trans)
  qed
  ultimately show ?thesis using c(5,6) P assms(4) by (auto simp: ledger_inv_def)
qed

text \<open>The node's answers can be stored.\<close>

definition stores_answers :: "'e RPCQuerier \<Rightarrow> bool" where
  "stores_answers rpc \<longleftrightarrow> (\<forall>a b addrs tops e logs.
     fst (rpc_EthGetLogs rpc a b addrs tops e) = Inr logs \<longrightarrow> storable (dedup_batch {} logs))"

lemma add_pop_valid:
  "valid p \<Longrightarrow> storable logs \<Longrightarrow> pp_Add pool h logs p = (None, p1) \<Longrightarrow> pp_PopConfirmed pool l c p1 = (Inr out, p2) \<Longrightarrow> valid p2"
  using add_ok pop_ok by blast

lemma ledger_invD:
  "ledger_inv l t0 w0 (t, cs, w) \<Longrightarrow> PendingPool t = Some pool \<and> valid (world.pool w)"
  by (auto simp: ledger_inv_def ledger_def)

lemma ledger_step:
  assumes "unat l + unat (BatchSize t0) < 2 ^ 64" and "cover_inv t0 l w0 (t, cs, w)"
    and "ledger_inv l t0 w0 (t, cs, w)" and "RunOnce_body host l (t, cs, w) = Some x"
    and "stores_answers (RPC t)"
  shows "case x of Inl s' \<Rightarrow> ledger_inv l t0 w0 s' | Inr out \<Rightarrow> ledger_post l t0 w0 out"
  using assms(4)
proof (cases rule: RunOnce_body_cases)
  case caught_up
  with ledger_post_of_inv [OF assms(3)] show ?thesis by simp
next
  case (stopped err w')
  with ledger_query [OF assms(3), of "[]" w'] show ?thesis by (auto intro: ledger_post_of_inv)
next
  case (rpc_error e w')
  with ledger_query [OF assms(3) rpc_error(5,4)] show ?thesis by (auto intro: ledger_post_of_inv)
next
  case (exhausted e w')
  with ledger_query [OF assms(3) exhausted(6,5)] show ?thesis by (auto intro: ledger_post_of_inv)
next
  case (shrink e w')
  with ledger_query [OF assms(3) shrink(6,5)] show ?thesis by (auto simp: ledger_inv_def)
next
  case (failed logs w1 P err t' w')
  have sto: "storable (dedup_batch {} logs)" using assms(5) failed(7) unfolding stores_answers_def by blast
  have P: "P = pool" using failed(2) ledger_invD [OF assms(3)] by simp
  note lt = cover_batch [OF assms(1,2) failed(1,4,5) extends_refl, THEN conjunct2, THEN conjunct1]
  from failed(5) show ?thesis
  proof (cases rule: process_batch_cases)
    case (add e p)
    then show ?thesis
      using ledger_failed [OF assms(3)] failed(4,6) by (simp add: extends_def)
  next
    case (pop p1 e p)
    then show ?thesis
      using ledger_failed [OF assms(3)] failed(4,6) by (simp add: extends_def)
  next
    case (handed p1 p ready w2)
    have v: "valid (world.pool w')"
      using add_pop_valid [OF _ sto handed(1) [unfolded P] handed(2) [unfolded P]] ledger_invD [OF assms(3)]
        failed(3) handed(6) by simp
    have "ledger_inv l t0 w0 (t', batch_end l cs (BatchSize t) + 1, w')"
      by (rule ledger_handed [OF assms(3) sto lt failed(2,4,3) handed(1,2,4,5,6) extends_refl _ v])
        (simp add: handed(6))
    then show ?thesis using failed(6) by (auto intro: ledger_post_of_inv)
  qed
next
  case (advance logs w1 P t' w2 w')
  have sto: "storable (dedup_batch {} logs)" using assms(5) advance(9) unfolding stores_answers_def by blast
  have P: "P = pool" using advance(2) ledger_invD [OF assms(3)] by simp
  note lt = cover_batch [OF assms(1,2) advance(1,4,5,6), THEN conjunct2, THEN conjunct1]
  from advance(5) show ?thesis
  proof (cases rule: process_batch_cases)
    case (handed p1 p ready w3)
    have v: "valid p"
      using add_pop_valid [OF _ sto handed(1) [unfolded P] handed(2) [unfolded P]] ledger_invD [OF assms(3)]
        advance(3) by simp
    with P count_valid [OF v, of "fst (pp_Count P p)" "snd (pp_Count P p)"] advance(7) handed(6)
    have c: "valid (world.pool w')" "pend (world.pool w') = pend p" by simp_all
    show ?thesis
      using ledger_handed [OF assms(3) sto lt advance(2,4,3) handed(1,2,4,5,6) advance(6) c(2,1)]
      by (simp add: advance(8))
  qed auto
qed

lemma ledger_loop:
  assumes "unat l + unat (BatchSize t) < 2 ^ 64" and "cover_inv t l w (t, cs, w)"
    and "ledger_inv l t w (t, cs, w)" and "stores_answers (RPC t)"
    and "go_loop (RunOnce_body host l) (t, cs, w) = Some out"
  shows "ledger_post l t w out"
proof (rule go_loop_rule [OF assms(5), where I = "\<lambda>s. cover_inv t l w s \<and> ledger_inv l t w s \<and> RPC (fst s) = RPC t"])
  fix s s' assume inv: "cover_inv t l w s \<and> ledger_inv l t w s \<and> RPC (fst s) = RPC t"
    and body: "RunOnce_body host l s = Some (Inl s')"
  obtain t1 cs1 w1 t2 cs2 w2 where s: "s = (t1, cs1, w1)" "s' = (t2, cs2, w2)" by (cases s; cases s')
  have "RPC t2 = RPC t1"
    using RunOnce_body_inv [OF body [unfolded s]] same_taskD [of t1 t2] by (simp add: round_inv_def)
  with inv body s cover_step [OF assms(1), of w t1 cs1 w1] ledger_step [OF assms(1), of w t1 cs1 w1] assms(4)
  show "cover_inv t l w s' \<and> ledger_inv l t w s' \<and> RPC (fst s') = RPC t" by fastforce
next
  fix s r assume "cover_inv t l w s \<and> ledger_inv l t w s \<and> RPC (fst s) = RPC t"
    "RunOnce_body host l s = Some (Inr r)"
  with assms(4) show "ledger_post l t w r"
    using ledger_step [OF assms(1)] by (cases s) fastforce
qed (use assms in simp)

lemma ledger_start:
  assumes "PendingPool t = Some pool" and "valid (world.pool w)"
    and "\<forall>h \<in> dom (pend (world.pool w)). h < Checkpoint t"
  shows "ledger_inv l t w (t, Checkpoint t, w)"
  using assms by (auto simp: ledger_inv_def ledger_def word_less_nat_alt intro!: exI [of _ "[]"])

end

end
