(* ===== verification/Log_Sync.thy ===== *)
theory Log_Sync
  imports Log_Task
begin

text \<open>
  The properties of one round of the log filter (\<open>RunOnce\<close> of \<open>go/logfilter/logfilter.go\<close>): it
  ends, it queries every block from the checkpoint to the head once, no log is lost or invented
  within the round, the checkpoint is saved only after a successful hand-over and every slot is
  given back; and the behaviours that go against what the comments promise: a batch is confirmed
  by its first block, the checkpoint can pass logs that are still pending, and a batch size that
  was shrunk to zero never recovers.
\<close>

section \<open>A chain to run the filter on\<close>

text \<open>
  A node with a fixed list of logs, whose answers to \<open>BlockNumber\<close> are the heads in the
  environment, one after the other; a store that accepts every save.
\<close>

definition chain_rpc :: "LogResult list \<Rightarrow> u64 list RPCQuerier" where
  "chain_rpc chain = \<lparr>
     rpc_BlockNumber = (\<lambda>heads. case heads of [] \<Rightarrow> (Inl (Err_New ''no head''), []) | h # hs \<Rightarrow> (Inr h, hs)),
     rpc_EthGetLogs = (\<lambda>a b addrs tops heads.
       (Inr (filter (\<lambda>l. a \<le> lr_BlockNumUint l \<and> lr_BlockNumUint l \<le> b) chain), heads))\<rparr>"

definition accepting_store :: "'e CheckpointStore" where
  "accepting_store = \<lparr>cs_Save = (\<lambda>b e. (None, e)), cs_Load = (\<lambda>e. (Inr 0, e))\<rparr>"

abbreviation memory_pool :: "BlockPendingPool PendingPool" where
  "memory_pool \<equiv> block_pool (\<lambda>n xs. xs)"

definition sample_task :: "LogResult list \<Rightarrow> u64 \<Rightarrow> u64 \<Rightarrow> (u64 list, BlockPendingPool) LogTask" where
  "sample_task chain cp n = \<lparr>TaskName = ''sample'', Address = [], Topics = [], Checkpoint = cp, BatchSize = n,
     RPC = chain_rpc chain, Store = accepting_store, BatchHandler = NoopBatchHandler,
     LiveMode = False, LivePollInterval = 0, RestartBackoff = 0, MaxBackoff = 0,
     ConfirmBlockNum = 6, PendingPool = Some memory_pool, unhealthyStart = None\<rparr>"

definition fresh_world :: "'e \<Rightarrow> ('e, BlockPendingPool) world" where
  "fresh_world e = \<lparr>env = e, pool = NewBlockPendingPool, RPCSem = sample_sem, TaskLocalSem = sample_sem,
     rpcConcurrent = 0, rpcOk = 0, rpcFail = 0, logsTotal = 0, batchDurations = [], pendingBlockCount = 0,
     taskHealth = 1, taskUnhealthyNs = 0, taskLiveMode = 0, trace = []\<rparr>"

lemmas sample_defs = sample_task_def chain_rpc_def fresh_world_def sample_sem_def has_room_def

text \<open>A log in block \<open>n\<close>.\<close>

definition log_at :: "u64 \<Rightarrow> LogResult" where
  "log_at n = \<lparr>lr_BlockNumber = FormatUint n, lr_BlockNumUint = n, lr_TransactionHash = ''0xaa'',
     lr_Address = ''0xcc'', lr_Topics = [], lr_Data = []\<rparr>"

lemma RunOnce_head:
  assumes "rpc_BlockNumber (RPC t) (env w) = (Inr l, e)" and "Checkpoint t \<le> l"
  shows "RunOnce host t w = go_loop (RunOnce_body host l) (t, Checkpoint t,
    w\<lparr>env := e, trace := trace w @ [Call_BlockNumber (Inr l)], rpcOk := Suc (rpcOk w)\<rparr>)"
  using assms by (simp add: RunOnce_def Let_def leD)

text \<open>Asking for the head is one more call that neither saves nor takes a slot.\<close>

lemma round_inv_head: "extends w [Call_BlockNumber r] w' \<Longrightarrow> round_inv t w t w'"
  by (rule round_invI [where calls = "[Call_BlockNumber r]"]) (simp_all add: saves_guarded_def)

lemma RunOnce_round:
  assumes "RunOnce host t w = Some (res, t', w')"
  shows "round_inv t w t' w'"
proof -
  obtain bres e where b: "rpc_BlockNumber (RPC t) (env w) = (bres, e)" by fastforce
  show ?thesis
  proof (cases bres)
    case (Inl err)
    with assms b have "t' = t" "extends w [Call_BlockNumber bres] w'"
      by (auto simp: RunOnce_def Let_def extends_def)
    then show ?thesis by (auto intro: round_inv_head)
  next
    case (Inr l)
    let ?w = "w\<lparr>env := e, trace := trace w @ [Call_BlockNumber (Inr l)], rpcOk := Suc (rpcOk w)\<rparr>"
    have hd: "round_inv t w t ?w"
      by (rule round_inv_head [of _ "Inr l"]) (simp add: extends_def)
    show ?thesis
    proof (cases "l < Checkpoint t")
      case True
      with assms b Inr have "t' = t" "w' = ?w" by (simp_all add: RunOnce_def Let_def)
      with hd show ?thesis by simp
    next
      case False
      with assms b Inr have "go_loop (RunOnce_body host l) (t, Checkpoint t, ?w) = Some (res, t', w')"
        by (simp add: RunOnce_def Let_def)
      then show ?thesis by (intro round_inv_trans [OF hd] RunOnce_loop_inv)
    qed
  qed
qed

section \<open>No block is skipped\<close>

text \<open>Before a checkpoint is saved, every block from \<open>cp\<close> up to it was in a successful query.\<close>

definition no_gaps :: "u64 \<Rightarrow> call list \<Rightarrow> bool" where
  "no_gaps cp calls \<longleftrightarrow> (\<forall>before b r after. calls = before @ Call_Save b r # after \<longrightarrow>
     {unat cp..unat b} \<subseteq> set (blocks_fetched before))"

lemma no_gaps_quiet: "(\<And>b r. Call_Save b r \<notin> set calls) \<Longrightarrow> no_gaps cp calls"
  unfolding no_gaps_def by (metis in_set_conv_decomp)

lemma last_saved:
  "saved calls \<noteq> [] \<Longrightarrow> \<exists>before after. calls = before @ Call_Save (last (saved calls)) None # after"
proof (induction calls rule: rev_induct)
  case (snoc c calls)
  show ?case
  proof (cases "\<exists>b. c = Call_Save b None")
    case False
    then have "saved [c] = []" by (cases c rule: call.exhaust; cases "Some c") (auto simp: saved_def split: option.split)
    with snoc obtain before after where "calls = before @ Call_Save (last (saved calls)) None # after" by auto
    with \<open>saved [c] = []\<close> show ?thesis by (metis append.assoc append_Cons append_Nil2 trace_append(4))
  next
    case True
    then obtain b where "c = Call_Save b None" ..
    then show ?thesis by (intro exI [of _ calls] exI [of _ "[]"]) simp
  qed
qed simp

lemma no_gaps_append:
  assumes "no_gaps cp xs" and "no_gaps (last (cp # saved xs)) ys"
  shows "no_gaps cp (xs @ ys)"
  unfolding no_gaps_def
proof (intro allI impI)
  fix before b r after
  assume eq: "xs @ ys = before @ Call_Save b r # after"
  then consider (first) us where "xs = before @ Call_Save b r # us"
    | (second) us where "before = xs @ us" "ys = us @ Call_Save b r # after"
    by (auto simp: append_eq_append_conv2 Cons_eq_append_conv append_eq_Cons_conv)
  then show "{unat cp..unat b} \<subseteq> set (blocks_fetched before)"
  proof cases
    case first
    with assms(1) show ?thesis by (auto simp: no_gaps_def)
  next
    case second
    let ?cp = "last (cp # saved xs)"
    have new: "{unat ?cp..unat b} \<subseteq> set (blocks_fetched us)" using assms(2) second by (auto simp: no_gaps_def)
    show ?thesis
    proof (cases "saved xs = []")
      case False
      then obtain vs zs where xs: "xs = vs @ Call_Save ?cp None # zs" using last_saved by fastforce
      with assms(1) have "{unat cp..unat ?cp} \<subseteq> set (blocks_fetched vs)" unfolding no_gaps_def by blast
      then have "{unat cp..unat ?cp} \<subseteq> set (blocks_fetched xs)" by (subst xs) auto
      moreover have "{unat cp..unat b} \<subseteq> {unat cp..unat ?cp} \<union> {unat ?cp..unat b}" by auto
      ultimately show ?thesis using new second by auto
    qed (use new second in auto)
  qed
qed

text \<open>Within a round: the blocks before the cursor were fetched.\<close>

definition gap_inv :: "u64 \<Rightarrow> ('e, 'p) world \<Rightarrow> ('e, 'p) round \<Rightarrow> bool" where
  "gap_inv cp w0 = (\<lambda>(t, cs, w). \<exists>calls. extends w0 calls w \<and> no_gaps cp calls
     \<and> {unat cp..<unat cs} \<subseteq> set (blocks_fetched calls))"

lemma gap_inv_query:
  assumes "gap_inv cp w0 (t, cs, w)" and "extends w calls w'" and "calls = [] \<or> calls = [Call_EthGetLogs a b (Inl e)]"
  shows "gap_inv cp w0 (t', cs, w')"
proof -
  from assms(1) obtain prev where prev: "extends w0 prev w" "no_gaps cp prev" "{unat cp..<unat cs} \<subseteq> set (blocks_fetched prev)"
    by (auto simp: gap_inv_def)
  have "no_gaps cp (prev @ calls)"
    by (rule no_gaps_append [OF prev(2)]) (use assms(3) in \<open>auto intro!: no_gaps_quiet\<close>)
  with prev(3) extends_trans [OF prev(1) assms(2)] show ?thesis
    by (auto simp: gap_inv_def intro!: exI [of _ "prev @ calls"])
qed

lemma gap_inv_batch:
  assumes "gap_inv cp w0 (t, cs, w)" and "extends w [Call_EthGetLogs cs end (Inr logs)] w1"
    and "process_batch l P t cs end logs w1 = (err, t', w2)" and "extends w2 [] w'"
  shows "gap_inv cp w0 (t', end + 1, w')"
proof -
  from assms(1) obtain prev where prev: "extends w0 prev w" "no_gaps cp prev" "{unat cp..<unat cs} \<subseteq> set (blocks_fetched prev)"
    by (auto simp: gap_inv_def)
  obtain more where more: "extends w1 more w2" "more = [] \<or> (\<exists>ready e. more = [Call_HandleBatch ready (Some e)])
      \<or> (\<exists>ready r. more = [Call_HandleBatch ready None, Call_Save end r])"
    using process_batch_task [OF assms(3), of t] by auto
  let ?calls = "prev @ Call_EthGetLogs cs end (Inr logs) # more"
  have ext: "extends w0 ?calls w'" using prev(1) assms(2,4) more(1) by (simp add: extends_def)
  have upto: "{unat cp..unat end} \<subseteq> set (blocks_fetched prev) \<union> {unat cs..unat end}"
    using prev(3) by (auto simp: subset_iff not_less)
  have "no_gaps cp ?calls"
    unfolding no_gaps_def
  proof (intro allI impI)
    fix before b r after
    assume eq: "?calls = before @ Call_Save b r # after"
    then consider (first) us where "prev = before @ Call_Save b r # us"
      | (second) us where "before = prev @ us" "Call_EthGetLogs cs end (Inr logs) # more = us @ Call_Save b r # after"
      by (auto simp: append_eq_append_conv2 Cons_eq_append_conv append_eq_Cons_conv)
    then show "{unat cp..unat b} \<subseteq> set (blocks_fetched before)"
    proof cases
      case first
      with prev(2) show ?thesis by (auto simp: no_gaps_def)
    next
      case second
      with more(2) have "b = end" "blocks_fetched us = [unat cs..<Suc (unat end)]"
        by (auto simp: Cons_eq_append_conv append_eq_Cons_conv)
      with upto second(1) show ?thesis by auto
    qed
  qed
  moreover have "unat (end + 1) \<le> Suc (unat end)" by (simp add: unat_word_ariths)
  then have "{unat cp..<unat (end + 1)} \<subseteq> {unat cp..unat end}" by auto
  with upto have "{unat cp..<unat (end + 1)} \<subseteq> set (blocks_fetched ?calls)" by (auto dest!: subsetD)
  ultimately show ?thesis using ext unfolding gap_inv_def prod.case by blast
qed

lemma gap_inv_body:
  assumes "gap_inv cp w0 (t, cs, w)" and "RunOnce_body host l (t, cs, w) = Some x"
  shows "case x of Inl s' \<Rightarrow> gap_inv cp w0 s' | Inr (res, t', w') \<Rightarrow> \<exists>cs'. gap_inv cp w0 (t', cs', w')"
  using assms(2)
  by (cases rule: RunOnce_body_cases)
    (use assms(1) in \<open>auto intro: gap_inv_query [OF assms(1)] gap_inv_batch [OF assms(1)] extends_refl\<close>)

lemma RunOnce_gapless:
  assumes "RunOnce host t w = Some (res, t', w')"
  shows "\<exists>calls. extends w calls w' \<and> no_gaps (Checkpoint t) calls"
proof -
  obtain bres e where b: "rpc_BlockNumber (RPC t) (env w) = (bres, e)" by fastforce
  have quiet: "extends w [Call_BlockNumber bres] w1 \<Longrightarrow> ?thesis" if "w1 = w'" for w1
    using that by (auto intro!: exI [of _ "[Call_BlockNumber bres]"] no_gaps_quiet)
  show ?thesis
  proof (cases bres)
    case (Inr l)
    let ?w = "w\<lparr>env := e, trace := trace w @ [Call_BlockNumber (Inr l)], rpcOk := Suc (rpcOk w)\<rparr>"
    show ?thesis
    proof (cases "l < Checkpoint t")
      case False
      with assms b Inr have "go_loop (RunOnce_body host l) (t, Checkpoint t, ?w) = Some (res, t', w')"
        by (simp add: RunOnce_def Let_def)
      then have "(\<lambda>(res, t', w'). \<exists>cs'. gap_inv (Checkpoint t) w (t', cs', w')) (res, t', w')"
      proof (rule go_loop_rule [where I = "gap_inv (Checkpoint t) w"])
        show "gap_inv (Checkpoint t) w (t, Checkpoint t, ?w)"
          by (auto simp: gap_inv_def extends_def intro!: no_gaps_quiet)
      qed (use gap_inv_body in fastforce)+
      then show ?thesis by (auto simp: gap_inv_def)
    qed (use quiet [of w'] assms b Inr in \<open>auto simp: RunOnce_def Let_def extends_def\<close>)
  qed (use quiet [of w'] assms b in \<open>auto simp: RunOnce_def Let_def extends_def\<close>)
qed

section \<open>Rounds in sequence\<close>

text \<open>Several rounds that succeed, one after the other.\<close>

primrec rounds :: "'e Host \<Rightarrow> nat \<Rightarrow> ('e, 'p) LogTask \<Rightarrow> ('e, 'p) world \<Rightarrow> (('e, 'p) LogTask \<times> ('e, 'p) world) option" where
  "rounds host 0 t w = Some (t, w)"
| "rounds host (Suc n) t w =
     (case RunOnce host t w of
        Some (Inr True, t', w') \<Rightarrow> rounds host n t' w'
      | _ \<Rightarrow> None)"

abbreviation three_logs :: "LogResult list" where
  "three_logs \<equiv> [log_at 105, log_at 112, log_at 117]"

lemma rounds_2: "rounds host 2 t w = rounds host (Suc (Suc 0)) t w"
  unfolding numeral_2_eq_2 ..

section \<open>Evaluating rounds\<close>

lemma RunOnce_loop_unfold:
  "go_loop (RunOnce_body host l) (t, cs, w) =
     (case RunOnce_body host l (t, cs, w) of None \<Rightarrow> None
      | Some (Inl s) \<Rightarrow> go_loop (RunOnce_body host l) s
      | Some (Inr r) \<Rightarrow> Some r)"
  by (subst go_loop.simps) (auto split: option.split sum.split)

lemmas RunOnce_body_applied =
  fun_cong [OF RunOnce_body_def, where x = "(t, cs, w)" for t cs w, unfolded prod.case]

lemma dedup_short: "dedup_batch {} [] = []" "dedup_batch {} [x] = [x]"
  by (simp_all add: Let_def)

lemma log_at_block [simp]: "lr_BlockNumUint (log_at n) = n" "log_at m = log_at n \<longleftrightarrow> m = n"
  by (auto simp: log_at_def)

lemmas round_simps = RunOnce_def RunOnce_loop_unfold RunOnce_body_applied locked_fetch_def
  acquire_local_def acquire_rpc_def release_local_def release_rpc_def Acquire_room has_room_def
  slot_simps batch_end_def process_batch_def hand_over_def record_batch_def
  block_pool_def BlockPendingPool_Add_def BlockPendingPool_PopConfirmed_def BlockPendingPool_Count_def
  chain_rpc_def accepting_store_def NoopBatchHandler_def plain_host_def Let_def sample_sem_def
  NewBlockPendingPool_def sample_task_def fresh_world_def dedup_short

section \<open>Where an error comes from\<close>

definition error_source :: "'e Host \<Rightarrow> ('e, 'p) LogTask \<Rightarrow> go_error \<Rightarrow> u64 \<Rightarrow> bool" where
  "error_source host t err batchSize \<longleftrightarrow>
     (\<exists>e0. fst (ctx_Err host e0) = Some err)
   \<or> (\<exists>e e0. err = Err_Wrap ''get latest block: '' e [] \<and> fst (rpc_BlockNumber (RPC t) e0) = Inl e)
   \<or> (\<exists>e a b addrs tops e0. err = Err_Wrap ''rpc query: '' e [] \<and> \<not> IsRateLimitOrRangeErr (Some e)
        \<and> fst (rpc_EthGetLogs (RPC t) a b addrs tops e0) = Inl e)
   \<or> (\<exists>e a b addrs tops e0. err = Err_Wrap ''batch reduced to 1, still failing: '' e []
        \<and> IsRateLimitOrRangeErr (Some e) \<and> batchSize = 0
        \<and> fst (rpc_EthGetLogs (RPC t) a b addrs tops e0) = Inl e)
   \<or> (\<exists>e P h logs p. err = Err_Wrap ''pending add: '' e [] \<and> PendingPool t = Some P
        \<and> fst (pp_Add P h logs p) = Some e)
   \<or> (\<exists>e P l c p. err = Err_Wrap ''pending pop: '' e [] \<and> PendingPool t = Some P
        \<and> fst (pp_PopConfirmed P l c p) = Inl e)
   \<or> (\<exists>e logs e0. err = Err_Wrap ''batch handler: '' e [] \<and> fst (BatchHandler t logs e0) = Some e)
   \<or> (\<exists>e b e0. err = Err_Wrap ''save checkpoint: '' e [] \<and> fst (cs_Save (Store t) b e0) = Some e)"

lemma error_source_same: "same_task t t' \<Longrightarrow> error_source host t' err n = error_source host t err n"
  by (drule same_taskD) (simp add: error_source_def)

lemma process_batch_error:
  assumes "process_batch l P t cs end logs w = (Some err, t', w')" and "PendingPool t = Some P"
  shows "error_source host t err n"
  using assms(1)
proof (cases rule: process_batch_cases)
  case (add e p)
  with assms(2) show ?thesis unfolding error_source_def by (metis fst_conv option.inject)
next
  case (pop p1 e p)
  with assms(2) show ?thesis unfolding error_source_def by (metis fst_conv option.inject)
next
  case (handed p1 p ready w1)
  from hand_overD [OF handed(5)] show ?thesis unfolding error_source_def by auto
qed

lemma div_2_less_1: "(n :: u64) div 2 < 1 \<longleftrightarrow> n div 2 = 0"
  by (metis less_one unat_0 unat_1 unsigned_0 word_less_nat_alt word_unat_eq_iff)

lemma RunOnce_body_error:
  assumes "RunOnce_body host l (t, cs, w) = Some (Inr (Inl err, t', w'))"
  shows "error_source host t err (BatchSize t')"
  using assms
proof (cases rule: RunOnce_body_cases)
  case (exhausted e w'')
  then show ?thesis by (auto simp: error_source_def div_2_less_1)
next
  case (failed logs w1 P err' t'' w'')
  then show ?thesis using process_batch_error [OF failed(5,2)] by simp
qed (auto simp: error_source_def)

section \<open>A batch size of zero\<close>

lemma zero_batch_end: "0 < cs \<Longrightarrow> \<not> l < cs \<Longrightarrow> batch_end l cs 0 = cs - 1 \<and> batch_end l cs 0 + 1 = (cs :: u64)"
proof -
  assume cs: "0 < cs" "\<not> l < cs"
  then have "unat (cs - 1) = unat cs - 1" by (intro unat_minus_one_u64) auto
  with cs(1) have "cs - 1 < cs" by (simp add: word_less_nat_alt)
  moreover from this cs(2) have "\<not> l < cs - 1" by (meson less_trans)
  ultimately show ?thesis by (simp add: batch_end_def Let_def)
qed

lemma zero_batch_step:
  assumes "BatchSize t = 0" and "0 < cs" and "cs \<le> l" and "RunOnce_body host l (t, cs, w) = Some x"
  shows "(\<exists>t' w'. x = Inl (t', cs, w') \<and> BatchSize t' = 0 \<and> same_task t t')
    \<or> (\<exists>err t' w'. x = Inr (Inl err, t', w'))"
proof -
  have run: "\<not> l < cs" using assms(3) by simp
  show ?thesis
    using assms(4)
  proof (cases rule: RunOnce_body_cases)
    case (advance logs w1 P t' w2 w')
    with process_batch_task [OF advance(5), of t] zero_batch_end [OF assms(2) run] assms(1)
    show ?thesis by auto
  qed (use assms(1) run in auto)
qed

text \<open>An environment in which nothing reports an error, with the in-memory pool.\<close>

definition never_errs :: "'e Host \<Rightarrow> ('e, BlockPendingPool) LogTask \<Rightarrow> bool" where
  "never_errs host t \<longleftrightarrow> (\<forall>e. fst (ctx_Err host e) = None)
     \<and> (\<forall>a b addrs tops e. \<exists>logs. fst (rpc_EthGetLogs (RPC t) a b addrs tops e) = Inr logs)
     \<and> (\<forall>logs e. fst (BatchHandler t logs e) = None) \<and> (\<forall>b e. fst (cs_Save (Store t) b e) = None)
     \<and> (\<exists>ord. PendingPool t = Some (block_pool ord))"

lemma block_pool_no_error:
  "pp_Add (block_pool ord) h logs p \<noteq> (Some err, p')"
  "pp_PopConfirmed (block_pool ord) l c p \<noteq> (Inl err, p')"
  by (auto simp: block_pool_def BlockPendingPool_Add_def BlockPendingPool_PopConfirmed_def split: prod.splits)

lemma never_errs_body:
  assumes "never_errs host t"
  shows "RunOnce_body host l (t, cs, w) \<noteq> Some (Inr (Inl err, t', w'))"
proof
  have rpc: "fst (rpc_EthGetLogs (RPC t) a b addrs tops e0) \<noteq> Inl e" for a b addrs tops e0 e
    using assms unfolding never_errs_def by (metis sum.distinct(1))
  have ctx: "fst (ctx_Err host e0) \<noteq> Some e" for e0 e
    using assms unfolding never_errs_def by simp
  assume "RunOnce_body host l (t, cs, w) = Some (Inr (Inl err, t', w'))"
  then show False
  proof (cases rule: RunOnce_body_cases)
    case (failed logs w1 P err' t2 w2)
    obtain ord where P: "P = block_pool ord" using failed(2) assms by (auto simp: never_errs_def)
    from failed(5) show False
    proof (cases rule: process_batch_cases)
      case (handed p1 p ready w3)
      with hand_overD [OF handed(5)] assms show False by (auto simp: never_errs_def)
    qed (use block_pool_no_error P in blast)+
  qed (use rpc ctx in auto)
qed

text \<open>The cursor stays at \<open>c\<close>, so no round of the loop is the last one.\<close>

definition stuck :: "u64 \<Rightarrow> ('e, 'p) round \<Rightarrow> bool" where
  "stuck c = (\<lambda>(t, cs, w). BatchSize t = 0 \<and> cs = c)"

lemma stuck_step:
  assumes "0 < c" and "c \<le> l" and "stuck c s" and "RunOnce_body host l s = Some x"
  shows "(\<exists>s'. x = Inl s' \<and> stuck c s' \<and> same_task (fst s) (fst s'))
    \<or> (\<exists>err t' w'. x = Inr (Inl err, t', w'))"
proof -
  obtain t w where "s = (t, c, w)" "BatchSize t = 0" using assms(3) by (cases s) (auto simp: stuck_def)
  with zero_batch_step [of t c l host w x] assms(1,2,4) show ?thesis by (auto simp: stuck_def)
qed

lemma stuck_result:
  assumes "0 < c" and "c \<le> l" and "BatchSize t = 0"
    and "go_loop (RunOnce_body host l) (t, c, w) = Some (res, t', w')"
  shows "\<exists>err. res = Inl err"
proof -
  from go_loop_exit_state [OF assms(4)] obtain s where
    s: "loop_reach (RunOnce_body host l) (t, c, w) s" "RunOnce_body host l s = Some (Inr (res, t', w'))"
    by blast
  from s(1) have "stuck c s"
    by (rule loop_reach_invariant) (use assms(3) in \<open>auto simp: stuck_def dest!: stuck_step [OF assms(1,2), rotated]\<close>)
  from stuck_step [OF assms(1,2) this s(2)] show ?thesis by auto
qed

lemma never_errs_same: "same_task t t' \<Longrightarrow> never_errs host t' = never_errs host t"
  by (drule same_taskD) (simp add: never_errs_def)

lemma stuck_diverges:
  assumes "0 < c" and "c \<le> l" and "BatchSize t = 0" and "never_errs host t"
  shows "go_loop (RunOnce_body host l) (t, c, w) = None"
proof (rule go_loop_diverges [where I = "\<lambda>s. stuck c s \<and> never_errs host (fst s)"])
  fix s assume s: "stuck c s \<and> never_errs host (fst s)"
  show "RunOnce_body host l s = None \<or> (\<exists>s'. RunOnce_body host l s = Some (Inl s')
      \<and> stuck c s' \<and> never_errs host (fst s'))"
  proof (cases "RunOnce_body host l s")
    case (Some x)
    from s have "x \<noteq> Inr (Inl err, t', w')" for err t' w'
      using never_errs_body [of host "fst s" l "fst (snd s)" "snd (snd s)" err t' w'] Some by auto
    with stuck_step [OF assms(1,2) _ Some] s obtain s' where
      "x = Inl s'" "stuck c s'" "same_task (fst s) (fst s')" by blast
    with Some s show ?thesis by (simp add: never_errs_same)
  qed simp
qed (use assms(3,4) in \<open>simp add: stuck_def\<close>)

section \<open>A round returns\<close>

lemma RunOnce_returns:
  assumes "rpc_BlockNumber (RPC t) (env w) = (Inr l, e)" and "Checkpoint t \<le> l"
    and "PendingPool t \<noteq> None" and "0 < BatchSize t" and "unat l + unat (BatchSize t) < 2 ^ 64"
    and "has_room (TaskLocalSem w)" and "has_room (RPCSem w)"
  shows "\<exists>res t' w'. RunOnce host t w = Some (res, t', w')"
proof -
  let ?w = "w\<lparr>env := e, trace := trace w @ [Call_BlockNumber (Inr l)], rpcOk := Suc (rpcOk w)\<rparr>"
  have "cover_inv t l ?w (t, Checkpoint t, ?w)"
    by (rule cover_start) (use assms(2-4) in \<open>auto simp: word_less_nat_alt word_le_nat_alt\<close>)
  from RunOnce_loop_returns [OF assms(5) this, of host] RunOnce_head [OF assms(1,2)] assms(6,7)
  show ?thesis by auto
qed

section \<open>The books of a round\<close>

text \<open>For every pool that keeps the contract.\<close>

context pending_pool
begin

lemma RunOnce_books:
  assumes "PendingPool t = Some pool" and "stores_answers (RPC t)"
    and "valid (world.pool w)" and "\<forall>h \<in> dom (pend (world.pool w)). h < Checkpoint t"
    and "rpc_BlockNumber (RPC t) (env w) = (Inr l, e)" and "Checkpoint t \<le> l"
    and "0 < BatchSize t" and "unat l + unat (BatchSize t) < 2 ^ 64"
    and "RunOnce host t w = Some (res, t', w')"
  shows "\<exists>calls. trace w' = trace w @ Call_BlockNumber (Inr l) # calls
    \<and> mset (handed_over calls) \<subseteq># pending_logs (pend (world.pool w)) + mset (logs_fetched calls)
    \<and> (\<forall>x \<in> set (handed_over calls). \<exists>h logs. confirmed l (ConfirmBlockNum t) h \<and> x \<in> set logs
         \<and> (from_query calls h logs \<or> pend (world.pool w) h = Some logs))
    \<and> (res = Inr True \<longrightarrow> mset (handed_over calls) + pending_logs (pend (world.pool w'))
         = pending_logs (pend (world.pool w)) + mset (logs_fetched calls))"
proof -
  let ?w = "w\<lparr>env := e, trace := trace w @ [Call_BlockNumber (Inr l)], rpcOk := Suc (rpcOk w)\<rparr>"
  have run: "go_loop (RunOnce_body host l) (t, Checkpoint t, ?w) = Some (res, t', w')"
    using assms(9) RunOnce_head [OF assms(5,6)] by metis
  have cover: "cover_inv t l ?w (t, Checkpoint t, ?w)"
    by (rule cover_start) (use assms(1,6,7) in \<open>auto simp: word_less_nat_alt word_le_nat_alt\<close>)
  have "ledger_inv l t ?w (t, Checkpoint t, ?w)"
    by (rule ledger_start [OF assms(1)]) (use assms(3,4) in simp_all)
  from ledger_loop [OF assms(8) cover this assms(2) run] show ?thesis
    unfolding ledger_post_def origin_def extends_def by auto
qed

end

section \<open>Properties\<close>










text \<open>
  C28. Every error of a round is the context's own error, or the error of one collaborator wrapped
  with the message of the step that failed, so that \<open>errors.Is\<close> still finds it; the message about
  the reduced batch is only given for an error that asks for smaller batches, and leaves the batch
  size at zero.
\<close>

theorem RunOnce_errors:
  assumes "RunOnce host t w = Some (Inl err, t', w')"
  shows "error_source host t err (BatchSize t')"
proof -
  obtain bres e where b: "rpc_BlockNumber (RPC t) (env w) = (bres, e)" by fastforce
  show ?thesis
  proof (cases bres)
    case (Inl e1)
    with assms b have "err = Err_Wrap ''get latest block: '' e1 []" by (simp add: RunOnce_def Let_def)
    with b Inl show ?thesis unfolding error_source_def by (metis fst_conv)
  next
    case (Inr l)
    let ?w = "w\<lparr>env := e, trace := trace w @ [Call_BlockNumber (Inr l)], rpcOk := Suc (rpcOk w)\<rparr>"
    from assms b Inr have "go_loop (RunOnce_body host l) (t, Checkpoint t, ?w) = Some (Inl err, t', w')"
      by (auto simp: RunOnce_def Let_def split: if_splits)
    from go_loop_exit_state [OF this] obtain t1 cs1 w1 where
      1: "loop_reach (RunOnce_body host l) (t, Checkpoint t, ?w) (t1, cs1, w1)"
        "RunOnce_body host l (t1, cs1, w1) = Some (Inr (Inl err, t', w'))"
      by (metis prod_cases3)
    have "(\<lambda>(t1, cs1, w1). same_task t t1) (t1, cs1, w1)"
      by (rule loop_reach_invariant [OF 1(1)])
        (auto dest!: RunOnce_body_inv intro: same_task_trans simp: round_inv_def)
    with RunOnce_body_error [OF 1(2)] show ?thesis by (simp add: error_source_same)
  qed
qed

text \<open>A node that refuses every range, asked with batch size one.\<close>

definition refused_task :: "(u64 list, BlockPendingPool) LogTask" where
  "refused_task = (sample_task [] 100 1)\<lparr>RPC := (chain_rpc [])\<lparr>rpc_EthGetLogs :=
     (\<lambda>a b addrs tops e. (Inl (Err_New ''block range too large''), e))\<rparr>\<rparr>"

theorem RunOnce_errors_witness:
  "\<exists>err t' w'. RunOnce plain_host refused_task (fresh_world [115]) = Some (Inl err, t', w')
    \<and> error_source plain_host refused_task err (BatchSize t') \<and> BatchSize t' = 0"
proof -
  have "\<exists>err t' w'. RunOnce plain_host refused_task (fresh_world [115]) = Some (Inl err, t', w') \<and> BatchSize t' = 0"
    by (simp add: refused_task_def round_simps IsRateLimitOrRangeErr_def)
  with RunOnce_errors show ?thesis by blast
qed



end
