(* ===== verification/Task_Runner.thy ===== *)
theory Task_Runner
  imports Log_Sync
begin

text \<open>
  The task's main loop and the supervisor of \<open>go/logfilter/logfilter.go\<close>: what \<open>TaskLoop\<close> can
  return and keeps over all its rounds, and \<open>TaskRunner\<close>, which runs each task in a goroutine that
  restarts it with exponential backoff. A goroutine is the loop \<open>supervise\<close>; \<open>RunAll\<close> starts one per
  task and waits for all of them, here each with a world of its own; what they share and how they
  interleave is the theory \<open>Run_All\<close>. The printed messages are not modelled.
\<close>

section \<open>Model\<close>

text \<open>The metrics of the supervisor and the timers it asks for.\<close>

record supervisor =
  taskRunning :: int
  taskRestartTotal :: nat
  restartTimers :: "int list"

text \<open>\<open>backoff *= 2\<close> on a 64-bit duration, capped at \<open>MaxBackoff\<close>.\<close>

definition next_backoff :: "int \<Rightarrow> int \<Rightarrow> int" where
  "next_backoff maxBackoff backoff =
     (let backoff = sint (word_of_int (backoff * 2) :: 64 word) in
      if maxBackoff < backoff then maxBackoff else backoff)"

type_synonym ('e, 'p) supervised = "int \<times> ('e, 'p) LogTask \<times> ('e, 'p) world \<times> supervisor"

definition supervise_body ::
  "'e Host \<Rightarrow> 'p PendingPool \<times> 'p \<Rightarrow> ('e, 'p) supervised \<Rightarrow>
     (('e, 'p) supervised + ('e, 'p) LogTask \<times> ('e, 'p) world \<times> supervisor) option" where
  "supervise_body host newPool = (\<lambda>(backoff, task, w, m).
     let (done, e) = ctx_Err host (env w); w = w\<lparr>env := e\<rparr> in
     case done of
       Some _ \<Rightarrow> Some (Inr (task, w, m))
     | None \<Rightarrow>
         let m = m\<lparr>taskRunning := taskRunning m + 1\<rparr> in
         Option.bind (TaskLoop host newPool task w) (\<lambda>(err, task, w).
         let m = m\<lparr>taskRunning := taskRunning m - 1\<rparr>;
             (cerr, e) = ctx_Err host (env w); w = w\<lparr>env := e\<rparr>
         in if errors_Is err cerr then Some (Inr (task, w, m))
            else
              let m = m\<lparr>taskRestartTotal := Suc (taskRestartTotal m),
                        restartTimers := restartTimers m @ [backoff]\<rparr>;
                  (done, e) = wait_for host backoff (env w); w = w\<lparr>env := e\<rparr>
              in case done of
                   Some _ \<Rightarrow> Some (Inr (task, w, m))
                 | None \<Rightarrow> Some (Inl (next_backoff (MaxBackoff task) backoff, task, w, m))))"

definition supervise ::
  "'e Host \<Rightarrow> 'p PendingPool \<times> 'p \<Rightarrow> ('e, 'p) LogTask \<Rightarrow> ('e, 'p) world \<Rightarrow> supervisor \<Rightarrow>
     (('e, 'p) LogTask \<times> ('e, 'p) world \<times> supervisor) option" where
  "supervise host newPool task w m = go_loop (supervise_body host newPool) (RestartBackoff task, task, w, m)"

type_synonym ('e, 'p) TaskRunner = "('e, 'p) LogTask list"

definition NewTaskRunner :: "('e, 'p) TaskRunner" where
  "NewTaskRunner = []"

definition AddTask :: "('e, 'p) TaskRunner \<Rightarrow> ('e, 'p) LogTask \<Rightarrow> ('e, 'p) TaskRunner" where
  "AddTask r t = r @ [t]"

text \<open>\<open>RunAll\<close> returns when every goroutine has returned (\<open>wg.Wait\<close>).\<close>

fun RunAll ::
  "'e Host \<Rightarrow> 'p PendingPool \<times> 'p \<Rightarrow> ('e, 'p) TaskRunner \<Rightarrow> (('e, 'p) world \<times> supervisor) list \<Rightarrow>
     (('e, 'p) LogTask \<times> ('e, 'p) world \<times> supervisor) list option" where
  "RunAll host newPool (t # ts) ((w, m) # ws) =
     Option.bind (supervise host newPool t w m) (\<lambda>r. map_option (Cons r) (RunAll host newPool ts ws))"
| "RunAll host newPool _ _ = Some []"

section \<open>The main loop\<close>

text \<open>What all rounds of a task together keep.\<close>

definition task_inv :: "('e, 'p) LogTask \<Rightarrow> ('e, 'p) world \<Rightarrow> ('e, 'p) LogTask \<Rightarrow> ('e, 'p) world \<Rightarrow> bool" where
  "task_inv t0 w0 t w \<longleftrightarrow> LiveMode t = LiveMode t0 \<and> MaxBackoff t = MaxBackoff t0
     \<and> (\<exists>calls. extends w0 calls w \<and> saves_guarded calls \<and> no_gaps (Checkpoint t0) calls
          \<and> Checkpoint t = last (Checkpoint t0 # saved calls))"

lemma task_inv_refl [simp]: "task_inv t w t w"
  by (auto simp: task_inv_def saves_guarded_batch intro!: exI [of _ "[]"] no_gaps_quiet)

lemma task_inv_trans:
  assumes "task_inv t0 w0 t w" and "task_inv t w t' w'"
  shows "task_inv t0 w0 t' w'"
proof -
  from assms obtain xs ys where "extends w0 xs w" "saves_guarded xs" "no_gaps (Checkpoint t0) xs"
      "Checkpoint t = last (Checkpoint t0 # saved xs)" "extends w ys w'" "saves_guarded ys"
      "no_gaps (Checkpoint t) ys" "Checkpoint t' = last (Checkpoint t # saved ys)"
    unfolding task_inv_def by blast
  then have "extends w0 (xs @ ys) w' \<and> saves_guarded (xs @ ys) \<and> no_gaps (Checkpoint t0) (xs @ ys)
      \<and> Checkpoint t' = last (Checkpoint t0 # saved (xs @ ys))"
    by (auto intro: extends_trans saves_guarded_append no_gaps_append)
  with assms show ?thesis unfolding task_inv_def by metis
qed

text \<open>Only these parts of the task and the world matter to the invariant.\<close>

lemma task_inv_cong:
  assumes "task_inv t0 w0 t w" and "Checkpoint t' = Checkpoint t" and "LiveMode t' = LiveMode t"
    and "MaxBackoff t' = MaxBackoff t" and "trace w' = trace w" and "sems w' = sems w"
  shows "task_inv t0 w0 t' w'"
  using assms by (simp add: task_inv_def extends_def)

lemma extends_unique: "extends w xs w' \<Longrightarrow> extends w ys w' \<Longrightarrow> xs = ys"
  by (simp add: extends_def)

lemma RunOnce_task_inv:
  assumes "RunOnce host t w = Some (res, t', w')"
  shows "task_inv t w t' w'"
proof -
  obtain calls where "extends w calls w'" "no_gaps (Checkpoint t) calls" using RunOnce_gapless [OF assms] by blast
  with RunOnce_round [OF assms] same_taskD [of t t'] show ?thesis
    by (auto simp: round_inv_def task_inv_def dest: extends_unique)
qed

text \<open>Once the head is known a round only returns \<open>true\<close> or an error.\<close>

lemma RunOnce_caught_up: "RunOnce host t w = Some (Inr b, t', w') \<Longrightarrow> b"
proof -
  assume run: "RunOnce host t w = Some (Inr b, t', w')"
  have body: "RunOnce_body host l s = Some (Inr (Inr b, t', w')) \<Longrightarrow> b" for l s
    by (cases s) (auto elim: RunOnce_body_cases)
  show b
    using run go_loop_exit_state [of "RunOnce_body host _" "(t, Checkpoint t, _)" "(Inr b, t', w')"] body
    by (auto simp: RunOnce_def Let_def split: prod.splits sum.splits if_splits) metis
qed

lemma TaskLoop_body_inv:
  assumes "TaskLoop_body host (t, w) = Some x"
  shows "case x of
      Inl (t', w') \<Rightarrow> task_inv t w t' w' \<and> LiveMode t \<and> taskUnhealthyNs w' = 0 \<and> taskLiveMode w' = 1
    | Inr (err, t', w') \<Rightarrow> task_inv t w t' w' \<and> (err = None \<longrightarrow> \<not> LiveMode t)"
proof -
  obtain dn e where c: "ctx_Err host (env w) = (dn, e)" by fastforce
  let ?w = "w\<lparr>env := e\<rparr>"
  have w0: "task_inv t w t ?w" by (rule task_inv_cong [OF task_inv_refl]) simp_all
  show ?thesis
  proof (cases dn)
    case (Some err)
    with assms c w0 show ?thesis by (auto simp: TaskLoop_body_def)
  next
    case None
    with assms c obtain res t1 w1 where run: "RunOnce host t ?w = Some (res, t1, w1)"
      by (auto simp: TaskLoop_body_def bind_eq_Some_conv)
    have inv: "task_inv t w t1 w1" by (rule task_inv_trans [OF w0 RunOnce_task_inv [OF run]])
    then have live: "LiveMode t1 = LiveMode t" by (simp add: task_inv_def)
    show ?thesis
    proof (cases res)
      case (Inl err)
      with assms c None run live show ?thesis
        by (auto simp: TaskLoop_body_def Let_def split: option.splits prod.splits
            intro!: task_inv_cong [OF inv])
    next
      case (Inr b)
      with RunOnce_caught_up run have b by blast
      with assms c None run live Inr show ?thesis
        by (auto simp: TaskLoop_body_def Let_def split: option.splits prod.splits if_splits
            intro!: task_inv_cong [OF inv])
    qed
  qed
qed

lemma TaskLoop_reach_inv:
  assumes "loop_reach (TaskLoop_body host) (t, w) (t', w')"
  shows "task_inv t w t' w'"
proof -
  have keep: "task_inv t w (fst s') (snd s')"
    if "task_inv t w (fst s) (snd s)" "TaskLoop_body host s = Some (Inl s')" for s s'
    using that TaskLoop_body_inv [of host "fst s" "snd s" "Inl s'"]
    by (cases s') (auto intro: task_inv_trans)
  have "task_inv t w (fst (t', w')) (snd (t', w'))"
    by (rule loop_reach_invariant [where I = "\<lambda>s. task_inv t w (fst s) (snd s)", OF assms]) (use keep in auto)
  then show ?thesis by simp
qed

lemma TaskLoop_loop_inv:
  assumes "go_loop (TaskLoop_body host) (t, w) = Some (err, t', w')"
  shows "task_inv t w t' w' \<and> (err = None \<longrightarrow> \<not> LiveMode t)"
proof -
  from go_loop_exit_state [OF assms] obtain s where
    s: "loop_reach (TaskLoop_body host) (t, w) s" "TaskLoop_body host s = Some (Inr (err, t', w'))" by blast
  then have inv: "task_inv t w (fst s) (snd s)" using TaskLoop_reach_inv [of host t w "fst s" "snd s"] by simp
  with TaskLoop_body_inv [of host "fst s" "snd s" "Inr (err, t', w')"] s(2)
  have "task_inv (fst s) (snd s) t' w'" "err = None \<longrightarrow> \<not> LiveMode (fst s)" by simp_all
  moreover have "LiveMode (fst s) = LiveMode t" using inv by (simp add: task_inv_def)
  ultimately show ?thesis using task_inv_trans [OF inv] by simp
qed

lemma TaskLoop_inv:
  assumes "TaskLoop host newPool t w = Some (err, t', w')"
  shows "task_inv t w t' w' \<and> (err = None \<longrightarrow> \<not> LiveMode t) \<and> taskHealth w' = 0 \<and> taskUnhealthyNs w' = 0"
proof -
  obtain t1 w1 w2 where 1: "go_loop (TaskLoop_body host) (t1, w1) = Some (err, t', w2)"
      "w' = w2\<lparr>taskHealth := 0, taskUnhealthyNs := 0\<rparr>"
      "Checkpoint t1 = Checkpoint t" "LiveMode t1 = LiveMode t" "MaxBackoff t1 = MaxBackoff t"
      "trace w1 = trace w" "sems w1 = sems w"
    using assms by (cases "PendingPool t") (auto simp: TaskLoop_def Let_def)
  from 1(3-) have "task_inv t w t1 w1" by (rule task_inv_cong [OF task_inv_refl])
  with TaskLoop_loop_inv [OF 1(1)] have "task_inv t w t' w2" by (blast intro: task_inv_trans)
  then have "task_inv t w t' w'" by (rule task_inv_cong) (simp_all add: 1(2))
  with TaskLoop_loop_inv [OF 1(1)] 1(2,4) show ?thesis by simp
qed

section \<open>The supervisor\<close>

lemma supervise_body_inv:
  assumes "supervise_body host newPool (b, t, w, m) = Some (Inl (b', t', w', m'))"
  shows "task_inv t w t' w'"
proof -
  obtain dn e where c: "ctx_Err host (env w) = (dn, e)" by fastforce
  let ?w = "w\<lparr>env := e\<rparr>"
  have w0: "task_inv t w t ?w" by (rule task_inv_cong [OF task_inv_refl]) simp_all
  from assms c obtain err t1 w1 where run: "TaskLoop host newPool t ?w = Some (err, t1, w1)"
    by (auto simp: supervise_body_def Let_def bind_eq_Some_conv split: option.splits)
  obtain cerr e1 where c1: "ctx_Err host (env w1) = (cerr, e1)" by fastforce
  obtain wt e2 where c2: "wait_for host b e1 = (wt, e2)" by fastforce
  have same: "t' = t1" "w' = w1\<lparr>env := e2\<rparr>"
    using assms c run c1 c2 by (auto simp: supervise_body_def Let_def split: option.splits if_splits)
  have "task_inv t w t1 w1" using task_inv_trans [OF w0] TaskLoop_inv [OF run] by blast
  then show ?thesis unfolding same by (rule task_inv_cong) simp_all
qed

lemma supervise_reach_inv:
  assumes "loop_reach (supervise_body host newPool) (b, t, w, m) (b', t', w', m')"
  shows "task_inv t w t' w'"
proof -
  have "(\<lambda>(b', t', w', m'). task_inv t w t' w') (b', t', w', m')"
    by (rule loop_reach_invariant [OF assms]) (auto intro: task_inv_trans supervise_body_inv)
  then show ?thesis by simp
qed

lemma next_backoff_small:
  assumes "0 \<le> b" and "b * 2 < 2 ^ 63"
  shows "next_backoff m b = min m (b * 2)"
proof -
  have "sint (word_of_int (b * 2) :: 64 word) = b * 2"
    unfolding signed_of_int using assms by (simp add: signed_take_bit_int_eq_self)
  then show ?thesis by (auto simp: next_backoff_def Let_def min_def)
qed

text \<open>The wait before the \<open>k\<close>-th restart.\<close>

definition backoff_at :: "('e, 'p) LogTask \<Rightarrow> nat \<Rightarrow> int" where
  "backoff_at t k = (if k = 0 then RestartBackoff t else min (MaxBackoff t) (RestartBackoff t * 2 ^ k))"

definition backoff_inv :: "('e, 'p) LogTask \<Rightarrow> ('e, 'p) world \<Rightarrow> supervisor \<Rightarrow> ('e, 'p) supervised \<Rightarrow> bool" where
  "backoff_inv t0 w0 m0 = (\<lambda>(b, t, w, m). task_inv t0 w0 t w \<and> taskRunning m = taskRunning m0
     \<and> (\<exists>n. b = backoff_at t0 n \<and> taskRestartTotal m = taskRestartTotal m0 + n
          \<and> restartTimers m = restartTimers m0 @ map (backoff_at t0) [0..<n]))"

lemma next_backoff_at:
  assumes "0 \<le> RestartBackoff t" and "RestartBackoff t < 2 ^ 62" and "0 \<le> MaxBackoff t" and "MaxBackoff t < 2 ^ 62"
  shows "next_backoff (MaxBackoff t) (backoff_at t n) = backoff_at t (Suc n)"
proof -
  have b: "0 \<le> backoff_at t n" "backoff_at t n < 2 ^ 62"
    using assms by (auto simp: backoff_at_def min_def)
  then have "next_backoff (MaxBackoff t) (backoff_at t n) = min (MaxBackoff t) (backoff_at t n * 2)"
    by (intro next_backoff_small) simp_all
  also have "\<dots> = backoff_at t (Suc n)"
  proof (cases "n = 0 \<or> RestartBackoff t * 2 ^ n \<le> MaxBackoff t")
    case True
    then show ?thesis by (auto simp: backoff_at_def mult.commute)
  next
    case False
    have "RestartBackoff t * 2 ^ n \<le> RestartBackoff t * 2 ^ Suc n"
      using assms(1) by (intro mult_left_mono) simp_all
    with False have "MaxBackoff t \<le> RestartBackoff t * 2 ^ Suc n" by linarith
    with False assms(3) show ?thesis by (auto simp: backoff_at_def min_def)
  qed
  finally show ?thesis .
qed

lemma backoff_step:
  assumes small: "0 \<le> RestartBackoff t0" "RestartBackoff t0 < 2 ^ 62" "0 \<le> MaxBackoff t0" "MaxBackoff t0 < 2 ^ 62"
    and inv: "backoff_inv t0 w0 m0 s" and body: "supervise_body host newPool s = Some x"
  shows "case x of Inl s' \<Rightarrow> backoff_inv t0 w0 m0 s'
    | Inr (t, w, m) \<Rightarrow> \<exists>b. backoff_inv t0 w0 m0 (b, t, w, m)"
proof -
  obtain b t w m where s: "s = (b, t, w, m)" by (cases s)
  obtain n where n: "b = backoff_at t0 n" "taskRestartTotal m = taskRestartTotal m0 + n"
      "restartTimers m = restartTimers m0 @ map (backoff_at t0) [0..<n]"
      "task_inv t0 w0 t w" "taskRunning m = taskRunning m0"
    using inv by (auto simp: s backoff_inv_def)
  obtain dn e where c: "ctx_Err host (env w) = (dn, e)" by fastforce
  let ?w = "w\<lparr>env := e\<rparr>"
  have w0: "task_inv t0 w0 t ?w" using n(4) by (rule task_inv_cong) simp_all
  show ?thesis
  proof (cases dn)
    case (Some err)
    with body c have "x = Inr (t, ?w, m)" by (simp add: s supervise_body_def)
    with n w0 show ?thesis by (auto simp: backoff_inv_def)
  next
    case None
    with body c obtain err t1 w1 where run: "TaskLoop host newPool t ?w = Some (err, t1, w1)"
      by (auto simp: s supervise_body_def bind_eq_Some_conv)
    have i1: "task_inv t0 w0 t1 w1" using task_inv_trans [OF w0] TaskLoop_inv [OF run] by blast
    then have mb: "MaxBackoff t1 = MaxBackoff t0" by (simp add: task_inv_def)
    have i2: "task_inv t0 w0 t1 w2" if "trace w2 = trace w1" "sems w2 = sems w1" for w2
      using i1 that by (intro task_inv_cong [OF i1]) simp_all
    have more: "taskRestartTotal m + 1 = taskRestartTotal m0 + Suc n"
        "restartTimers m @ [b] = restartTimers m0 @ map (backoff_at t0) [0..<Suc n]"
      using n by simp_all
    show ?thesis
      using body c None run mb next_backoff_at [OF small, of n] n more
      by (auto simp: s supervise_body_def backoff_inv_def Let_def i2
          split: prod.splits option.splits if_splits intro!: exI [of _ "Suc n"] exI [of _ n])
  qed
qed

lemma supervise_reach:
  assumes "0 \<le> RestartBackoff t" "RestartBackoff t < 2 ^ 62" "0 \<le> MaxBackoff t" "MaxBackoff t < 2 ^ 62"
    and "loop_reach (supervise_body host newPool) (RestartBackoff t, t, w, m) s"
  shows "backoff_inv t w m s"
  using assms(5)
proof (rule loop_reach_invariant)
  show "backoff_inv t w m (RestartBackoff t, t, w, m)"
    by (auto simp: backoff_inv_def backoff_at_def intro!: exI [of _ 0])
qed (use backoff_step [OF assms(1-4)] in fastforce)

text \<open>A live task under a context that is never done has no last round.\<close>

definition never_done :: "'e Host \<Rightarrow> bool" where
  "never_done host \<longleftrightarrow> (\<forall>e. fst (ctx_Err host e) = None) \<and> (\<forall>d e. fst (wait_for host d e) = None)"

lemma never_doneD:
  assumes "never_done host"
  obtains e' where "ctx_Err host e = (None, e')"
  using assms unfolding never_done_def by (metis prod.collapse)

lemma never_done_wait:
  assumes "never_done host"
  obtains e' where "wait_for host d e = (None, e')"
  using assms unfolding never_done_def by (metis prod.collapse)

lemma supervise_live_body:
  assumes "never_done host" and "LiveMode t" and "supervise_body host newPool (b, t, w, m) = Some x"
  shows "\<exists>b' t' w' m'. x = Inl (b', t', w', m') \<and> LiveMode t'"
proof -
  obtain e1 where c1: "ctx_Err host (env w) = (None, e1)" using assms(1) by (rule never_doneD)
  with assms(3) obtain err t1 w1 where run: "TaskLoop host newPool t (w\<lparr>env := e1\<rparr>) = Some (err, t1, w1)"
    by (auto simp: supervise_body_def bind_eq_Some_conv)
  from TaskLoop_inv [OF run] assms(2) have live: "err \<noteq> None" "LiveMode t1" by (auto simp: task_inv_def)
  obtain e2 where c2: "ctx_Err host (env w1) = (None, e2)" using assms(1) by (rule never_doneD)
  obtain e3 where c3: "wait_for host b e2 = (None, e3)" using assms(1) by (rule never_done_wait)
  from live(1) have "\<not> errors_Is err None" by (cases err) auto
  with assms(3) c1 run c2 c3 live(2) show ?thesis by (auto simp: supervise_body_def)
qed

definition supervises_live :: "('e, 'p) supervised \<Rightarrow> bool" where
  "supervises_live = (\<lambda>(b, t, w, m). LiveMode t)"

lemma supervise_live_blocks:
  fixes host :: "'e Host" and t :: "('e, 'p) LogTask"
  assumes "never_done host" and "LiveMode t"
  shows "supervise host newPool t w m = None"
  unfolding supervise_def
proof (rule go_loop_diverges [where I = supervises_live])
  fix s :: "('e, 'p) supervised"
  assume live: "supervises_live s"
  obtain b t1 w1 m1 where s: "s = (b, t1, w1, m1)" by (cases s)
  show "supervise_body host newPool s = None \<or> (\<exists>s'. supervise_body host newPool s = Some (Inl s')
      \<and> supervises_live s')"
  proof (cases "supervise_body host newPool s")
    case (Some x)
    with supervise_live_body [OF assms(1), of t1 newPool b w1 m1 x] live s show ?thesis
      by (auto simp: supervises_live_def)
  qed simp
qed (simp add: assms(2) supervises_live_def)

lemma RunAll_blocks:
  assumes "never_done host" and "\<exists>t \<in> set ts. LiveMode t" and "length ws = length ts"
  shows "RunAll host newPool ts ws = None"
  using assms(2,3)
proof (induction ts arbitrary: ws)
  case (Cons t ts)
  then obtain w m ws' where ws: "ws = (w, m) # ws'" by (cases ws) auto
  show ?case
  proof (cases "LiveMode t")
    case True
    with ws supervise_live_blocks [OF assms(1) True, of newPool w m] show ?thesis by simp
  next
    case False
    with Cons ws have "RunAll host newPool ts ws' = None" by simp
    with ws show ?thesis by (cases "supervise host newPool t w m") simp_all
  qed
qed simp

lemma supervise_done:
  assumes "\<forall>e. fst (ctx_Err host e) \<noteq> None"
  shows "\<exists>w'. supervise host newPool t w m = Some (t, w', m)"
proof -
  obtain err e where "ctx_Err host (env w) = (Some err, e)"
    using assms by (metis option.exhaust prod.collapse)
  then have "supervise_body host newPool (RestartBackoff t, t, w, m) = Some (Inr (t, w\<lparr>env := e\<rparr>, m))"
    by (simp add: supervise_body_def)
  then show ?thesis unfolding supervise_def by (blast intro: go_loop_Inr)
qed

lemma RunAll_done:
  assumes "\<forall>e. fst (ctx_Err host e) \<noteq> None" and "length ws = length ts"
  shows "\<exists>rs. RunAll host newPool ts ws = Some rs \<and> map fst rs = ts"
  using assms(2)
proof (induction ts arbitrary: ws)
  case (Cons t ts)
  then obtain w m ws' where ws: "ws = (w, m) # ws'" by (cases ws) auto
  with Cons obtain rs where "RunAll host newPool ts ws' = Some rs" "map fst rs = ts" by auto
  moreover obtain w' where "supervise host newPool t w m = Some (t, w', m)"
    using supervise_done [OF assms(1)] by blast
  ultimately show ?case using ws by simp
qed simp

section \<open>The production client\<close>

text \<open>\<open>RealRPC\<close> as the task's \<open>RPCQuerier\<close>; both operations return (\<open>retry_terminates\<close>).\<close>

definition real_querier :: "'e Host \<Rightarrow> EthCommon \<Rightarrow> 'e RealRPC \<Rightarrow> 'e rworld RPCQuerier" where
  "real_querier host C r = \<lparr>
     rpc_BlockNumber = (\<lambda>w. the (RealRPC_BlockNumber host r w)),
     rpc_EthGetLogs = (\<lambda>a b addrs tops w. the (RealRPC_EthGetLogs host C r a b addrs tops w))\<rparr>"

lemma real_querier_never_shrinks:
  assumes "context_errors host" and "fst (rpc_EthGetLogs (real_querier host C r) a b addrs tops w) = Inl err"
  shows "\<not> IsRateLimitOrRangeErr (Some err)"
proof -
  obtain out where out: "RealRPC_EthGetLogs host C r a b addrs tops w = Some out"
    using retry_terminates unfolding RealRPC_EthGetLogs_def by blast
  with assms(2) have "RealRPC_EthGetLogs host C r a b addrs tops w = Some (Inl err, snd out)"
    by (cases out) (simp add: real_querier_def)
  then show ?thesis
    unfolding RealRPC_EthGetLogs_def by (rule labelled_not_range_error [OF assms(1)])
qed

lemma real_body_keeps_batch:
  assumes "context_errors h" and "RPC t = real_querier h C r" and "RunOnce_body host l (t, cs, w) = Some x"
  shows "case x of Inl (t', cs', w') \<Rightarrow> BatchSize t' = BatchSize t \<and> RPC t' = RPC t
    | Inr (res, t', w') \<Rightarrow> BatchSize t' = BatchSize t"
  using assms(3)
proof (cases rule: RunOnce_body_cases)
  case (failed logs w1 P err t' w')
  with process_batch_task [OF failed(5), of t] show ?thesis by simp
next
  case (advance logs w1 P t' w2 w')
  with process_batch_task [OF advance(5), of t] same_taskD [of t t'] show ?thesis by simp
qed (use real_querier_never_shrinks [OF assms(1)] assms(2) in auto)

lemma real_loop_keeps_batch:
  assumes "context_errors h" and "RPC t = real_querier h C r"
    and "go_loop (RunOnce_body host l) (t, cs, w) = Some (res, t', w')"
  shows "BatchSize t' = BatchSize t"
proof -
  from go_loop_exit_state [OF assms(3)] obtain s where
    s: "loop_reach (RunOnce_body host l) (t, cs, w) s" "RunOnce_body host l s = Some (Inr (res, t', w'))"
    by blast
  from s(1) have "BatchSize (fst s) = BatchSize t \<and> RPC (fst s) = RPC t"
  proof (rule loop_reach_invariant)
    fix s1 s2
    assume "BatchSize (fst s1) = BatchSize t \<and> RPC (fst s1) = RPC t" "RunOnce_body host l s1 = Some (Inl s2)"
    then show "BatchSize (fst s2) = BatchSize t \<and> RPC (fst s2) = RPC t"
      using real_body_keeps_batch [OF assms(1), of "fst s1" C r host l "fst (snd s1)" "snd (snd s1)" "Inl s2"] assms(2)
      by (cases s2) simp
  qed simp
  with real_body_keeps_batch [OF assms(1), of "fst s" C r host l "fst (snd s)" "snd (snd s)" "Inr (res, t', w')"]
    s(2) assms(2)
  show ?thesis by simp
qed

section \<open>A task that fails\<close>

definition idle_supervisor :: supervisor where
  "idle_supervisor = \<lparr>taskRunning = 0, taskRestartTotal = 0, restartTimers = []\<rparr>"

text \<open>A task whose node has no head, restarted after 5 and after 10 time units.\<close>

definition failing_task :: "(u64 list, BlockPendingPool) LogTask" where
  "failing_task = (sample_task [] 100 10)\<lparr>RestartBackoff := 5, MaxBackoff := 8, LiveMode := True\<rparr>"

lemma failing_task_loop:
  "\<exists>t' w'. supervise_body plain_host newPool (b, failing_task, fresh_world [], m)
     = Some (Inl (next_backoff 8 b, t', w', m\<lparr>taskRestartTotal := Suc (taskRestartTotal m),
         restartTimers := restartTimers m @ [b]\<rparr>))"
  by (simp add: supervise_body_def failing_task_def TaskLoop_def round_simps
      go_loop.simps [of "TaskLoop_body _"] fun_cong [OF TaskLoop_body_def])

lemma failing_task_restarted:
  "\<exists>t' w'. loop_reach (supervise_body plain_host (memory_pool, NewBlockPendingPool))
     (5, failing_task, fresh_world [], idle_supervisor)
     (8, t', w', \<lparr>taskRunning = 0, taskRestartTotal = 1, restartTimers = [5]\<rparr>)"
proof -
  let ?b = "supervise_body plain_host (memory_pool, NewBlockPendingPool)"
  have "next_backoff 8 5 = 8" by (simp add: next_backoff_small)
  then obtain t' w' where "?b (5, failing_task, fresh_world [], idle_supervisor)
      = Some (Inl (8, t', w', \<lparr>taskRunning = 0, taskRestartTotal = 1, restartTimers = [5]\<rparr>))"
    using failing_task_loop [of "(memory_pool, NewBlockPendingPool)" 5 idle_supervisor]
    by (auto simp: idle_supervisor_def)
  then show ?thesis by (blast intro: loop_reach.round [OF loop_reach.here])
qed

section \<open>Properties\<close>

text \<open>
  Over all its rounds the main loop keeps what a round keeps: every checkpoint save follows
  the hand-over of its batch, the task's checkpoint is the last one saved, and every slot is given
  back. In live mode the loop only ever returns an error; it never returns \<open>nil\<close>.
\<close>

theorem TaskLoop_safe:
  assumes "TaskLoop host newPool t w = Some (err, t', w')"
  shows "\<exists>calls. trace w' = trace w @ calls \<and> saves_guarded calls
    \<and> Checkpoint t' = last (Checkpoint t # saved calls)
    \<and> RPCSem w' = RPCSem w \<and> TaskLocalSem w' = TaskLocalSem w \<and> rpcConcurrent w' = rpcConcurrent w
    \<and> (err = None \<longrightarrow> \<not> LiveMode t)"
  using TaskLoop_inv [OF assms] by (auto simp: task_inv_def extends_def)

theorem TaskLoop_safe_witness:
  "\<exists>err t' w' calls.
     TaskLoop plain_host (memory_pool, NewBlockPendingPool) (sample_task three_logs 100 10) (fresh_world [115])
       = Some (err, t', w')
     \<and> trace w' = calls \<and> saved calls = [109] \<and> Checkpoint t' = 109 \<and> saves_guarded calls"
proof -
  let ?run = "TaskLoop plain_host (memory_pool, NewBlockPendingPool) (sample_task three_logs 100 10) (fresh_world [115])"
  have "\<exists>err t' w'. ?run = Some (err, t', w') \<and> saved (trace w') = [109]"
    unfolding TaskLoop_def
    by (simp add: round_simps go_loop.simps [of "TaskLoop_body _"] fun_cong [OF TaskLoop_body_def]
        del: dedup_batch.simps)
  then obtain err t' w' where run: "?run = Some (err, t', w')" "saved (trace w') = [109]" by blast
  from TaskLoop_safe [OF run(1)] obtain calls where "trace w' = calls" "saves_guarded calls"
      "Checkpoint t' = last (100 # saved calls)"
    by (auto simp: fresh_world_def sample_task_def)
  with run show ?thesis by (intro exI [of _ err] exI [of _ t'] exI [of _ w'] exI [of _ calls]) simp
qed

text \<open>
  C9. No block is ever skipped: in every state of the main loop, and in every state of the supervisor
  between restarts, each checkpoint that was saved came after successful queries for all blocks from the task's first
  checkpoint up to it, directly after the handler accepted a batch; the task's checkpoint is the last one saved, and every
  slot was given back. This holds for any node, pool, handler and store, every batch size and all heads.
\<close>

theorem task_skips_no_block:
  assumes "loop_reach (TaskLoop_body host) (t, w) (t', w')
    \<or> loop_reach (supervise_body host newPool) (b, t, w, m) (b', t', w', m')"
  shows "\<exists>calls. trace w' = trace w @ calls \<and> Checkpoint t' = last (Checkpoint t # saved calls) \<and> saves_guarded calls
    \<and> (\<forall>before c r after. calls = before @ Call_Save c r # after \<longrightarrow>
         {unat (Checkpoint t)..unat c} \<subseteq> set (blocks_fetched before))
    \<and> RPCSem w' = RPCSem w \<and> TaskLocalSem w' = TaskLocalSem w \<and> rpcConcurrent w' = rpcConcurrent w"
proof -
  have "task_inv t w t' w'" using assms TaskLoop_reach_inv supervise_reach_inv by blast
  then show ?thesis unfolding task_inv_def no_gaps_def extends_def by blast
qed

lemma live_round:
  "\<exists>t' w'. TaskLoop_body plain_host ((sample_task three_logs 100 10)\<lparr>LiveMode := True\<rparr>, fresh_world [115]) = Some (Inl (t', w'))
     \<and> (\<exists>before after. trace w' = before @ Call_Save 109 None # after)"
proof -
  have "\<exists>t' w'. TaskLoop_body plain_host ((sample_task three_logs 100 10)\<lparr>LiveMode := True\<rparr>, fresh_world [115]) = Some (Inl (t', w'))
     \<and> saved (trace w') = [109]"
    by (simp add: round_simps fun_cong [OF TaskLoop_body_def] del: dedup_batch.simps)
  then obtain t' w' where w': "TaskLoop_body plain_host ((sample_task three_logs 100 10)\<lparr>LiveMode := True\<rparr>, fresh_world [115]) = Some (Inl (t', w'))"
      "saved (trace w') = [109]" by blast
  with last_saved [of "trace w'"] show ?thesis by auto
qed

theorem task_skips_no_block_witness:
  "\<exists>t' w' before after. loop_reach (TaskLoop_body plain_host) ((sample_task three_logs 100 10)\<lparr>LiveMode := True\<rparr>, fresh_world [115]) (t', w')
     \<and> trace w' = before @ Call_Save 109 None # after \<and> {100..109} \<subseteq> set (blocks_fetched before)"
proof -
  let ?t = "(sample_task three_logs 100 10)\<lparr>LiveMode := True\<rparr>" and ?w = "fresh_world [115 :: u64]"
  obtain t' w' before after where body: "TaskLoop_body plain_host (?t, ?w) = Some (Inl (t', w'))"
      and tr: "trace w' = before @ Call_Save 109 None # after"
    using live_round by blast
  have reach: "loop_reach (TaskLoop_body plain_host) (?t, ?w) (t', w')"
    using loop_reach.round [where body = "TaskLoop_body plain_host", OF loop_reach.here body] .
  obtain calls where calls: "trace w' = trace ?w @ calls"
      "\<forall>before c r after. calls = before @ Call_Save c r # after \<longrightarrow> {unat (Checkpoint ?t)..unat c} \<subseteq> set (blocks_fetched before)"
    using task_skips_no_block [OF disjI1 [OF reach]] by blast
  have "calls = before @ Call_Save 109 None # after" using calls(1) tr by (simp add: fresh_world_def)
  with calls(2) have "{unat (Checkpoint ?t)..unat (109 :: u64)} \<subseteq> set (blocks_fetched before)" by blast
  with reach tr show ?thesis by (fastforce simp: sample_task_def)
qed

text \<open>
  The gauge for the time a task has been unhealthy never shows anything but zero: it is zero
  in every state the loop goes through, and the deferred reset clears it before the loop returns
  the error that it was set for.
\<close>

theorem unhealthy_gauge_stays_zero:
  assumes "taskUnhealthyNs w = 0"
  shows "(loop_reach (TaskLoop_body host) (t, w) s \<longrightarrow> taskUnhealthyNs (snd s) = 0)
    \<and> (TaskLoop host newPool t w = Some (err, t', w') \<longrightarrow> taskUnhealthyNs w' = 0)"
proof (intro conjI impI)
  assume "loop_reach (TaskLoop_body host) (t, w) s"
  then show "taskUnhealthyNs (snd s) = 0"
  proof cases
    case (round s1)
    with TaskLoop_body_inv [of host "fst s1" "snd s1" "Inl s"] show ?thesis by (cases s) simp
  qed (simp add: assms)
qed (use TaskLoop_inv in blast)

theorem unhealthy_gauge_stays_zero_witness:
  "\<exists>t' w'. TaskLoop plain_host (memory_pool, NewBlockPendingPool) refused_task (fresh_world []) =
      Some (Some (Err_Wrap ''get latest block: '' (Err_New ''no head'') []), t', w')
    \<and> taskUnhealthyNs w' = 0"
proof -
  have "\<exists>t' w'. TaskLoop plain_host (memory_pool, NewBlockPendingPool) refused_task (fresh_world []) =
      Some (Some (Err_Wrap ''get latest block: '' (Err_New ''no head'') []), t', w')"
    unfolding TaskLoop_def
    by (simp add: refused_task_def round_simps go_loop.simps [of "TaskLoop_body _"] fun_cong [OF TaskLoop_body_def])
  moreover have "taskUnhealthyNs (fresh_world []) = 0" by (simp add: fresh_world_def)
  ultimately show ?thesis using unhealthy_gauge_stays_zero by blast
qed

text \<open>
  C26. Restarts back off exponentially: whatever the task does, after \<open>n\<close> restarts the supervisor
  has waited \<open>RestartBackoff\<close> first and then twice as long each time up to \<open>MaxBackoff\<close>, the restart
  counter shows \<open>n\<close>, and between two runs the running gauge and the semaphores are as at the start.
  (Both durations below \<open>2 ^ 62\<close> ns, 146 years, so that doubling does not overflow.)
\<close>

theorem supervise_backoff:
  assumes "0 \<le> RestartBackoff t" and "RestartBackoff t < 2 ^ 62"
    and "0 \<le> MaxBackoff t" and "MaxBackoff t < 2 ^ 62"
    and "loop_reach (supervise_body host newPool) (RestartBackoff t, t, w, m) (b, t', w', m')"
  shows "\<exists>n. taskRestartTotal m' = taskRestartTotal m + n
    \<and> restartTimers m' = restartTimers m @ map (\<lambda>k. if k = 0 then RestartBackoff t
        else min (MaxBackoff t) (RestartBackoff t * 2 ^ k)) [0..<n]
    \<and> taskRunning m' = taskRunning m
    \<and> RPCSem w' = RPCSem w \<and> TaskLocalSem w' = TaskLocalSem w"
  using supervise_reach [OF assms]
  by (auto simp: backoff_inv_def backoff_at_def [abs_def] task_inv_def extends_def)

theorem supervise_backoff_witness:
  "\<exists>t' w' m' n. loop_reach (supervise_body plain_host (memory_pool, NewBlockPendingPool))
       (5, failing_task, fresh_world [], idle_supervisor) (8, t', w', m')
     \<and> taskRestartTotal m' = n \<and> restartTimers m' = [5]
     \<and> restartTimers m' = map (\<lambda>k. if k = 0 then 5 else min 8 (5 * 2 ^ k)) [0..<n]"
proof -
  let ?b = "supervise_body plain_host (memory_pool, NewBlockPendingPool)"
  let ?m = "\<lparr>taskRunning = 0, taskRestartTotal = 1, restartTimers = [5]\<rparr>"
  obtain t' w' where reach: "loop_reach ?b (5, failing_task, fresh_world [], idle_supervisor) (8, t', w', ?m)"
    using failing_task_restarted by blast
  from supervise_backoff [of failing_task plain_host "(memory_pool, NewBlockPendingPool)"
      "fresh_world []" idle_supervisor 8 t' w' ?m] reach
  obtain n where "taskRestartTotal ?m = n"
    "restartTimers ?m = map (\<lambda>k. if k = 0 then 5 else min 8 (5 * 2 ^ k)) [0..<n]"
    by (auto simp: failing_task_def idle_supervisor_def)
  with reach show ?thesis
    by (intro exI [of _ t'] exI [of _ w'] exI [of _ ?m] exI [of _ n]) simp
qed

text \<open>
  \<open>RunAll\<close> blocks until the context is done: while the context stays alive and one of the tasks
  is in live mode it does not return, whatever its tasks fail with; started with a done context, it
  returns at once and leaves every task as it was.
\<close>

theorem RunAll_until_done:
  assumes "length ws = length ts"
  shows "(never_done host \<and> (\<exists>t \<in> set ts. LiveMode t) \<longrightarrow> RunAll host newPool ts ws = None)
    \<and> ((\<forall>e. fst (ctx_Err host e) \<noteq> None) \<longrightarrow>
        (\<exists>rs. RunAll host newPool ts ws = Some rs \<and> map fst rs = ts))"
  using RunAll_blocks [OF _ _ assms] RunAll_done [OF _ assms] by blast

theorem RunAll_until_done_witness:
  "RunAll plain_host (memory_pool, NewBlockPendingPool) (AddTask NewTaskRunner failing_task)
     [(fresh_world [], idle_supervisor)] = None
   \<and> (\<exists>rs. RunAll (plain_host\<lparr>ctx_Err := \<lambda>e. (Some Context_Canceled, e)\<rparr>) (memory_pool, NewBlockPendingPool)
       (AddTask NewTaskRunner failing_task) [(fresh_world [], idle_supervisor)] = Some rs \<and> map fst rs = [failing_task])"
proof -
  have "never_done (plain_host :: u64 list Host)" by (simp add: never_done_def plain_host_def)
  moreover have "LiveMode failing_task" by (simp add: failing_task_def)
  ultimately show ?thesis
    using RunAll_until_done [of "[(fresh_world [], idle_supervisor)]" "[failing_task]" plain_host]
      RunAll_until_done [of "[(fresh_world [], idle_supervisor)]" "[failing_task]"
        "plain_host\<lparr>ctx_Err := \<lambda>e. (Some Context_Canceled, e)\<rparr>"]
    by (simp add: AddTask_def NewTaskRunner_def)
qed

text \<open>
  C30. With the production client \<open>RealRPC\<close> the automatic batch shrinking never happens: whatever the
  node answers, a round leaves the batch size as it was, because the retry loop has wrapped the
  errors that would shrink it.
\<close>

theorem RealRPC_batch_never_shrinks:
  assumes "context_errors h" and "RPC t = real_querier h C r"
    and "RunOnce host t w = Some (res, t', w')"
  shows "BatchSize t' = BatchSize t"
  using assms(3)
  by (auto simp: RunOnce_def Let_def split: prod.splits sum.splits if_splits
      dest: real_loop_keeps_batch [OF assms(1,2)])

text \<open>A task over a node that answers every query with a range error.\<close>

definition real_task :: "(unit rworld, BlockPendingPool) LogTask" where
  "real_task = \<lparr>TaskName = ''real'', Address = [], Topics = [], Checkpoint = 100, BatchSize = 10,
     RPC = real_querier idle_host plain_common range_error_rpc, Store = accepting_store,
     BatchHandler = NoopBatchHandler, LiveMode = False, LivePollInterval = 0, RestartBackoff = 0,
     MaxBackoff = 0, ConfirmBlockNum = 6, PendingPool = Some memory_pool, unhealthyStart = None\<rparr>"

lemma real_task_rpc:
  "RealRPC_BlockNumber idle_host range_error_rpc w = Some (Inr 200, w\<lparr>calls_made := Suc (calls_made w)\<rparr>)"
  unfolding RealRPC_BlockNumber_def
  by (rule go_loop_Inr) (simp add: retry_body_def range_error_rpc_def)

lemma real_task_returns:
  "\<exists>res t' w'. RunOnce plain_host real_task (fresh_world (fresh_rworld ())) = Some (res, t', w')"
proof -
  let ?w = "fresh_world (fresh_rworld ()) :: (unit rworld, BlockPendingPool) world"
  obtain e where head: "rpc_BlockNumber (RPC real_task) (env ?w) = (Inr 200, e)"
    by (simp add: real_task_def real_querier_def real_task_rpc)
  have cp: "Checkpoint real_task \<le> 200" by (simp add: real_task_def)
  let ?w1 = "?w\<lparr>env := e, trace := trace ?w @ [Call_BlockNumber (Inr 200)], rpcOk := Suc (rpcOk ?w)\<rparr>"
  have "cover_inv real_task 200 ?w1 (real_task, Checkpoint real_task, ?w1)"
    by (rule cover_start) (simp_all add: real_task_def)
  from RunOnce_loop_returns [OF _ this, of plain_host] RunOnce_head [OF head cp] show ?thesis
    by (simp add: real_task_def fresh_world_def sample_sem_def has_room_def)
qed

theorem RealRPC_batch_never_shrinks_witness:
  "\<exists>res t' w'. RunOnce plain_host real_task (fresh_world (fresh_rworld ())) = Some (res, t', w')
    \<and> BatchSize t' = 10"
proof -
  obtain res t' w' where run: "RunOnce plain_host real_task (fresh_world (fresh_rworld ())) = Some (res, t', w')"
    using real_task_returns by blast
  have "context_errors idle_host" by (simp add: context_errors_def idle_host_def)
  from RealRPC_batch_never_shrinks [OF this _ run] have "BatchSize t' = BatchSize real_task"
    by (simp add: real_task_def)
  with run show ?thesis by (auto simp: real_task_def)
qed

end
