(* ===== verification/Redis_Pool.thy ===== *)
theory Redis_Pool
  imports Log_Sync Go_Json
begin

text \<open>
  \<open>RedisPendingPool\<close> of \<open>go/logfilter/logfilter.go\<close>: the pending pool kept in Redis, with a set of
  heights under the index key and one JSON document per height. The Redis client is outside the
  program: its operations are a record of functions on the environment, and the locale
  \<open>redis_server\<close> states what the Redis documentation promises of them over the view
  of the database as strings and sets. The pool then keeps the contract \<open>pending_pool\<close> for every list of logs
  whose texts are valid UTF-8.
\<close>

section \<open>Logs as JSON\<close>

text \<open>
  \<open>json.Marshal\<close> of a slice of logs: a nil slice, which is what the deduplication loop
  leaves for a batch without logs, is \<open>null\<close>.
\<close>

definition log_json :: "LogResult \<Rightarrow> json" where
  "log_json l = JObj
     [(''BlockNumber'', JStr (lr_BlockNumber l)), (''BlockNumUint'', JNum (FormatUint (lr_BlockNumUint l))),
      (''TransactionHash'', JStr (lr_TransactionHash l)), (''Address'', JStr (lr_Address l)),
      (''Topics'', JArr (map JStr (lr_Topics l))), (''Data'', JStr (lr_Data l))]"

definition logs_json :: "LogResult list \<Rightarrow> json" where
  "logs_json logs = (if logs = [] then JNull else JArr (map log_json logs))"

definition log_fields :: "(json, LogResult) fields" where
  "log_fields =
     [(''BlockNumber'', set_field decode_string lr_BlockNumber (\<lambda>x r. r\<lparr>lr_BlockNumber := x\<rparr>)),
      (''BlockNumUint'', set_field decode_uint64 lr_BlockNumUint (\<lambda>x r. r\<lparr>lr_BlockNumUint := x\<rparr>)),
      (''TransactionHash'', set_field decode_string lr_TransactionHash (\<lambda>x r. r\<lparr>lr_TransactionHash := x\<rparr>)),
      (''Address'', set_field decode_string lr_Address (\<lambda>x r. r\<lparr>lr_Address := x\<rparr>)),
      (''Topics'', set_field (\<lambda>v _. decode_slice (\<lambda>v. decode_string v []) v) lr_Topics (\<lambda>x r. r\<lparr>lr_Topics := x\<rparr>)),
      (''Data'', set_field decode_string lr_Data (\<lambda>x r. r\<lparr>lr_Data := x\<rparr>))]"

definition zero_LogResult :: LogResult where
  "zero_LogResult = \<lparr>lr_BlockNumber = [], lr_BlockNumUint = 0, lr_TransactionHash = [], lr_Address = [],
     lr_Topics = [], lr_Data = []\<rparr>"

definition decode_logs :: "json \<Rightarrow> LogResult list go_result" where
  "decode_logs = decode_slice (\<lambda>v. decode_struct log_fields v zero_LogResult)"

section \<open>Model\<close>

datatype redis_cmd =
    Cmd_Set string string
  | Cmd_SAdd string string
  | Cmd_SRem string string
  | Cmd_Del string

record 'e RedisDB =
  rdb_SMembers :: "string \<Rightarrow> 'e \<Rightarrow> string list go_result \<times> 'e"
  rdb_Get :: "string \<Rightarrow> 'e \<Rightarrow> string go_result \<times> 'e"
  rdb_SCard :: "string \<Rightarrow> 'e \<Rightarrow> int go_result \<times> 'e"
  rdb_Exec :: "redis_cmd list \<Rightarrow> 'e \<Rightarrow> go_error option \<times> 'e"

record RedisPendingPool =
  rpp_prefix :: string

definition NewRedisPendingPool :: "string \<Rightarrow> RedisPendingPool" where
  "NewRedisPendingPool keyPrefix = \<lparr>rpp_prefix = keyPrefix\<rparr>"

definition indexKey :: "RedisPendingPool \<Rightarrow> string" where
  "indexKey p = rpp_prefix p @ '':index''"

definition blockKey :: "RedisPendingPool \<Rightarrow> u64 \<Rightarrow> string" where
  "blockKey p h = rpp_prefix p @ '':block:'' @ FormatUint h"

text \<open>\<open>json.Marshal\<close> of strings and numbers does not fail.\<close>

definition RedisPendingPool_Add ::
  "'e RedisDB \<Rightarrow> RedisPendingPool \<Rightarrow> u64 \<Rightarrow> LogResult list \<Rightarrow> 'e \<Rightarrow> go_error option \<times> 'e" where
  "RedisPendingPool_Add rdb p blockHeight logs e =
     (let payload = print_json (logs_json logs)
      in rdb_Exec rdb [Cmd_Set (blockKey p blockHeight) payload,
           Cmd_SAdd (indexKey p) (FormatUint blockHeight)] e)"

text \<open>The loop over the members of the index: the logs so far and the commands queued so far.\<close>

fun pop_heights ::
  "'e RedisDB \<Rightarrow> RedisPendingPool \<Rightarrow> u64 \<Rightarrow> u64 \<Rightarrow> string list \<Rightarrow> LogResult list \<Rightarrow> redis_cmd list \<Rightarrow> 'e \<Rightarrow>
     (LogResult list \<times> redis_cmd list) go_result \<times> 'e" where
  "pop_heights rdb p latestBlock confirmNum [] out pipe e = (Inr (out, pipe), e)"
| "pop_heights rdb p latestBlock confirmNum (hs # heights) out pipe e =
     (case ParseUint hs of
        Inl _ \<Rightarrow> pop_heights rdb p latestBlock confirmNum heights out pipe e
      | Inr h \<Rightarrow>
          if latestBlock < h + confirmNum then pop_heights rdb p latestBlock confirmNum heights out pipe e
          else
            (case rdb_Get rdb (blockKey p h) e of
               (Inl err, e) \<Rightarrow>
                 if errors_Is (Some err) (Some Redis_Nil)
                 then pop_heights rdb p latestBlock confirmNum heights out
                        (pipe @ [Cmd_SRem (indexKey p) (FormatUint h)]) e
                 else (Inl err, e)
             | (Inr payload, e) \<Rightarrow>
                 (case json_Unmarshal decode_logs payload of
                    Inl err \<Rightarrow>
                      (Inl (Err_Wrap (''unmarshal pending block '' @ FormatUint h @ '': '') err []), e)
                  | Inr logs \<Rightarrow>
                      pop_heights rdb p latestBlock confirmNum heights (out @ logs)
                        (pipe @ [Cmd_Del (blockKey p h), Cmd_SRem (indexKey p) (FormatUint h)]) e)))"

definition RedisPendingPool_PopConfirmed ::
  "'e RedisDB \<Rightarrow> RedisPendingPool \<Rightarrow> u64 \<Rightarrow> u64 \<Rightarrow> 'e \<Rightarrow> LogResult list go_result \<times> 'e" where
  "RedisPendingPool_PopConfirmed rdb p latestBlock confirmNum e =
     (case rdb_SMembers rdb (indexKey p) e of
        (Inl err, e) \<Rightarrow> (Inl err, e)
      | (Inr heights, e) \<Rightarrow>
          (case pop_heights rdb p latestBlock confirmNum heights [] [] e of
             (Inl err, e) \<Rightarrow> (Inl err, e)
           | (Inr (out, pipe), e) \<Rightarrow>
               if 0 < length out then
                 (case rdb_Exec rdb pipe e of
                    (Some err, e) \<Rightarrow> (Inl err, e)
                  | (None, e) \<Rightarrow> (Inr out, e))
               else (Inr out, e)))"

definition RedisPendingPool_Count :: "'e RedisDB \<Rightarrow> RedisPendingPool \<Rightarrow> 'e \<Rightarrow> int go_result \<times> 'e" where
  "RedisPendingPool_Count rdb p e = rdb_SCard rdb (indexKey p) e"

definition redis_pool :: "'e RedisDB \<Rightarrow> RedisPendingPool \<Rightarrow> 'e PendingPool" where
  "redis_pool rdb p =
     \<lparr>pp_Add = RedisPendingPool_Add rdb p, pp_PopConfirmed = RedisPendingPool_PopConfirmed rdb p,
      pp_Count = RedisPendingPool_Count rdb p\<rparr>"

section \<open>Logs survive the JSON round trip\<close>

definition utf8_log :: "LogResult \<Rightarrow> bool" where
  "utf8_log l \<longleftrightarrow> valid_utf8 (lr_BlockNumber l) \<and> valid_utf8 (lr_TransactionHash l) \<and> valid_utf8 (lr_Address l)
     \<and> list_all valid_utf8 (lr_Topics l) \<and> valid_utf8 (lr_Data l)"

abbreviation utf8_logs :: "LogResult list \<Rightarrow> bool" where
  "utf8_logs \<equiv> list_all utf8_log"

lemma wf_logs_json: "utf8_logs logs \<Longrightarrow> wf_json (logs_json logs)"
proof -
  have "valid_utf8 ''BlockNumber''" "valid_utf8 ''BlockNumUint''" "valid_utf8 ''TransactionHash''"
      "valid_utf8 ''Address''" "valid_utf8 ''Topics''" "valid_utf8 ''Data''"
    by (rule valid_utf8_ascii, simp)+
  then show "utf8_logs logs \<Longrightarrow> wf_json (logs_json logs)"
    by (auto simp: logs_json_def log_json_def utf8_log_def list_all_iff)
qed

lemma decode_elems_map: "(\<And>x. x \<in> set xs \<Longrightarrow> f (g x) = Inr x) \<Longrightarrow> decode_elems f (map g xs) = Inr xs"
  by (induction xs) simp_all

lemma decode_log_json: "decode_struct log_fields (log_json l) zero_LogResult = Inr l"
proof -
  have "decode_elems (\<lambda>v. decode_string v []) (map JStr (lr_Topics l)) = Inr (lr_Topics l)"
    by (rule decode_elems_map) (simp add: decode_string_def)
  then show ?thesis
    by (simp add: decode_struct_def log_json_def log_fields_def set_field_def decode_string_def
        decode_uint64_def decode_slice_def zero_LogResult_def)
qed

lemma decode_logs_json: "decode_logs (logs_json logs) = Inr logs"
  by (auto simp: decode_logs_def logs_json_def decode_slice_def decode_log_json intro: decode_elems_map)

lemma unmarshal_logs: "utf8_logs logs \<Longrightarrow> json_Unmarshal decode_logs (print_json (logs_json logs)) = Inr logs"
  by (simp add: wf_logs_json decode_logs_json)

section \<open>What Redis promises\<close>

text \<open>The database as the pool sees it: string values and sets, each under its key.\<close>

type_synonym redis_view = "(string \<rightharpoonup> string) \<times> (string \<Rightarrow> string set)"

fun apply_cmd :: "redis_cmd \<Rightarrow> redis_view \<Rightarrow> redis_view" where
  "apply_cmd (Cmd_Set k v) (kv, sets) = (kv(k \<mapsto> v), sets(k := {}))"
| "apply_cmd (Cmd_SAdd k x) (kv, sets) = (kv, sets(k := insert x (sets k)))"
| "apply_cmd (Cmd_SRem k x) (kv, sets) = (kv, sets(k := sets k - {x}))"
| "apply_cmd (Cmd_Del k) (kv, sets) = (kv(k := None), sets(k := {}))"

text \<open>
  A transaction (\<open>TxPipeline\<close>, MULTI/EXEC) whose set commands meet no key of another type is processed as
  a whole or not at all, also when the client reports an error.
\<close>

definition well_typed :: "redis_cmd list \<Rightarrow> redis_view \<Rightarrow> bool" where
  "well_typed cmds db \<longleftrightarrow> (\<forall>k x. Cmd_SAdd k x \<in> set cmds \<or> Cmd_SRem k x \<in> set cmds \<longrightarrow>
     fst db k = None \<and> (\<forall>v. Cmd_Set k v \<notin> set cmds))"

locale redis_server =
  fixes rdb :: "'e RedisDB" and view :: "'e \<Rightarrow> redis_view"
  assumes smembers_ok: "rdb_SMembers rdb k e = (Inr xs, e') \<Longrightarrow>
      distinct xs \<and> set xs = snd (view e) k \<and> view e' = view e"
    and smembers_err: "rdb_SMembers rdb k e = (Inl err, e') \<Longrightarrow> view e' = view e"
    and get_ok: "rdb_Get rdb k e = (Inr v, e') \<Longrightarrow> fst (view e) k = Some v \<and> view e' = view e"
    and get_err: "rdb_Get rdb k e = (Inl err, e') \<Longrightarrow>
      view e' = view e \<and> (errors_Is (Some err) (Some Redis_Nil) \<longrightarrow> fst (view e) k = None)"
    and scard_view: "rdb_SCard rdb k e = (n, e') \<Longrightarrow> view e' = view e"
    and exec_ok: "rdb_Exec rdb cmds e = (None, e') \<Longrightarrow> view e' = fold apply_cmd cmds (view e)"
    and exec_err: "well_typed cmds (view e) \<Longrightarrow> rdb_Exec rdb cmds e = (Some err, e') \<Longrightarrow>
      view e' = view e \<or> view e' = fold apply_cmd cmds (view e)"

section \<open>Representation\<close>

definition redis_pending :: "RedisPendingPool \<Rightarrow> redis_view \<Rightarrow> (u64 \<rightharpoonup> LogResult list)" where
  "redis_pending p db h =
     (if FormatUint h \<in> snd db (indexKey p) then
        (case fst db (blockKey p h) of
           None \<Rightarrow> None
         | Some payload \<Rightarrow>
             (case json_Unmarshal decode_logs payload of Inl _ \<Rightarrow> None | Inr logs \<Rightarrow> Some logs))
      else None)"

definition redis_valid :: "RedisPendingPool \<Rightarrow> redis_view \<Rightarrow> bool" where
  "redis_valid p db \<longleftrightarrow> fst db (indexKey p) = None \<and> (\<forall>x \<in> snd db (indexKey p). \<exists>h logs. x = FormatUint h \<and> utf8_logs logs
     \<and> fst db (blockKey p h) = Some (print_json (logs_json logs)))"

lemma blockKey_inject [simp]: "blockKey p h = blockKey p h' \<longleftrightarrow> h = h'"
  by (simp add: blockKey_def)

lemma blockKey_not_indexKey [simp]: "blockKey p h \<noteq> indexKey p" "indexKey p \<noteq> blockKey p h"
  by (simp_all add: blockKey_def indexKey_def)

lemma redis_valid_member:
  assumes "redis_valid p db" and "FormatUint h \<in> snd db (indexKey p)"
  obtains logs where "utf8_logs logs" "fst db (blockKey p h) = Some (print_json (logs_json logs))"
    "redis_pending p db h = Some logs"
proof -
  from assms obtain h' logs where "FormatUint h = FormatUint h'" "utf8_logs logs"
      "fst db (blockKey p h') = Some (print_json (logs_json logs))"
    unfolding redis_valid_def by blast
  with assms(2) show thesis
    by (intro that [of logs]) (simp_all add: redis_pending_def unmarshal_logs del: json_Unmarshal_print)
qed

lemma dom_redis_pending: "redis_valid p db \<Longrightarrow> dom (redis_pending p db) = {h. FormatUint h \<in> snd db (indexKey p)}"
  by (auto simp: redis_pending_def split: if_splits elim: redis_valid_member)

text \<open>Adding a batch.\<close>

lemma redis_add:
  assumes "redis_valid p db" and "utf8_logs logs"
    and "db' = fold apply_cmd [Cmd_Set (blockKey p h) (print_json (logs_json logs)), Cmd_SAdd (indexKey p) (FormatUint h)] db"
  shows "redis_valid p db' \<and> redis_pending p db' = (redis_pending p db)(h \<mapsto> logs)"
proof -
  obtain kv sets where db: "db = (kv, sets)" by (cases db)
  have db': "fst db' = kv(blockKey p h \<mapsto> print_json (logs_json logs))"
      "snd db' (indexKey p) = insert (FormatUint h) (sets (indexKey p))"
    using assms(3) by (simp_all add: db)
  have "fst db' (indexKey p) = None" using assms(1) by (simp add: redis_valid_def db' db)
  then have "redis_valid p db'"
    using assms(1,2) unfolding redis_valid_def db' by (auto simp: db) metis
  moreover have "redis_pending p db' = (redis_pending p db)(h \<mapsto> logs)"
    using unmarshal_logs [OF assms(2)] by (auto simp: fun_eq_iff redis_pending_def db' db)
  ultimately show ?thesis ..
qed

text \<open>The commands that remove heights.\<close>

definition remove_cmds :: "RedisPendingPool \<Rightarrow> u64 list \<Rightarrow> redis_cmd list" where
  "remove_cmds p hs = concat (map (\<lambda>h. [Cmd_Del (blockKey p h), Cmd_SRem (indexKey p) (FormatUint h)]) hs)"

lemma fold_remove_cmds:
  "fst (fold apply_cmd (remove_cmds p hs) db) (blockKey p h) = (if h \<in> set hs then None else fst db (blockKey p h))
   \<and> snd (fold apply_cmd (remove_cmds p hs) db) (indexKey p) = snd db (indexKey p) - FormatUint ` set hs"
proof (induction hs arbitrary: db)
  case (Cons h' hs)
  obtain kv sets where db: "db = (kv, sets)" by (cases db)
  show ?case
    using Cons [of "(kv(blockKey p h' := None), sets(blockKey p h' := {}, indexKey p := sets (indexKey p) - {FormatUint h'}))"]
    by (auto simp: remove_cmds_def db fun_upd_twist)
qed (simp add: remove_cmds_def)

lemma fold_remove_indexKey:
  "fst db (indexKey p) = None \<Longrightarrow> fst (fold apply_cmd (remove_cmds p hs) db) (indexKey p) = None"
proof (induction hs arbitrary: db)
  case (Cons h' hs)
  then show ?case by (cases db) (simp add: remove_cmds_def)
qed (simp add: remove_cmds_def)

lemma well_typed_remove: "redis_valid p db \<Longrightarrow> well_typed (remove_cmds p hs) db"
  by (auto simp: well_typed_def redis_valid_def remove_cmds_def)

lemma redis_remove:
  assumes "redis_valid p db" and "db' = fold apply_cmd (remove_cmds p hs) db"
  shows "redis_valid p db' \<and> redis_pending p db' = (redis_pending p db) |` (- set hs)"
proof -
  have idx: "fst db' (indexKey p) = None"
    using assms fold_remove_indexKey [of db p hs] by (simp add: redis_valid_def)
  have "\<exists>h logs. x = FormatUint h \<and> utf8_logs logs \<and> fst db' (blockKey p h) = Some (print_json (logs_json logs))"
    if "x \<in> snd db' (indexKey p)" for x
  proof -
    from that have x: "x \<in> snd db (indexKey p)" "x \<notin> FormatUint ` set hs"
      using assms(2) fold_remove_cmds by blast+
    from assms(1) x(1) obtain h logs where h: "x = FormatUint h" "utf8_logs logs"
        "fst db (blockKey p h) = Some (print_json (logs_json logs))"
      unfolding redis_valid_def by blast
    with x(2) have "fst db' (blockKey p h) = Some (print_json (logs_json logs))"
      using assms(2) fold_remove_cmds [of p hs db h] by auto
    with h show ?thesis by blast
  qed
  with idx have "redis_valid p db'" unfolding redis_valid_def by blast
  moreover have "redis_pending p db' h = ((redis_pending p db) |` (- set hs)) h" for h
    using fold_remove_cmds [of p hs db h] assms(2) by (auto simp: redis_pending_def restrict_map_def)
  ultimately show ?thesis by blast
qed

lemma mset_concat_distinct: "distinct xs \<Longrightarrow> mset (concat (map f xs)) = (\<Sum>x \<in> set xs. mset (f x))"
  by (induction xs) simp_all

context redis_server
begin

text \<open>The loop of \<open>PopConfirmed\<close> over the heights of a valid index.\<close>

lemma pop_heights_result:
  assumes "redis_valid p (view e)" and "\<forall>h \<in> set hs. FormatUint h \<in> snd (view e) (indexKey p)"
    and "pop_heights rdb p l c (map FormatUint hs) out pipe e = (res, e')"
  shows "view e' = view e \<and> (case res of Inl err \<Rightarrow> True | Inr (out', pipe') \<Rightarrow>
      out' = out @ concat (map (\<lambda>h. the (redis_pending p (view e) h)) (filter (confirmed l c) hs))
      \<and> pipe' = pipe @ remove_cmds p (filter (confirmed l c) hs))"
  using assms
proof (induction hs arbitrary: out pipe e)
  case (Cons h hs)
  show ?case
  proof (cases "confirmed l c h")
    case False
    then have skip: "filter (confirmed l c) (h # hs) = filter (confirmed l c) hs" by simp
    have "pop_heights rdb p l c (map FormatUint hs) out pipe e = (res, e')"
      using Cons.prems(3) False by (simp add: not_le)
    with Cons.IH Cons.prems(1,2) show ?thesis unfolding skip by simp
  next
    case True
    obtain logs where logs: "utf8_logs logs" "fst (view e) (blockKey p h) = Some (print_json (logs_json logs))"
        "redis_pending p (view e) h = Some logs"
      using redis_valid_member [OF Cons.prems(1)] Cons.prems(2) by auto
    obtain gres e1 where g: "rdb_Get rdb (blockKey p h) e = (gres, e1)" by fastforce
    show ?thesis
    proof (cases gres)
      case (Inl err)
      with g get_err [of "blockKey p h" e err e1] logs(2) have "view e1 = view e"
          "\<not> errors_Is (Some err) (Some Redis_Nil)" by auto
      with Cons.prems(3) True g Inl show ?thesis by (auto simp: leD)
    next
      case (Inr payload)
      with g get_ok [of "blockKey p h" e payload e1] logs(2) have
        e1: "view e1 = view e" "payload = print_json (logs_json logs)" by auto
      have "pop_heights rdb p l c (map FormatUint hs) (out @ logs)
          (pipe @ [Cmd_Del (blockKey p h), Cmd_SRem (indexKey p) (FormatUint h)]) e1 = (res, e')"
        using Cons.prems(3) True g Inr e1(2) unmarshal_logs [OF logs(1)] by (simp add: leD)
      from Cons.IH [OF _ _ this] e1(1) Cons.prems(1,2) logs(3) True show ?thesis
        by (auto simp: remove_cmds_def split: sum.splits)
    qed
  qed
qed (auto simp: remove_cmds_def)

text \<open>The members of a valid index are the decimal texts of distinct heights.\<close>

lemma SMembers_heights:
  assumes "redis_valid p (view e)" and "rdb_SMembers rdb (indexKey p) e = (Inr heights, e1)"
  obtains hs where "heights = map FormatUint hs" "distinct hs"
    "set hs = dom (redis_pending p (view e))" "view e1 = view e"
proof -
  note mem = smembers_ok [OF assms(2)]
  have "\<forall>x \<in> set heights. \<exists>h. x = FormatUint h" using mem assms(1) by (auto simp: redis_valid_def)
  then obtain hs where hs: "heights = map FormatUint hs" by (metis ex_map_conv)
  show thesis
  proof (rule that [OF hs])
    show "distinct hs" using mem hs by (simp add: distinct_map)
    show "set hs = dom (redis_pending p (view e))"
      unfolding dom_redis_pending [OF assms(1)] using conjunct1 [OF conjunct2 [OF mem], symmetric] hs by (auto simp: image_iff)
  qed (use mem in simp)
qed

lemma PopConfirmed_result:
  assumes "redis_valid p (view e)" and "RedisPendingPool_PopConfirmed rdb p l c e = (res, e')"
  shows "redis_valid p (view e') \<and> (case res of
      Inl err \<Rightarrow> redis_pending p (view e') = redis_pending p (view e)
        \<or> redis_pending p (view e') = redis_pending p (view e) |` {h. \<not> confirmed l c h}
    | Inr out \<Rightarrow> mset out = confirmed_logs l c (redis_pending p (view e))
        \<and> redis_pending p (view e') = (if out = [] then redis_pending p (view e)
            else redis_pending p (view e) |` {h. \<not> confirmed l c h}))"
proof -
  obtain sres e1 where sm: "rdb_SMembers rdb (indexKey p) e = (sres, e1)" by fastforce
  show ?thesis
  proof (cases sres)
    case (Inl err)
    with sm smembers_err [of "indexKey p" e err e1] assms show ?thesis
      by (auto simp: RedisPendingPool_PopConfirmed_def)
  next
    case (Inr heights)
    with sm assms(1) obtain hs where hs: "heights = map FormatUint hs" "distinct hs"
        "set hs = dom (redis_pending p (view e))" "view e1 = view e"
      by (auto elim: SMembers_heights)
    obtain pres e2 where pop: "pop_heights rdb p l c (map FormatUint hs) [] [] e1 = (pres, e2)" by fastforce
    let ?cs = "filter (confirmed l c) hs"
    have index: "\<forall>h \<in> set hs. FormatUint h \<in> snd (view e1) (indexKey p)"
      using hs(3,4) dom_redis_pending [OF assms(1)] by simp
    have pr: "view e2 = view e" "\<And>out pipe. pres = Inr (out, pipe) \<Longrightarrow>
        out = concat (map (\<lambda>h. the (redis_pending p (view e) h)) ?cs) \<and> pipe = remove_cmds p ?cs"
      using pop_heights_result [OF _ index pop] assms(1) hs(4) by auto
    have mset: "mset (concat (map (\<lambda>h. the (redis_pending p (view e) h)) ?cs)) = confirmed_logs l c (redis_pending p (view e))"
      using mset_concat_distinct [of ?cs] hs(2,3) by (simp add: confirmed_logs_def)
    have rem: "redis_valid p db' \<and> redis_pending p db' = redis_pending p (view e) |` {h. \<not> confirmed l c h}"
      if "db' = fold apply_cmd (remove_cmds p ?cs) (view e)" for db'
      using redis_remove [OF assms(1) that] hs(3) by (auto simp: restrict_map_def fun_eq_iff domIff)
    have ok: "redis_valid p (view e') \<and> redis_pending p (view e') = redis_pending p (view e) |` {h. \<not> confirmed l c h}"
      if "rdb_Exec rdb (remove_cmds p ?cs) e2 = (None, e')"
      using rem exec_ok [OF that] pr(1) by simp
    have err: "redis_valid p (view e') \<and> (redis_pending p (view e') = redis_pending p (view e)
        \<or> redis_pending p (view e') = redis_pending p (view e) |` {h. \<not> confirmed l c h})"
      if "rdb_Exec rdb (remove_cmds p ?cs) e2 = (Some er, e')" for er
      using rem exec_err [OF _ that] well_typed_remove [OF assms(1)] pr(1) assms(1) by auto
    show ?thesis
      using assms sm Inr hs(1) pop pr mset ok err
      by (auto simp: RedisPendingPool_PopConfirmed_def split: sum.splits prod.splits if_splits option.splits)
  qed
qed

sublocale redis: pending_pool "redis_pool rdb p" "\<lambda>e. redis_pending p (view e)" "\<lambda>e. redis_valid p (view e)" utf8_logs
  for p
proof
  fix e e' h logs err l c out n
  assume v: "redis_valid p (view e)"
  let ?cmds = "[Cmd_Set (blockKey p h) (print_json (logs_json logs)), Cmd_SAdd (indexKey p) (FormatUint h)]"
  have typed: "well_typed ?cmds (view e)" using v by (auto simp: well_typed_def redis_valid_def)
  show "utf8_logs logs \<Longrightarrow> pp_Add (redis_pool rdb p) h logs e = (None, e') \<Longrightarrow>
      redis_valid p (view e') \<and> redis_pending p (view e') = (redis_pending p (view e))(h \<mapsto> logs)"
    using redis_add [OF v] exec_ok [of ?cmds e e'] by (simp add: redis_pool_def RedisPendingPool_Add_def)
  show "utf8_logs logs \<Longrightarrow> pp_Add (redis_pool rdb p) h logs e = (Some err, e') \<Longrightarrow>
      redis_valid p (view e') \<and> (redis_pending p (view e') = redis_pending p (view e)
        \<or> redis_pending p (view e') = (redis_pending p (view e))(h \<mapsto> logs))"
    using redis_add [OF v _ refl, of logs h] exec_err [OF typed, of err e'] v
    by (auto simp: redis_pool_def RedisPendingPool_Add_def)
  show "pp_PopConfirmed (redis_pool rdb p) l c e = (Inr out, e') \<Longrightarrow>
      redis_valid p (view e') \<and> mset out = confirmed_logs l c (redis_pending p (view e))
      \<and> pending_logs (redis_pending p (view e)) = mset out + pending_logs (redis_pending p (view e'))
      \<and> (\<forall>h. \<not> confirmed l c h \<longrightarrow> redis_pending p (view e') h = redis_pending p (view e) h)
      \<and> redis_pending p (view e') \<subseteq>\<^sub>m redis_pending p (view e)"
    using PopConfirmed_result [OF v, of l c "Inr out" e'] pending_logs_split [of "redis_pending p (view e)" l c]
    by (auto simp: redis_pool_def map_le_def restrict_map_def split: if_splits)
  show "pp_PopConfirmed (redis_pool rdb p) l c e = (Inl err, e') \<Longrightarrow> redis_valid p (view e')"
    using PopConfirmed_result [OF v, of l c "Inl err" e'] by (simp add: redis_pool_def)
  show "pp_Count (redis_pool rdb p) e = (n, e') \<Longrightarrow>
      redis_valid p (view e') \<and> redis_pending p (view e') = redis_pending p (view e)"
    using v scard_view [of "indexKey p" e n e'] by (simp add: redis_pool_def RedisPendingPool_Count_def)
qed

lemma redis_pool_contract:
  "pending_pool (redis_pool rdb p) (\<lambda>e. redis_pending p (view e)) (\<lambda>e. redis_valid p (view e)) utf8_logs"
  by (rule redis.pending_pool_axioms)

end

section \<open>A Redis in memory\<close>

type_synonym mem_db = "(string \<rightharpoonup> string) \<times> (string \<Rightarrow> string list)"

fun mem_cmd :: "redis_cmd \<Rightarrow> mem_db \<Rightarrow> mem_db" where
  "mem_cmd (Cmd_Set k v) (kv, sets) = (kv(k \<mapsto> v), sets(k := []))"
| "mem_cmd (Cmd_SAdd k x) (kv, sets) = (kv, sets(k := List.insert x (sets k)))"
| "mem_cmd (Cmd_SRem k x) (kv, sets) = (kv, sets(k := removeAll x (sets k)))"
| "mem_cmd (Cmd_Del k) (kv, sets) = (kv(k := None), sets(k := []))"

definition mem_redis :: "mem_db RedisDB" where
  "mem_redis = \<lparr>rdb_SMembers = (\<lambda>k e. (Inr (remdups (snd e k)), e)),
     rdb_Get = (\<lambda>k e. (case fst e k of None \<Rightarrow> Inl Redis_Nil | Some v \<Rightarrow> Inr v, e)),
     rdb_SCard = (\<lambda>k e. (Inr (int (length (remdups (snd e k)))), e)),
     rdb_Exec = (\<lambda>cmds e. (None, fold mem_cmd cmds e))\<rparr>"

definition mem_view :: "mem_db \<Rightarrow> redis_view" where
  "mem_view e = (fst e, \<lambda>k. set (snd e k))"

lemma mem_view_simps [simp]: "fst (mem_view e) = fst e" "snd (mem_view e) k = set (snd e k)"
  by (simp_all add: mem_view_def)

lemma mem_view_cmd: "mem_view (mem_cmd cmd e) = apply_cmd cmd (mem_view e)"
  by (cases e; cases cmd) (auto simp: mem_view_def fun_eq_iff)

lemma mem_view_fold: "mem_view (fold mem_cmd cmds e) = fold apply_cmd cmds (mem_view e)"
  by (induction cmds arbitrary: e) (simp_all add: mem_view_cmd)

interpretation memory: redis_server mem_redis mem_view
  by unfold_locales (auto simp: mem_redis_def mem_view_fold split: option.splits)

abbreviation empty_db :: mem_db where
  "empty_db \<equiv> (Map.empty, \<lambda>_. [])"

lemma redis_empty: "redis_valid p (mem_view empty_db)" "redis_pending p (mem_view empty_db) = Map.empty"
  by (simp_all add: redis_valid_def redis_pending_def fun_eq_iff)

text \<open>The database after one batch was added to an empty one, and what a pop then finds.\<close>

definition one_batch :: "RedisPendingPool \<Rightarrow> u64 \<Rightarrow> LogResult list \<Rightarrow> mem_db" where
  "one_batch p h logs = ([blockKey p h \<mapsto> print_json (logs_json logs)], (\<lambda>_. [])(indexKey p := [FormatUint h]))"

lemma one_batch_Add: "RedisPendingPool_Add mem_redis p h logs empty_db = (None, one_batch p h logs)"
  by (simp add: RedisPendingPool_Add_def mem_redis_def one_batch_def List.insert_def Let_def fun_eq_iff)

lemma one_batch_valid:
  "utf8_logs logs \<Longrightarrow> redis_valid p (mem_view (one_batch p h logs))
     \<and> redis_pending p (mem_view (one_batch p h logs)) = [h \<mapsto> logs]"
  by (auto simp: redis_valid_def one_batch_def redis_pending_def fun_eq_iff unmarshal_logs
      simp del: json_Unmarshal_print)

lemma one_batch_Pop:
  assumes "utf8_logs logs" and "confirmed l c h"
  shows "\<exists>e. RedisPendingPool_PopConfirmed mem_redis p l c (one_batch p h logs) = (Inr logs, e)"
  using assms by (simp add: RedisPendingPool_PopConfirmed_def mem_redis_def one_batch_def unmarshal_logs leD
      del: json_Unmarshal_print)

section \<open>Properties\<close>

text \<open>
  C14. The Redis pool refines the map from heights to pending logs. Over a server that keeps the
  documented behaviour of its commands, a batch that is added is there under its height, also when
  it comes back from JSON later, and an add that fails has stored the batch or changed nothing.
  \<open>PopConfirmed\<close> returns exactly the logs of the confirmed heights and removes
  these heights when there is at least one such log; when it fails, either all confirmed heights are gone or none.
\<close>

theorem RedisPendingPool_refines:
  assumes "redis_server rdb view" and "redis_valid p (view e)" and "utf8_logs logs"
    and "RedisPendingPool_Add rdb p h logs e = (err, e1)"
    and "RedisPendingPool_PopConfirmed rdb p l c e1 = (res, e2)"
  shows "redis_valid p (view e2)
    \<and> (redis_pending p (view e1) = (redis_pending p (view e))(h \<mapsto> logs)
       \<or> err \<noteq> None \<and> redis_pending p (view e1) = redis_pending p (view e))
    \<and> (\<forall>out. res = Inr out \<longrightarrow> mset out = confirmed_logs l c (redis_pending p (view e1))
         \<and> redis_pending p (view e2) = (if out = [] then redis_pending p (view e1)
             else redis_pending p (view e1) |` {h. \<not> confirmed l c h}))
    \<and> (\<forall>er. res = Inl er \<longrightarrow> redis_pending p (view e2) = redis_pending p (view e1)
         \<or> redis_pending p (view e2) = redis_pending p (view e1) |` {h. \<not> confirmed l c h})"
proof -
  note contract = redis_server.redis_pool_contract [OF assms(1)]
  have add: "redis_valid p (view e1) \<and> (redis_pending p (view e1) = (redis_pending p (view e))(h \<mapsto> logs)
       \<or> err \<noteq> None \<and> redis_pending p (view e1) = redis_pending p (view e))"
    using pending_pool.add_ok [OF contract assms(2,3), of h e1] pending_pool.add_err [OF contract assms(2,3), of h _ e1]
      assms(4) by (cases err) (auto simp: redis_pool_def)
  then show ?thesis
    using redis_server.PopConfirmed_result [OF assms(1) _ assms(5)] by (cases res) auto
qed

theorem RedisPendingPool_refines_witness:
  "let p = NewRedisPendingPool ''pending'' in
    \<exists>e1 e2. RedisPendingPool_Add mem_redis p 100 [transfer_log ''01''] empty_db = (None, e1)
    \<and> RedisPendingPool_PopConfirmed mem_redis p 106 6 e1 = (Inr [transfer_log ''01''], e2)
    \<and> redis_pending p (mem_view e1) = [100 \<mapsto> [transfer_log ''01'']]
    \<and> redis_pending p (mem_view e2) = Map.empty"
proof -
  let ?p = "NewRedisPendingPool ''pending''" and ?logs = "[transfer_log ''01'']"
  have u: "utf8_logs ?logs" by (simp add: utf8_log_def transfer_log_def valid_utf8_ascii)
  obtain e2 where pop: "RedisPendingPool_PopConfirmed mem_redis ?p 106 6 (one_batch ?p 100 ?logs) = (Inr ?logs, e2)"
    using one_batch_Pop [OF u] by fastforce
  note run = RedisPendingPool_refines [OF memory.redis_server_axioms redis_empty(1) u one_batch_Add pop]
  have "redis_pending ?p (mem_view (one_batch ?p 100 ?logs)) = [100 \<mapsto> ?logs]"
    using run by (simp add: redis_empty)
  moreover from this have "redis_pending ?p (mem_view e2) = Map.empty" using run by (simp add: redis_empty)
  ultimately show ?thesis using pop one_batch_Add [of ?p 100 ?logs] unfolding Let_def by blast
qed

text \<open>
  A batch without logs stays in the Redis index after its height is confirmed as long as no
  pop finds a log: \<open>PopConfirmed\<close> executes its deletions only when it returns something. The
  in-memory pool drops such a height with the first pop.
\<close>

theorem redis_keeps_empty_heights:
  assumes "redis_server rdb view" and "redis_valid p (view e)" and "redis_pending p (view e) h = Some []"
    and "\<forall>k logs. redis_pending p (view e) k = Some logs \<longrightarrow> confirmed l c k \<longrightarrow> logs = []"
    and "RedisPendingPool_PopConfirmed rdb p l c e = (Inr out, e')"
  shows "out = [] \<and> FormatUint h \<in> snd (view e') (indexKey p)"
proof -
  note pop = redis_server.PopConfirmed_result [OF assms(1,2,5)]
  have "confirmed_logs l c (redis_pending p (view e)) = {#}"
    using assms(4) by (auto simp: confirmed_logs_def intro!: sum.neutral)
  with pop have "out = []" "redis_pending p (view e') = redis_pending p (view e)" "redis_valid p (view e')" by auto
  with assms(3) dom_redis_pending [of p "view e'"] show ?thesis by auto
qed

theorem redis_keeps_empty_heights_witness:
  "\<exists>e'. RedisPendingPool_PopConfirmed mem_redis (NewRedisPendingPool ''p'') 106 6
       (one_batch (NewRedisPendingPool ''p'') 100 []) = (Inr [], e')
     \<and> ''100'' \<in> snd (mem_view e') (indexKey (NewRedisPendingPool ''p''))"
proof -
  let ?p = "NewRedisPendingPool ''p''"
  obtain e' where pop: "RedisPendingPool_PopConfirmed mem_redis ?p 106 6 (one_batch ?p 100 []) = (Inr [], e')"
    using one_batch_Pop [of "[]"] by fastforce
  have "FormatUint 100 \<in> snd (mem_view e') (indexKey ?p)"
    by (rule conjunct2 [OF redis_keeps_empty_heights [OF memory.redis_server_axioms _ _ _ pop]])
      (auto simp: one_batch_valid split: if_splits)
  moreover have "FormatUint 100 = ''100''" by code_simp
  ultimately show ?thesis using pop by auto
qed

text \<open>
  The books of a round balance for the Redis pool as well, when the texts of the node's
  logs are valid UTF-8: everything handed to the batch handler was pending before or
  fetched in this round, nothing twice, and belongs to a batch whose first block is confirmed; and
  when the round succeeds, what was handed over and what is now in Redis is exactly what was
  in Redis before and what was fetched.
\<close>

theorem RunOnce_conserves_logs_redis:
  assumes "redis_server rdb view" and "PendingPool t = Some (redis_pool rdb p)"
    and "\<forall>a b addrs tops e logs. fst (rpc_EthGetLogs (RPC t) a b addrs tops e) = Inr logs \<longrightarrow> utf8_logs logs"
    and "redis_valid p (view (world.pool w))"
    and "\<forall>h \<in> dom (redis_pending p (view (world.pool w))). h < Checkpoint t"
    and "rpc_BlockNumber (RPC t) (env w) = (Inr l, e)" and "Checkpoint t \<le> l"
    and "0 < BatchSize t" and "unat l + unat (BatchSize t) < 2 ^ 64"
    and "RunOnce host t w = Some (res, t', w')"
  shows "\<exists>calls. trace w' = trace w @ Call_BlockNumber (Inr l) # calls
    \<and> mset (handed_over calls) \<subseteq># pending_logs (redis_pending p (view (world.pool w))) + mset (logs_fetched calls)
    \<and> (\<forall>x \<in> set (handed_over calls). \<exists>h logs. confirmed l (ConfirmBlockNum t) h \<and> x \<in> set logs
         \<and> (from_query calls h logs \<or> redis_pending p (view (world.pool w)) h = Some logs))
    \<and> (res = Inr True \<longrightarrow> mset (handed_over calls) + pending_logs (redis_pending p (view (world.pool w')))
         = pending_logs (redis_pending p (view (world.pool w))) + mset (logs_fetched calls))"
proof -
  note contract = redis_server.redis_pool_contract [OF assms(1)]
  have "pending_pool.stores_answers utf8_logs (RPC t)"
    unfolding pending_pool.stores_answers_def [OF contract] list_all_iff
    using assms(3) set_dedup_subset by (fastforce simp: list_all_iff)
  from pending_pool.RunOnce_books [OF contract assms(2) this assms(4-10)] show ?thesis .
qed

text \<open>A task over the Redis pool in memory.\<close>

definition redis_task :: "LogResult list \<Rightarrow> u64 \<Rightarrow> u64 \<Rightarrow> (u64 list, mem_db) LogTask" where
  "redis_task chain cp n = \<lparr>TaskName = ''sample'', Address = [], Topics = [], Checkpoint = cp, BatchSize = n,
     RPC = chain_rpc chain, Store = accepting_store, BatchHandler = NoopBatchHandler,
     LiveMode = False, LivePollInterval = 0, RestartBackoff = 0, MaxBackoff = 0,
     ConfirmBlockNum = 6, PendingPool = Some (redis_pool mem_redis (NewRedisPendingPool ''p'')),
     unhealthyStart = None\<rparr>"

definition redis_world :: "'e \<Rightarrow> ('e, mem_db) world" where
  "redis_world e = \<lparr>env = e, pool = empty_db, RPCSem = sample_sem, TaskLocalSem = sample_sem,
     rpcConcurrent = 0, rpcOk = 0, rpcFail = 0, logsTotal = 0, batchDurations = [], pendingBlockCount = 0,
     taskHealth = 1, taskUnhealthyNs = 0, taskLiveMode = 0, trace = []\<rparr>"

lemmas redis_sample_defs = redis_task_def redis_world_def chain_rpc_def sample_sem_def has_room_def

theorem RunOnce_conserves_logs_redis_witness:
  "\<exists>res t' w' calls.
     RunOnce plain_host (redis_task [transfer_log ''01''] 100 10) (redis_world [115]) = Some (res, t', w')
     \<and> trace w' = Call_BlockNumber (Inr 115) # calls
     \<and> (res = Inr True \<longrightarrow> mset (handed_over calls)
          + pending_logs (redis_pending (NewRedisPendingPool ''p'') (mem_view (world.pool w'))) = mset (logs_fetched calls))"
proof -
  let ?t = "redis_task [transfer_log ''01''] 100 10" and ?w = "redis_world [115 :: u64]"
  let ?p = "NewRedisPendingPool ''p''"
  have head: "rpc_BlockNumber (RPC ?t) (env ?w) = (Inr 115, [])" by (simp add: redis_sample_defs)
  have cp: "Checkpoint ?t \<le> 115" "0 < BatchSize ?t" "unat (115 :: u64) + unat (BatchSize ?t) < 2 ^ 64"
    by (simp_all add: redis_sample_defs)
  have pool: "PendingPool ?t = Some (redis_pool mem_redis ?p)" by (simp add: redis_sample_defs)
  obtain res t' w' where run: "RunOnce plain_host ?t ?w = Some (res, t', w')"
    using RunOnce_returns [OF head cp(1) _ cp(2,3), of plain_host] pool by (auto simp: redis_sample_defs)
  have utf8: "\<forall>a b addrs tops e logs. fst (rpc_EthGetLogs (RPC ?t) a b addrs tops e) = Inr logs \<longrightarrow> utf8_logs logs"
    by (auto simp: redis_sample_defs utf8_log_def transfer_log_def valid_utf8_ascii)
  have start: "redis_valid ?p (mem_view (world.pool ?w))" "redis_pending ?p (mem_view (world.pool ?w)) = Map.empty"
    by (simp_all add: redis_world_def redis_empty)
  have "\<forall>h \<in> dom (redis_pending ?p (mem_view (world.pool ?w))). h < Checkpoint ?t" by (simp add: start)
  from RunOnce_conserves_logs_redis [OF memory.redis_server_axioms pool utf8 start(1) this head cp run] start(2)
  show ?thesis using run by (auto simp: redis_world_def)
qed

end
