(* ===== verification/Handlers.thy ===== *)
theory Handlers
  imports Log_Task Go_Json
begin

text \<open>
  The batch handlers of \<open>go/logfilter/logfilter.go\<close> that leave the process: \<open>SQLBatchHandler\<close>, over the
  operations of \<open>database/sql\<close>, and \<open>KafkaBatchHandler\<close>, over the writer of the Kafka client. The
  database and the broker are outside the program; the locale \<open>sql_database\<close> states what the insert with
  \<open>ON CONFLICT DO NOTHING\<close> and a transaction promise, over the table as a map from its unique key.
\<close>

section \<open>SQL\<close>

text \<open>The operations; a statement is executed in the open transaction of the environment.\<close>

record 'e SqlDB =
  db_BeginTx :: "'e \<Rightarrow> go_error option \<times> 'e"
  tx_PrepareContext :: "string \<Rightarrow> 'e \<Rightarrow> go_error option \<times> 'e"
  stmt_ExecContext :: "string list \<Rightarrow> 'e \<Rightarrow> go_error option \<times> 'e"
  stmt_Close :: "'e \<Rightarrow> 'e"
  tx_Commit :: "'e \<Rightarrow> go_error option \<times> 'e"
  tx_Rollback :: "'e \<Rightarrow> 'e"

definition insert_statement :: string where
  "insert_statement = CHR 0x0A # ''INSERT INTO event_logs (block_number, tx_hash, contract_addr, topics, log_data)''
     @ CHR 0x0A # ''VALUES ($1, $2, $3, $4, $5)'' @ CHR 0x0A # ''ON CONFLICT (block_number, tx_hash) DO NOTHING''"

text \<open>The inner loop: index, topics still to append, the text so far.\<close>

fun topics_loop :: "nat \<Rightarrow> string list \<Rightarrow> string \<Rightarrow> string" where
  "topics_loop i [] topicsStr = topicsStr"
| "topics_loop i (t # topics) topicsStr =
     (let topicsStr = (if 0 < i then topicsStr @ '','' else topicsStr)
      in topics_loop (Suc i) topics (topicsStr @ t))"

definition log_args :: "LogResult \<Rightarrow> string list" where
  "log_args l = [lr_BlockNumber l, lr_TransactionHash l, lr_Address l, topics_loop 0 (lr_Topics l) [], lr_Data l]"

fun insert_logs :: "'e SqlDB \<Rightarrow> LogResult list \<Rightarrow> 'e \<Rightarrow> go_error option \<times> 'e" where
  "insert_logs db [] e = (None, e)"
| "insert_logs db (l # logs) e =
     (case stmt_ExecContext db (log_args l) e of
        (Some err, e) \<Rightarrow> (Some err, e)
      | (None, e) \<Rightarrow> insert_logs db logs e)"

record 'e SQLBatchHandler =
  sb_db :: "'e SqlDB"

definition NewSQLBatchHandler :: "'e SqlDB \<Rightarrow> 'e SQLBatchHandler" where
  "NewSQLBatchHandler db = \<lparr>sb_db = db\<rparr>"

text \<open>The deferred calls run in reverse order: the statement is closed, then the transaction rolled back.\<close>

definition SQLBatchHandler_HandleBatch :: "'e SQLBatchHandler \<Rightarrow> 'e LogBatchHandler" where
  "SQLBatchHandler_HandleBatch s logs e =
     (if length logs = 0 then (None, e)
      else case db_BeginTx (sb_db s) e of
        (Some err, e) \<Rightarrow> (Some err, e)
      | (None, e) \<Rightarrow>
          (case tx_PrepareContext (sb_db s) insert_statement e of
             (Some err, e) \<Rightarrow> (Some err, tx_Rollback (sb_db s) e)
           | (None, e) \<Rightarrow>
               (case insert_logs (sb_db s) logs e of
                  (Some err, e) \<Rightarrow> (Some err, tx_Rollback (sb_db s) (stmt_Close (sb_db s) e))
                | (None, e) \<Rightarrow>
                    (case tx_Commit (sb_db s) e of (err, e) \<Rightarrow> (err, tx_Rollback (sb_db s) (stmt_Close (sb_db s) e))))))"

section \<open>Kafka\<close>

text \<open>
  The format verb \<open>%q\<close>, \<open>strconv.Quote\<close>. The Unicode table behind \<open>strconv.IsPrint\<close> is the parameter
  \<open>IsPrint\<close>, used for code points beyond ASCII only.
\<close>

definition rune_of :: "string \<Rightarrow> nat" where
  "rune_of s = (case map code s of
     [a, b] \<Rightarrow> (a - 192) * 64 + (b - 128)
   | [a, b, c] \<Rightarrow> (a - 224) * 4096 + (b - 128) * 64 + (c - 128)
   | [a, b, c, d] \<Rightarrow> (a - 240) * 262144 + (b - 128) * 4096 + (c - 128) * 64 + (d - 128)
   | _ \<Rightarrow> 0)"

definition escape_x :: "nat \<Rightarrow> string" where
  "escape_x r = [backslash, CHR ''x'', hex_char (r div 16 mod 16), hex_char (r mod 16)]"

definition escape_U :: "nat \<Rightarrow> string" where
  "escape_U r = backslash # CHR ''U'' # map (\<lambda>i. hex_char (r div 16 ^ i mod 16)) [7, 6, 5, 4, 3, 2, 1, 0]"

definition quote_ascii :: "char \<Rightarrow> string" where
  "quote_ascii c =
     (if c = quote_char \<or> c = backslash then [backslash, c]
      else if 32 \<le> code c \<and> code c < 127 then [c]
      else if c = CHR 0x07 then [backslash, CHR ''a'']
      else if c = CHR 0x08 then [backslash, CHR ''b'']
      else if c = CHR 0x0C then [backslash, CHR ''f'']
      else if c = CHR 0x0A then [backslash, CHR ''n'']
      else if c = CHR 0x0D then [backslash, CHR ''r'']
      else if c = CHR 0x09 then [backslash, CHR ''t'']
      else if c = CHR 0x0B then [backslash, CHR ''v'']
      else escape_x (code c))"

fun go_quote_chars :: "(nat \<Rightarrow> bool) \<Rightarrow> string \<Rightarrow> string" where
  "go_quote_chars IsPrint [] = []"
| "go_quote_chars IsPrint (c # s) =
     (if code c < 128 then quote_ascii c @ go_quote_chars IsPrint s
      else let n = utf8_len (c # s) in
        if n = 0 then escape_x (code c) @ go_quote_chars IsPrint s
        else let r = rune_of (take n (c # s)) in
          (if IsPrint r then take n (c # s) else if r < 65536 then escape_u r else escape_U r)
            @ go_quote_chars IsPrint (drop (n - 1) s))"

definition strconv_Quote :: "(nat \<Rightarrow> bool) \<Rightarrow> string \<Rightarrow> string" where
  "strconv_Quote IsPrint s = quote_char # go_quote_chars IsPrint s @ [quote_char]"

record KafkaMessage =
  km_Key :: string
  km_Value :: string

record 'e KafkaWriter =
  w_WriteMessages :: "KafkaMessage list \<Rightarrow> 'e \<Rightarrow> go_error option \<times> 'e"
  w_Close :: "'e \<Rightarrow> go_error option \<times> 'e"

text \<open>The settings of \<open>kafka.Writer\<close> that the code gives; \<open>connect\<close> makes the writer.\<close>

datatype kafka_balancer = LeastBytes

record KafkaWriterSettings =
  kw_Addr :: "string list"
  kw_Topic :: string
  kw_Balancer :: kafka_balancer
  kw_AllowAutoTopicCreation :: bool

record 'e KafkaBatchHandler =
  kb_w :: "'e KafkaWriter"

definition NewKafkaBatchHandler ::
  "(KafkaWriterSettings \<Rightarrow> 'e KafkaWriter) \<Rightarrow> string list \<Rightarrow> string \<Rightarrow> 'e KafkaBatchHandler" where
  "NewKafkaBatchHandler connect brokers topic =
     \<lparr>kb_w = connect \<lparr>kw_Addr = brokers, kw_Topic = topic, kw_Balancer = LeastBytes, kw_AllowAutoTopicCreation = True\<rparr>\<rparr>"

definition kafka_payload :: "(nat \<Rightarrow> bool) \<Rightarrow> LogResult \<Rightarrow> string" where
  "kafka_payload IsPrint l =
     CHR ''{'' # quote_char # ''block'' @ quote_char # CHR '':'' # strconv_Quote IsPrint (lr_BlockNumber l)
       @ CHR '','' # quote_char # ''tx'' @ quote_char # CHR '':'' # strconv_Quote IsPrint (lr_TransactionHash l)
       @ CHR '','' # quote_char # ''addr'' @ quote_char # CHR '':'' # strconv_Quote IsPrint (lr_Address l)
       @ ''}''"

fun kafka_msgs :: "(nat \<Rightarrow> bool) \<Rightarrow> LogResult list \<Rightarrow> KafkaMessage list \<Rightarrow> KafkaMessage list" where
  "kafka_msgs IsPrint [] msgs = msgs"
| "kafka_msgs IsPrint (l # logs) msgs =
     kafka_msgs IsPrint logs
       (msgs @ [\<lparr>km_Key = lr_TransactionHash l, km_Value = kafka_payload IsPrint l\<rparr>])"

definition KafkaBatchHandler_HandleBatch :: "(nat \<Rightarrow> bool) \<Rightarrow> 'e KafkaBatchHandler \<Rightarrow> 'e LogBatchHandler" where
  "KafkaBatchHandler_HandleBatch IsPrint k logs e =
     (let msgs = kafka_msgs IsPrint logs [] in w_WriteMessages (kb_w k) msgs e)"

definition KafkaBatchHandler_Close :: "'e KafkaBatchHandler \<Rightarrow> 'e \<Rightarrow> go_error option \<times> 'e" where
  "KafkaBatchHandler_Close k e = w_Close (kb_w k) e"

section \<open>What the database promises\<close>

text \<open>The table by its unique key, block number and transaction hash.\<close>

type_synonym event_table = "string \<times> string \<rightharpoonup> string \<times> string \<times> string"

fun insert_row :: "string list \<Rightarrow> event_table \<Rightarrow> event_table" where
  "insert_row [b, h, a, t, d] tab = (if (b, h) \<in> dom tab then tab else tab((b, h) \<mapsto> (a, t, d)))"
| "insert_row _ tab = tab"

definition insert_rows :: "LogResult list \<Rightarrow> event_table \<Rightarrow> event_table" where
  "insert_rows logs tab = fold (\<lambda>l. insert_row (log_args l)) logs tab"

text \<open>
  \<open>table\<close> is what is committed, \<open>work\<close> what the open transaction sees. A failing commit may still
  have been processed by the server.
\<close>

locale sql_database =
  fixes db :: "'e SqlDB" and table :: "'e \<Rightarrow> event_table" and work :: "'e \<Rightarrow> event_table"
  assumes begin_ok: "db_BeginTx db e = (None, e') \<Longrightarrow> table e' = table e \<and> work e' = table e"
    and begin_err: "db_BeginTx db e = (Some err, e') \<Longrightarrow> table e' = table e"
    and prepare_ok: "tx_PrepareContext db q e = (None, e') \<Longrightarrow> table e' = table e \<and> work e' = work e"
    and prepare_err: "tx_PrepareContext db q e = (Some err, e') \<Longrightarrow> table e' = table e"
    and exec_ok: "stmt_ExecContext db args e = (None, e') \<Longrightarrow>
      table e' = table e \<and> work e' = insert_row args (work e)"
    and exec_err: "stmt_ExecContext db args e = (Some err, e') \<Longrightarrow> table e' = table e"
    and close_table: "table (stmt_Close db e) = table e"
    and commit_ok: "tx_Commit db e = (None, e') \<Longrightarrow> table e' = work e"
    and commit_err: "tx_Commit db e = (Some err, e') \<Longrightarrow> table e' = table e \<or> table e' = work e"
    and rollback_table: "table (tx_Rollback db e) = table e"
begin

lemma insert_logs_result:
  "insert_logs db logs e = (res, e') \<Longrightarrow>
     table e' = table e \<and> (res = None \<longrightarrow> work e' = insert_rows logs (work e))"
proof (induction logs arbitrary: e)
  case (Cons l logs)
  obtain r e1 where x: "stmt_ExecContext db (log_args l) e = (r, e1)" by fastforce
  show ?case
  proof (cases r)
    case None
    with Cons.prems x have "insert_logs db logs e1 = (res, e')" by simp
    from Cons.IH [OF this] exec_ok [of "log_args l" e e1] x None show ?thesis by (simp add: insert_rows_def)
  next
    case (Some err)
    with Cons.prems x exec_err [of "log_args l" e err e1] show ?thesis by auto
  qed
qed (simp add: insert_rows_def)

text \<open>All rows of the batch or none.\<close>

lemma HandleBatch_atomic:
  assumes "SQLBatchHandler_HandleBatch (NewSQLBatchHandler db) logs e = (res, e')"
  shows "table e' = insert_rows logs (table e) \<or> res \<noteq> None \<and> table e' = table e"
proof (cases "logs = []")
  case True
  with assms show ?thesis by (simp add: SQLBatchHandler_HandleBatch_def NewSQLBatchHandler_def insert_rows_def)
next
  case False
  obtain r1 e1 where b: "db_BeginTx db e = (r1, e1)" by fastforce
  obtain r2 e2 where p: "tx_PrepareContext db insert_statement e1 = (r2, e2)" by fastforce
  obtain r3 e3 where i: "insert_logs db logs e2 = (r3, e3)" by fastforce
  obtain r4 e4 where c: "tx_Commit db e3 = (r4, e4)" by fastforce
  note facts = begin_ok [of e e1] begin_err [of e _ e1] prepare_ok [of insert_statement e1 e2]
    prepare_err [of insert_statement e1 _ e2] insert_logs_result [OF i] commit_ok [of e3 e4] commit_err [of e3 _ e4]
  show ?thesis
    using assms b p i c False facts
    by (cases r1; cases r2; cases r3; cases r4)
      (auto simp: SQLBatchHandler_HandleBatch_def NewSQLBatchHandler_def close_table rollback_table)
qed

end

section \<open>Rows\<close>

definition log_key :: "LogResult \<Rightarrow> string \<times> string" where
  "log_key l = (lr_BlockNumber l, lr_TransactionHash l)"

definition log_row :: "LogResult \<Rightarrow> string \<times> string \<times> string" where
  "log_row l = (lr_Address l, commas (lr_Topics l), lr_Data l)"

lemma topics_loop_Suc: "topics_loop (Suc i) ts s = s @ concat (map (Cons (CHR '','')) ts)"
  by (induction ts arbitrary: i s) (simp_all add: Let_def)

lemma commas_concat: "commas (t # ts) = t @ concat (map (Cons (CHR '','')) ts)"
  by (induction ts arbitrary: t) simp_all

text \<open>The index loop over the topics joins them with commas.\<close>

lemma topics_loop_commas: "topics_loop 0 ts [] = commas ts"
  by (cases ts) (simp_all add: Let_def topics_loop_Suc commas_concat)

lemma insert_row_log:
  "insert_row (log_args l) tab = (if log_key l \<in> dom tab then tab else tab(log_key l \<mapsto> log_row l))"
  by (simp add: log_args_def log_key_def log_row_def topics_loop_commas)

lemma insert_rows_Cons: "insert_rows (l # logs) tab =
    insert_rows logs (if log_key l \<in> dom tab then tab else tab(log_key l \<mapsto> log_row l))"
  by (simp add: insert_rows_def insert_row_log)

text \<open>The first log with a key not in the table decides its row.\<close>

lemma insert_rows_lookup:
  "insert_rows logs tab k = (case tab k of
     Some row \<Rightarrow> Some row
   | None \<Rightarrow> map_option log_row (find (\<lambda>l. log_key l = k) logs))"
proof (induction logs arbitrary: tab)
  case (Cons l logs)
  show ?case
  proof (cases "log_key l \<in> dom tab")
    case True
    with Cons show ?thesis by (auto simp: insert_rows_Cons split: option.split)
  next
    case False
    then show ?thesis
      unfolding insert_rows_Cons using Cons by (auto simp: domIff split: option.split)
  qed
qed (simp add: insert_rows_def split: option.split)

lemma insert_rows_again: "insert_rows logs (insert_rows logs tab) = insert_rows logs tab"
  by (rule ext) (simp add: insert_rows_lookup split: option.split)

section \<open>A database in memory\<close>

definition mem_sql :: "(event_table \<times> event_table) SqlDB" where
  "mem_sql = \<lparr>db_BeginTx = (\<lambda>(t, w). (None, t, t)), tx_PrepareContext = (\<lambda>q e. (None, e)),
     stmt_ExecContext = (\<lambda>args (t, w). (None, t, insert_row args w)), stmt_Close = (\<lambda>e. e),
     tx_Commit = (\<lambda>(t, w). (None, w, w)), tx_Rollback = (\<lambda>(t, w). (t, t))\<rparr>"

interpretation mem_sql: sql_database mem_sql fst snd
  by unfold_locales (auto simp: mem_sql_def)

section \<open>Kafka payloads\<close>

lemma go_quote_chars_plain: "\<forall>c \<in> set s. plain_char c \<Longrightarrow> go_quote_chars IsPrint s = s"
proof (induction s)
  case (Cons c s)
  then have "32 \<le> code c" "code c < 127" "c \<noteq> quote_char" "c \<noteq> backslash"
    unfolding plain_char_def by auto
  then have "quote_ascii c = [c]" "code c < 128" by (simp_all add: quote_ascii_def)
  moreover have "go_quote_chars IsPrint s = s" using Cons by simp
  ultimately show ?case by (simp only: go_quote_chars.simps if_True append.simps)
qed simp

lemma strconv_Quote_plain: "\<forall>c \<in> set s. plain_char c \<Longrightarrow> strconv_Quote IsPrint s = quote s"
  by (simp add: strconv_Quote_def quote_def go_quote_chars_plain quote_chars_plain)

definition plain_log :: "LogResult \<Rightarrow> bool" where
  "plain_log l \<longleftrightarrow> list_all plain_char (lr_BlockNumber l) \<and> list_all plain_char (lr_TransactionHash l)
     \<and> list_all plain_char (lr_Address l)"

definition payload_json :: "LogResult \<Rightarrow> json" where
  "payload_json l = JObj [(''block'', JStr (lr_BlockNumber l)), (''tx'', JStr (lr_TransactionHash l)),
     (''addr'', JStr (lr_Address l))]"

lemma kafka_payload_print:
  assumes "plain_log l"
  shows "kafka_payload IsPrint l = print_json (payload_json l)"
proof -
  have "quote ''block'' = quote_char # ''block'' @ [quote_char]" "quote ''tx'' = quote_char # ''tx'' @ [quote_char]"
      "quote ''addr'' = quote_char # ''addr'' @ [quote_char]"
    by (simp_all add: quote_def escape_ascii_def)
  with assms show ?thesis
    by (simp add: kafka_payload_def payload_json_def plain_log_def list_all_iff strconv_Quote_plain)
qed

lemma payload_parse:
  assumes "plain_log l"
  shows "json_parse (kafka_payload IsPrint l) = Some (payload_json l)"
proof -
  have "valid_utf8 ''block''" "valid_utf8 ''tx''" "valid_utf8 ''addr''" by (rule valid_utf8_ascii, simp)+
  with assms have "wf_json (payload_json l)"
    by (simp add: payload_json_def plain_log_def list_all_iff valid_plain)
  then show ?thesis unfolding kafka_payload_print [OF assms] by (rule json_parse_print)
qed

lemma kafka_msgs_map:
  "kafka_msgs IsPrint logs msgs = msgs @ map (\<lambda>l. \<lparr>km_Key = lr_TransactionHash l, km_Value = kafka_payload IsPrint l\<rparr>) logs"
  by (induction logs arbitrary: msgs) simp_all

section \<open>What the Kafka client promises\<close>

text \<open>
  \<open>sent\<close> are the messages the writer has sent to the brokers. A write without an error has sent each of its messages
  at least once (the writer repeats a batch that failed), one with an error some of them; nothing else is sent. That
  the brokers have stored them is not promised: \<open>RequiredAcks\<close> is not set.
\<close>

definition kafka_message :: "(nat \<Rightarrow> bool) \<Rightarrow> LogResult \<Rightarrow> KafkaMessage" where
  "kafka_message IsPrint l = \<lparr>km_Key = lr_TransactionHash l, km_Value = kafka_payload IsPrint l\<rparr>"

definition published ::
  "(nat \<Rightarrow> bool) \<Rightarrow> LogResult list \<Rightarrow> KafkaMessage multiset \<Rightarrow> KafkaMessage multiset \<Rightarrow> bool" where
  "published IsPrint logs x y \<longleftrightarrow> x + mset (map (kafka_message IsPrint) logs) \<subseteq># y
     \<and> set_mset y \<subseteq> set_mset x \<union> kafka_message IsPrint ` set logs"

lemma published_append:
  assumes "published IsPrint xs x y" and "published IsPrint ys y z"
  shows "published IsPrint (xs @ ys) x z"
proof -
  have "x + mset (map (kafka_message IsPrint) xs) + mset (map (kafka_message IsPrint) ys) \<subseteq># y + mset (map (kafka_message IsPrint) ys)"
    using assms(1) unfolding published_def by (simp only: subset_mset.add_right_mono)
  also have "\<dots> \<subseteq># z" using assms(2) by (simp add: published_def)
  finally show ?thesis using assms unfolding published_def by (auto simp: add.assoc)
qed

locale kafka_topic =
  fixes wr :: "'e KafkaWriter" and topic :: "'e \<Rightarrow> KafkaMessage multiset"
  assumes write_ok: "w_WriteMessages wr msgs e = (None, e') \<Longrightarrow>
      topic e + mset msgs \<subseteq># topic e' \<and> set_mset (topic e') \<subseteq> set_mset (topic e) \<union> set msgs"
    and write_err: "w_WriteMessages wr msgs e = (Some err, e') \<Longrightarrow>
      topic e \<subseteq># topic e' \<and> set_mset (topic e') \<subseteq> set_mset (topic e) \<union> set msgs"
begin

lemma HandleBatch_publishes:
  "KafkaBatchHandler_HandleBatch IsPrint \<lparr>kb_w = wr\<rparr> logs e = (None, e') \<Longrightarrow> published IsPrint logs (topic e) (topic e')"
  using write_ok [of "map (kafka_message IsPrint) logs" e e']
  by (simp add: KafkaBatchHandler_HandleBatch_def kafka_msgs_map published_def kafka_message_def [abs_def])

lemma HandleBatch_keeps_topic:
  assumes "KafkaBatchHandler_HandleBatch IsPrint \<lparr>kb_w = wr\<rparr> logs e = (res, e')"
  shows "topic e \<subseteq># topic e'"
proof -
  let ?msgs = "map (kafka_message IsPrint) logs"
  have w: "w_WriteMessages wr ?msgs e = (res, e')"
    using assms by (simp add: KafkaBatchHandler_HandleBatch_def kafka_msgs_map kafka_message_def [abs_def])
  show ?thesis
  proof (cases res)
    case None
    with w write_ok have "topic e + mset ?msgs \<subseteq># topic e'" by blast
    then show ?thesis by (meson mset_subset_eq_add_left subset_mset.order_trans)
  next
    case (Some err)
    with w write_err show ?thesis by blast
  qed
qed

end

text \<open>A writer that keeps what it sends.\<close>

definition mem_writer :: "KafkaMessage multiset KafkaWriter" where
  "mem_writer = \<lparr>w_WriteMessages = (\<lambda>msgs m. (None, m + mset msgs)), w_Close = (\<lambda>m. (None, m))\<rparr>"

interpretation mem_topic: kafka_topic mem_writer "\<lambda>m. m"
  by unfold_locales (auto simp: mem_writer_def)

section \<open>Properties\<close>



text \<open>
  The Kafka handler hands the writer one message per log, in order, keyed by the transaction
  hash; for texts without characters that need escaping, such as hexadecimal and decimal ones, the
  payload is the JSON object with the block, the transaction and the address.
\<close>

theorem KafkaBatchHandler_messages:
  assumes "\<forall>l \<in> set logs. plain_log l"
  shows "\<exists>msgs. KafkaBatchHandler_HandleBatch IsPrint k logs e = w_WriteMessages (kb_w k) msgs e
    \<and> map km_Key msgs = map lr_TransactionHash logs
    \<and> map (\<lambda>m. json_parse (km_Value m)) msgs = map (\<lambda>l. Some (payload_json l)) logs"
  using assms
  by (intro exI [of _ "kafka_msgs IsPrint logs []"])
    (simp add: KafkaBatchHandler_HandleBatch_def kafka_msgs_map payload_parse)

definition recording_writer :: "KafkaWriterSettings \<Rightarrow> KafkaMessage list KafkaWriter" where
  "recording_writer settings = \<lparr>w_WriteMessages = (\<lambda>msgs e. (None, msgs)), w_Close = (\<lambda>e. (None, e))\<rparr>"

theorem KafkaBatchHandler_messages_witness:
  "\<exists>msgs. KafkaBatchHandler_HandleBatch (\<lambda>_. True) (NewKafkaBatchHandler recording_writer [''kafka:9092''] ''evm_logs'') [transfer_log ''01''] []
       = (None, msgs)
     \<and> map (\<lambda>m. json_parse (km_Value m)) msgs = [Some (payload_json (transfer_log ''01''))]"
proof -
  have "\<forall>l \<in> set [transfer_log ''01'']. plain_log l"
    by (simp add: plain_log_def transfer_log_def plain_char_def)
  from KafkaBatchHandler_messages [OF this, of "\<lambda>_. True" "NewKafkaBatchHandler recording_writer [''kafka:9092''] ''evm_logs''" "[]"]
  show ?thesis by (auto simp: NewKafkaBatchHandler_def recording_writer_def)
qed

text \<open>
  The verb \<open>%q\<close> quotes for Go, not for JSON: a text with a bell character gives a payload that is no JSON.
\<close>

lemma kafka_payload_not_json:
  "json_parse (kafka_payload IsPrint ((transfer_log ''01'')\<lparr>lr_BlockNumber := [CHR 0x07]\<rparr>)) = None"
  by (simp add: kafka_payload_def strconv_Quote_def quote_ascii_def json_parse_def numeral_eq_Suc unescape_def)

end
