(* ===== verification/Daemon.thy ===== *)
theory Daemon
  imports Task_Runner Redis_Pool Scdo_Hex Handlers
begin

text \<open>
  The daemon, \<open>go/logfilter/main.go\<close>: its environment variables, its JSON checkpoint file, the choice of
  start block, pool and handler, and the task it runs, as one goroutine to which a signal is the end of
  its context, a part of the host. The metrics server and the signal goroutine are in the theory of the
  shutdown; the log output is left out. What is not the program's own is the record \<open>Platform\<close>.
\<close>

section \<open>Text functions\<close>

text \<open>\<open>strings.Split(s, ",")\<close>.\<close>

fun split_comma :: "string \<Rightarrow> string list" where
  "split_comma [] = [[]]"
| "split_comma (c # s) =
     (if c = CHR '','' then [] # split_comma s
      else case split_comma s of [] \<Rightarrow> [[c]] | x # xs \<Rightarrow> (c # x) # xs)"

text \<open>\<open>strings.TrimSpace\<close>: the UTF-8 forms of the code points of \<open>unicode.IsSpace\<close>.\<close>

definition space_texts :: "string list" where
  "space_texts = map utf8_encode ([9, 10, 11, 12, 13, 32, 133, 160, 5760] @ [8192..<8203] @ [8232, 8233, 8239, 8287, 12288])"

function trim_left :: "string list \<Rightarrow> string \<Rightarrow> string" where
  "trim_left ws s =
     (case find (\<lambda>w. w \<noteq> [] \<and> take (length w) s = w) ws of
        None \<Rightarrow> s
      | Some w \<Rightarrow> trim_left ws (drop (length w) s))"
  by pat_completeness auto
termination
proof (relation "measure (\<lambda>(ws, s). length s)")
  fix ws s w assume "find (\<lambda>w. w \<noteq> [] \<and> take (length w) s = w) ws = Some w"
  then have "w \<noteq> []" "take (length w) s = w" by (auto simp: find_Some_iff)
  then show "((ws, drop (length w) s), (ws, s)) \<in> measure (\<lambda>(ws, s). length s)"
    by (cases w; cases s) auto
qed simp

declare trim_left.simps [simp del]

definition TrimSpace :: "string \<Rightarrow> string" where
  "TrimSpace s = rev (trim_left (map rev space_texts) (rev (trim_left space_texts s)))"

text \<open>A text that neither starts nor ends with a space stays as it is.\<close>

definition graphic :: "char \<Rightarrow> bool" where
  "graphic c \<longleftrightarrow> 33 \<le> code c \<and> code c < 127"

lemma utf8_encode_high: "128 \<le> r \<Longrightarrow> c \<in> set (utf8_encode r) \<Longrightarrow> 128 \<le> code c"
  by (auto simp: utf8_encode_def split: if_splits)

lemma space_not_graphic: "w \<in> set space_texts \<Longrightarrow> c \<in> set w \<Longrightarrow> \<not> graphic c"
  unfolding space_texts_def graphic_def using utf8_encode_high
  by (fastforce simp: utf8_encode_def)

lemma trim_left_graphic:
  assumes "s \<noteq> []" and "graphic (hd s)" and "\<And>w c. w \<in> set ws \<Longrightarrow> c \<in> set w \<Longrightarrow> \<not> graphic c"
  shows "trim_left ws s = s"
proof -
  have "\<not> (w \<noteq> [] \<and> take (length w) s = w)" if "w \<in> set ws" for w
  proof
    assume w: "w \<noteq> [] \<and> take (length w) s = w"
    then have "hd w = hd s" by (metis hd_take length_greater_0_conv)
    with w assms(2) assms(3) [OF that, of "hd w"] show False by (metis hd_in_set)
  qed
  then have "find (\<lambda>w. w \<noteq> [] \<and> take (length w) s = w) ws = None" by (simp add: find_None_iff)
  then show ?thesis by (subst trim_left.simps) simp
qed

lemma TrimSpace_graphic:
  assumes "s \<noteq> []" and "graphic (hd s)" and "graphic (last s)"
  shows "TrimSpace s = s"
proof -
  have "trim_left space_texts s = s" using assms space_not_graphic by (intro trim_left_graphic)
  moreover have "\<not> graphic c" if "w \<in> set (map rev space_texts)" "c \<in> set w" for w c
    using that space_not_graphic by auto
  then have "trim_left (map rev space_texts) (rev s) = rev s"
    using assms by (intro trim_left_graphic) (simp_all add: hd_rev)
  ultimately show ?thesis by (simp add: TrimSpace_def)
qed

section \<open>Environment variables\<close>

definition env_or :: "(string \<Rightarrow> string) \<Rightarrow> string \<Rightarrow> string \<Rightarrow> string" where
  "env_or Getenv key dflt = (let v = Getenv key in if v \<noteq> [] then v else dflt)"

definition envUint64 :: "(string \<Rightarrow> string) \<Rightarrow> string \<Rightarrow> u64 \<Rightarrow> u64" where
  "envUint64 Getenv key dflt =
     (let v = Getenv key in
      if v \<noteq> [] then (case ParseUint v of Inr n \<Rightarrow> n | Inl _ \<Rightarrow> dflt) else dflt)"

section \<open>The checkpoint file\<close>

record fileCheckpoint =
  fc_path :: string

text \<open>\<open>json.Unmarshal\<close> into a \<open>map[string]uint64\<close>; of two members with the same name the later counts.\<close>

definition decode_uint_map :: "json \<Rightarrow> (string \<times> u64) list go_result" where
  "decode_uint_map v =
     (case v of
        JNull \<Rightarrow> Inr []
      | JObj ms \<Rightarrow>
          (case decode_elems (\<lambda>v. decode_uint64 v 0) (map snd ms) of
             Inl err \<Rightarrow> Inl err
           | Inr ns \<Rightarrow> Inr (zip (map fst ms) ns))
      | _ \<Rightarrow> Inl json_TypeError)"

definition map_index :: "(string \<times> u64) list \<Rightarrow> string \<Rightarrow> u64" where
  "map_index m k = (case map_of (rev m) k of None \<Rightarrow> 0 | Some n \<Rightarrow> n)"

definition fileCheckpoint_Load :: "'e Disk \<Rightarrow> fileCheckpoint \<Rightarrow> 'e \<Rightarrow> u64 go_result \<times> 'e" where
  "fileCheckpoint_Load disk f e =
     (case ReadFile disk (fc_path f) e of
        (Inl err, e) \<Rightarrow> if errors_Is (Some err) (Some Os_ErrNotExist) then (Inr 0, e) else (Inl err, e)
      | (Inr b, e) \<Rightarrow>
          (case json_Unmarshal decode_uint_map b of
             Inl err \<Rightarrow> (Inl err, e)
           | Inr m \<Rightarrow> (Inr (map_index m ''lastBlock''), e)))"

definition fileCheckpoint_Save :: "'e Disk \<Rightarrow> fileCheckpoint \<Rightarrow> u64 \<Rightarrow> 'e \<Rightarrow> go_error option \<times> 'e" where
  "fileCheckpoint_Save disk f block e =
     (let b = print_json (JObj [(''lastBlock'', JNum (FormatUint block))]) in
      WriteFile disk (fc_path f) b e)"

section \<open>The platform\<close>

record ('e, 'r) Platform =
  Getenv :: "string \<Rightarrow> string"
  ParseDuration :: "string \<Rightarrow> int go_result"
  ethclient_Dial :: "string \<Rightarrow> 'e EthClient go_result"
  common :: EthCommon
  main_ctx :: "'e Host"
  disk :: "'e Disk"
  redis_NewClient :: "string \<Rightarrow> 'r RedisDB"
  kafka_Writer :: "KafkaWriterSettings \<Rightarrow> 'e KafkaWriter"
  unicode_IsPrint :: "nat \<Rightarrow> bool"

text \<open>A call on the environment inside the world of the RPC client.\<close>

definition on_renv :: "('e \<Rightarrow> 'a \<times> 'e) \<Rightarrow> 'e rworld \<Rightarrow> 'a \<times> 'e rworld" where
  "on_renv f w = (case f (renv w) of (x, e) \<Rightarrow> (x, w\<lparr>renv := e\<rparr>))"

definition task_host :: "'e Host \<Rightarrow> 'e rworld Host" where
  "task_host h = \<lparr>ctx_Err = on_renv (ctx_Err h), pick = on_renv (pick h),
     wait_for = (\<lambda>d. on_renv (wait_for h d)), time_Now = on_renv (time_Now h)\<rparr>"

text \<open>\<open>context.Background()\<close>: never done.\<close>

definition background :: "'e Host \<Rightarrow> 'e Host" where
  "background h = h\<lparr>ctx_Err := (\<lambda>e. (None, e)), wait_for := (\<lambda>d e. (None, snd (wait_for h d e)))\<rparr>"

text \<open>The two pools side by side; the task uses one of them.\<close>

definition left_pool :: "'p PendingPool \<Rightarrow> ('p \<times> 'q) PendingPool" where
  "left_pool P = \<lparr>pp_Add = (\<lambda>h logs (p, q). case pp_Add P h logs p of (r, p) \<Rightarrow> (r, p, q)),
     pp_PopConfirmed = (\<lambda>l c (p, q). case pp_PopConfirmed P l c p of (r, p) \<Rightarrow> (r, p, q)),
     pp_Count = (\<lambda>(p, q). case pp_Count P p of (r, p) \<Rightarrow> (r, p, q))\<rparr>"

definition right_pool :: "'q PendingPool \<Rightarrow> ('p \<times> 'q) PendingPool" where
  "right_pool Q = \<lparr>pp_Add = (\<lambda>h logs (p, q). case pp_Add Q h logs q of (r, q) \<Rightarrow> (r, p, q)),
     pp_PopConfirmed = (\<lambda>l c (p, q). case pp_PopConfirmed Q l c q of (r, q) \<Rightarrow> (r, p, q)),
     pp_Count = (\<lambda>(p, q). case pp_Count Q q of (r, q) \<Rightarrow> (r, p, q))\<rparr>"

section \<open>main\<close>

definition daemon_contracts :: "(string \<Rightarrow> string) \<Rightarrow> string list" where
  "daemon_contracts getenv = map TrimSpace (split_comma (env_or getenv ''CONTRACT_ADDRESS'' []))"

text \<open>\<open>liveInterval, _ := time.ParseDuration(...)\<close>: the error is dropped, the duration is then 0.\<close>

definition live_interval :: "('e, 'r) Platform \<Rightarrow> int" where
  "live_interval P =
     (case ParseDuration P (env_or (Getenv P) ''LIVE_POLL_INTERVAL'' ''12s'') of Inl _ \<Rightarrow> 0 | Inr d \<Rightarrow> d)"

definition daemon_store :: "('e, 'r) Platform \<Rightarrow> fileCheckpoint" where
  "daemon_store P = \<lparr>fc_path = env_or (Getenv P) ''CHECKPOINT_FILE'' ''./checkpoint.json''\<rparr>"

definition resolve_start :: "('e, 'r) Platform \<Rightarrow> 'e RealRPC \<Rightarrow> 'e rworld \<Rightarrow> u64 go_result \<times> 'e rworld" where
  "resolve_start P rpc w =
     (let startBlock = envUint64 (Getenv P) ''START_BLOCK'' 0 in
      if startBlock \<noteq> 0 then (Inr startBlock, w)
      else case on_renv (fileCheckpoint_Load (disk P) (daemon_store P)) w of
        (loaded, w) \<Rightarrow>
          (case loaded of
             Inr cp \<Rightarrow>
               if 0 < cp then (Inr cp, w)
               else rpc_BlockNumber (real_querier (background (main_ctx P)) (common P) rpc) w
           | Inl _ \<Rightarrow> rpc_BlockNumber (real_querier (background (main_ctx P)) (common P) rpc) w))"

definition daemon_pool :: "('e, 'r) Platform \<Rightarrow> iteration \<Rightarrow> (BlockPendingPool \<times> 'r) PendingPool" where
  "daemon_pool P ord =
     (let redisAddr = env_or (Getenv P) ''REDIS_ADDR'' [] in
      if redisAddr \<noteq> [] then right_pool (redis_pool (redis_NewClient P redisAddr) (NewRedisPendingPool ''logfilter''))
      else left_pool (block_pool ord))"

definition daemon_handler :: "('e, 'r) Platform \<Rightarrow> 'e rworld LogBatchHandler" where
  "daemon_handler P =
     (let kb = env_or (Getenv P) ''KAFKA_BROKERS'' [] in
      if kb \<noteq> [] then
        (\<lambda>logs. on_renv (KafkaBatchHandler_HandleBatch (unicode_IsPrint P)
           (NewKafkaBatchHandler (kafka_Writer P) (split_comma kb) (env_or (Getenv P) ''KAFKA_TOPIC'' ''evm_logs'')) logs))
      else NoopBatchHandler)"

definition daemon_task ::
  "('e, 'r) Platform \<Rightarrow> iteration \<Rightarrow> 'e RealRPC \<Rightarrow> u64 \<Rightarrow> ('e rworld, BlockPendingPool \<times> 'r) LogTask" where
  "daemon_task P ord rpc startBlock =
     \<lparr>TaskName = ''primary'', Address = daemon_contracts (Getenv P), Topics = [], Checkpoint = startBlock,
      BatchSize = envUint64 (Getenv P) ''BATCH_SIZE'' 1000,
      RPC = real_querier (main_ctx P) (common P) rpc,
      Store = \<lparr>cs_Save = (\<lambda>b. on_renv (fileCheckpoint_Save (disk P) (daemon_store P) b)),
               cs_Load = on_renv (fileCheckpoint_Load (disk P) (daemon_store P))\<rparr>,
      BatchHandler = daemon_handler P,
      LiveMode = True, LivePollInterval = live_interval P,
      RestartBackoff = 5 * 1000000000, MaxBackoff = 2 * 60 * 1000000000,
      ConfirmBlockNum = envUint64 (Getenv P) ''CONFIRM_BLOCKS'' 6,
      PendingPool = Some (daemon_pool P ord), unhealthyStart = None\<rparr>"

text \<open>The state the process starts its task with: an empty pool, and Redis as it is.\<close>

definition daemon_world :: "'e rworld \<Rightarrow> 'r \<Rightarrow> ('e rworld, BlockPendingPool \<times> 'r) world" where
  "daemon_world e r = \<lparr>env = e, pool = (NewBlockPendingPool, r), RPCSem = the (NewRPCSemaphore 10),
     TaskLocalSem = the (NewRPCSemaphore 3), rpcConcurrent = 0, rpcOk = 0, rpcFail = 0, logsTotal = 0,
     batchDurations = [], pendingBlockCount = 0, taskHealth = 0, taskUnhealthyNs = 0, taskLiveMode = 0, trace = []\<rparr>"

datatype exit =
    Fatal string
  | Exit_1 go_error
  | Stopped

definition daemon_connect :: "('e, 'r) Platform \<Rightarrow> string \<Rightarrow> 'e RealRPC go_result" where
  "daemon_connect P rpcURL = NewRealRPC (ethclient_Dial P) rpcURL [WithMaxRetries 3]"

text \<open>\<open>defer rpc.Close()\<close>: it runs when \<open>main\<close> returns, not at \<open>os.Exit\<close>.\<close>

definition close_rpc :: "'e RealRPC \<Rightarrow> 'e rworld \<Rightarrow> 'e rworld" where
  "close_rpc rpc w = w\<lparr>renv := RealRPC_Close rpc (renv w)\<rparr>"

text \<open>The task loop and the exit of the process; the loop may run forever.\<close>

type_synonym ('e, 'r) ended = "exit \<times> (('e rworld, BlockPendingPool \<times> 'r) LogTask \<times> ('e rworld, BlockPendingPool \<times> 'r) world) option"

definition daemon_start ::
  "('e, 'r) Platform \<Rightarrow> iteration \<Rightarrow> 'e RealRPC \<Rightarrow> u64 \<Rightarrow> 'e rworld \<Rightarrow> 'r \<Rightarrow> ('e, 'r) ended option" where
  "daemon_start P ord rpc startBlock e r =
     Option.bind (TaskLoop (task_host (main_ctx P)) (daemon_pool P ord, (NewBlockPendingPool, r))
         (daemon_task P ord rpc startBlock) (daemon_world e r))
       (\<lambda>(err, t, w).
          case err of
            None \<Rightarrow> Some (Stopped, Some (t, w\<lparr>env := close_rpc rpc (env w)\<rparr>))
          | Some err \<Rightarrow>
              (case ctx_Err (task_host (main_ctx P)) (env w) of
                 (None, e) \<Rightarrow> Some (Exit_1 err, Some (t, w\<lparr>env := e\<rparr>))
               | (Some _, e) \<Rightarrow> Some (Stopped, Some (t, w\<lparr>env := close_rpc rpc e\<rparr>))))"

definition daemon_main :: "('e, 'r) Platform \<Rightarrow> iteration \<Rightarrow> 'e rworld \<Rightarrow> 'r \<Rightarrow> ('e, 'r) ended option" where
  "daemon_main P ord e r =
     (let rpcURL = env_or (Getenv P) ''RPC_URL'' [] in
      if rpcURL = [] then Some (Fatal ''RPC_URL is required'', None)
      else let contracts = daemon_contracts (Getenv P) in
      if length contracts = 0 \<or> hd contracts = [] then Some (Fatal ''CONTRACT_ADDRESS is required'', None)
      else case daemon_connect P rpcURL of
        Inl err \<Rightarrow> Some (Fatal (''dial rpc: '' @ error_msg err), None)
      | Inr rpc \<Rightarrow>
          (case resolve_start P rpc e of
             (Inl err, e) \<Rightarrow> Some (Fatal (''get chain head: '' @ error_msg err), None)
           | (Inr startBlock, e) \<Rightarrow> daemon_start P ord rpc startBlock e r))"

section \<open>The checkpoint file keeps the contract of a store\<close>

lemma lastBlock_roundtrip:
  "json_Unmarshal decode_uint_map (print_json (JObj [(''lastBlock'', JNum (FormatUint b))])) = Inr [(''lastBlock'', b)]"
proof -
  have "valid_utf8 ''lastBlock''" by (rule valid_utf8_ascii) simp
  then have "wf_json (JObj [(''lastBlock'', JNum (FormatUint b))])" by simp
  then show ?thesis by (simp add: decode_uint_map_def decode_uint64_def del: print_json.simps)
qed

lemma fileCheckpoint_load_saved:
  assumes "disk_reads_back (background h) dsk" and "fileCheckpoint_Save dsk f b e = (None, e1)"
  shows "(\<exists>e2. fileCheckpoint_Load dsk f e1 = (Inr b, e2)) \<or> (\<exists>err e2. fileCheckpoint_Load dsk f e1 = (Inl err, e2))"
proof -
  let ?txt = "print_json (JObj [(''lastBlock'', JNum (FormatUint b))])"
  obtain res e2 where r: "ReadFile dsk (fc_path f) e1 = (res, e2)" by fastforce
  have "WriteFile dsk (fc_path f) ?txt e = (None, e1)" using assms(2) by (simp only: fileCheckpoint_Save_def Let_def)
  moreover have "snd (ctx_Err (background h) e1) = e1" by (simp add: background_def)
  ultimately have "res = Inr ?txt \<or> (\<exists>err. res = Inl err \<and> \<not> errors_Is (Some err) (Some Os_ErrNotExist))"
    using assms(1) r unfolding disk_reads_back_def by blast
  then show ?thesis
    using r lastBlock_roundtrip [of b] by (auto simp: fileCheckpoint_Load_def map_index_def simp del: print_json.simps)
qed

locale json_disk =
  fixes h :: "'e Host" and dsk :: "'e Disk" and f :: fileCheckpoint
  assumes reads_back: "disk_reads_back (background h) dsk"
begin

sublocale json_store: checkpoint_store "fileCheckpoint_Save dsk f" "fileCheckpoint_Load dsk f"
  by unfold_locales (use fileCheckpoint_load_saved [OF reads_back] in fastforce)

end

lemma plain_background: "disk_reads_back (background plain_host) plain_disk"
  by (auto simp: disk_reads_back_def plain_disk_def background_def)

interpretation json_file: json_disk plain_host plain_disk "\<lparr>fc_path = ''./checkpoint.json''\<rparr>"
  by unfold_locales (rule plain_background)

section \<open>The pools side by side\<close>

context pending_pool
begin

lemma fewer_storable: "(\<And>logs. s logs \<Longrightarrow> storable logs) \<Longrightarrow> pending_pool pool pend valid s"
  by unfold_locales (auto dest: add_ok add_err pop_ok pop_err count_valid)

lemma left_contract: "pending_pool (left_pool pool) (\<lambda>(p, q). pend p) (\<lambda>(p, q). valid p) storable"
  by unfold_locales (auto simp: left_pool_def split: prod.splits dest: add_ok add_err pop_ok pop_err count_valid)

lemma right_contract: "pending_pool (right_pool pool) (\<lambda>(q, p). pend p) (\<lambda>(q, p). valid p) storable"
  by unfold_locales (auto simp: right_pool_def split: prod.splits dest: add_ok add_err pop_ok pop_err count_valid)

end

section \<open>What the node's logs are\<close>

text \<open>go-ethereum's conversions give texts that are valid UTF-8.\<close>

definition hex_texts :: "EthCommon \<Rightarrow> bool" where
  "hex_texts C \<longleftrightarrow> (\<forall>b. valid_utf8 (Hash_Hex C b) \<and> valid_utf8 (Address_Hex C b) \<and> valid_utf8 (Bytes2Hex C b))"

lemma retry_value:
  assumes "go_loop (retry_body host call label r) s = Some (Inr v, w')"
  shows "\<exists>e. fst (call e) = Inr v"
proof -
  from go_loop_exit_state [OF assms] obtain a le w where
    body: "retry_body host call label r (a, le, w) = Some (Inr (Inr v, w'))" by (metis prod_cases3)
  obtain res e where "call (renv w) = (res, e)" by fastforce
  with body have "fst (call (renv w)) = Inr v"
    by (cases res) (auto simp: retry_body_def Let_def split: prod.splits if_splits option.splits)
  then show ?thesis ..
qed

lemma real_logs_utf8:
  assumes "hex_texts C" and "fst (rpc_EthGetLogs (real_querier host C r) a b addrs tops w) = Inr logs"
  shows "utf8_logs logs"
proof -
  obtain out where out: "RealRPC_EthGetLogs host C r a b addrs tops w = Some out"
    using retry_terminates unfolding RealRPC_EthGetLogs_def by blast
  with assms(2) have "RealRPC_EthGetLogs host C r a b addrs tops w = Some (Inr logs, snd out)"
    by (cases out) (simp add: real_querier_def)
  from retry_value [OF this [unfolded RealRPC_EthGetLogs_def]]
  obtain e where "fst (fetchRawLogs C r a b addrs tops e) = Inr logs" ..
  then obtain raw where "logs = map (convert_log C) raw"
    by (auto simp: fetchRawLogs_def split: prod.splits sum.splits)
  then show ?thesis
    using assms(1) by (auto simp: hex_texts_def list_all_iff utf8_log_def convert_log_def valid_utf8_FormatUint)
qed

section \<open>The daemon's pool\<close>

abbreviation redis_addr :: "('e, 'r) Platform \<Rightarrow> string" where
  "redis_addr P \<equiv> env_or (Getenv P) ''REDIS_ADDR'' []"

abbreviation logfilter_pool :: RedisPendingPool where
  "logfilter_pool \<equiv> NewRedisPendingPool ''logfilter''"

definition daemon_pending ::
  "('e, 'r) Platform \<Rightarrow> ('r \<Rightarrow> redis_view) \<Rightarrow> BlockPendingPool \<times> 'r \<Rightarrow> (u64 \<rightharpoonup> LogResult list)" where
  "daemon_pending P view = (\<lambda>(p, r). if redis_addr P \<noteq> [] then redis_pending logfilter_pool (view r) else block_pending p)"

definition daemon_valid :: "('e, 'r) Platform \<Rightarrow> ('r \<Rightarrow> redis_view) \<Rightarrow> BlockPendingPool \<times> 'r \<Rightarrow> bool" where
  "daemon_valid P view = (\<lambda>(p, r). if redis_addr P \<noteq> [] then redis_valid logfilter_pool (view r) else block_valid p)"

lemma daemon_pool_contract:
  assumes "map_iteration ord" and "redis_server (redis_NewClient P (redis_addr P)) view"
  shows "pending_pool (daemon_pool P ord) (daemon_pending P view) (daemon_valid P view) utf8_logs"
proof (cases "redis_addr P = []")
  case True
  have "pending_pool (block_pool ord) block_pending block_valid utf8_logs"
    by (rule pending_pool.fewer_storable [OF map_iteration.block_pool_contract [OF assms(1)]]) simp
  from pending_pool.left_contract [OF this] True show ?thesis
    by (simp add: daemon_pool_def daemon_pending_def daemon_valid_def)
next
  case False
  with pending_pool.right_contract [OF redis_server.redis_pool_contract [OF assms(2)], of logfilter_pool]
  show ?thesis by (simp add: daemon_pool_def daemon_pending_def daemon_valid_def)
qed

lemma daemon_answers_stored:
  assumes "hex_texts (common P)" and "pending_pool pl pnd vld utf8_logs"
  shows "pending_pool.stores_answers utf8_logs (RPC (daemon_task P ord rpc cp))"
  unfolding pending_pool.stores_answers_def [OF assms(2)]
proof (intro allI impI)
  fix a b addrs tops e logs
  assume "fst (rpc_EthGetLogs (RPC (daemon_task P ord rpc cp)) a b addrs tops e) = Inr logs"
  then have "utf8_logs logs" using real_logs_utf8 [OF assms(1)] by (simp add: daemon_task_def)
  then show "utf8_logs (dedup_batch {} logs)" using set_dedup_subset [of "{}" logs] by (auto simp: list_all_iff)
qed

lemma split_comma_nonempty: "split_comma s \<noteq> []"
  by (cases s) (auto split: list.split)

lemma hundred_text: "FormatUint 100 = ''100''"
  by code_simp

section \<open>A platform\<close>

text \<open>Settings from a list, a node with a fixed answer for the head and no logs, a disk and a Redis in memory.\<close>

definition plain_platform :: "u64 go_result \<Rightarrow> (string \<times> string) list \<Rightarrow> (files, mem_db) Platform" where
  "plain_platform head settings =
     \<lparr>Getenv = (\<lambda>k. case map_of settings k of None \<Rightarrow> [] | Some v \<Rightarrow> v), ParseDuration = (\<lambda>_. Inr 12000000000),
      ethclient_Dial = (\<lambda>_. Inr \<lparr>ec_BlockNumber = (\<lambda>e. (head, e)), ec_FilterLogs = (\<lambda>q e. (Inr [], e)), ec_Close = (\<lambda>e. e)\<rparr>),
      common = plain_common, main_ctx = plain_host, disk = plain_disk, redis_NewClient = (\<lambda>_. mem_redis),
      kafka_Writer = (\<lambda>_. \<lparr>w_WriteMessages = (\<lambda>msgs e. (None, e)), w_Close = (\<lambda>e. (None, e))\<rparr>), unicode_IsPrint = (\<lambda>_. False)\<rparr>"

definition plain_client :: "u64 go_result \<Rightarrow> files RealRPC" where
  "plain_client head = \<lparr>client = \<lparr>ec_BlockNumber = (\<lambda>e. (head, e)), ec_FilterLogs = (\<lambda>q e. (Inr [], e)), ec_Close = (\<lambda>e. e)\<rparr>,
     maxRetries = 3, retryBaseWait = 500 * 1000000\<rparr>"

lemma plain_hex_texts: "hex_texts plain_common"
  by (simp add: hex_texts_def plain_common_def valid_utf8_ascii hex_ascii)

lemma BlockNumber_first_try:
  assumes "ec_BlockNumber (client r) (renv w) = (Inr n, e)" and "0 \<le> maxRetries r"
  shows "rpc_BlockNumber (real_querier h C r) w = (Inr n, w\<lparr>renv := e, calls_made := Suc (calls_made w)\<rparr>)"
proof -
  have "RealRPC_BlockNumber h r w = Some (Inr n, w\<lparr>renv := e, calls_made := Suc (calls_made w)\<rparr>)"
    unfolding RealRPC_BlockNumber_def by (rule go_loop_Inr) (simp add: retry_body_def assms)
  then show ?thesis by (simp add: real_querier_def)
qed

lemma BlockNumber_failing:
  assumes "\<And>e. fst (ec_BlockNumber (client r) e) = Inl err"
  shows "\<exists>err' w'. rpc_BlockNumber (real_querier h C r) w = (Inl err', w')"
proof -
  obtain res w' where run: "RealRPC_BlockNumber h r w = Some (res, w')"
    using retry_terminates unfolding RealRPC_BlockNumber_def by (metis surj_pair)
  have "\<exists>err'. res = Inl err'"
  proof (cases res)
    case (Inr n)
    with run [unfolded RealRPC_BlockNumber_def] have "\<exists>e. fst (ec_BlockNumber (client r) e) = Inr n"
      using retry_value by metis
    with assms show ?thesis by simp
  qed simp
  with run show ?thesis by (auto simp: real_querier_def)
qed

section \<open>Properties\<close>





text \<open>
  C16. After a restart without \<open>START_BLOCK\<close> the daemon resumes at the block it saved last; only
  when the checkpoint file cannot be read it starts at the head of the chain instead.
\<close>

theorem daemon_resumes:
  assumes "disk_reads_back (background (main_ctx P)) (disk P)" and "envUint64 (Getenv P) ''START_BLOCK'' 0 = 0"
    and "0 < b" and "fileCheckpoint_Save (disk P) (daemon_store P) b e = (None, renv w)"
  shows "(\<exists>w'. resolve_start P rpc w = (Inr b, w'))
    \<or> (\<exists>err e2. fileCheckpoint_Load (disk P) (daemon_store P) (renv w) = (Inl err, e2)
         \<and> resolve_start P rpc w
             = rpc_BlockNumber (real_querier (background (main_ctx P)) (common P) rpc) (w\<lparr>renv := e2\<rparr>))"
  using fileCheckpoint_load_saved [OF assms(1,4)] assms(2,3)
  by (auto simp: resolve_start_def on_renv_def)

theorem daemon_resumes_witness:
  "\<exists>e w w'. fileCheckpoint_Save plain_disk (daemon_store (plain_platform (Inr 200) [])) 107 Map.empty = (None, e)
     \<and> w = fresh_rworld e \<and> resolve_start (plain_platform (Inr 200) []) (plain_client (Inr 200)) w = (Inr 107, w')"
proof -
  let ?P = "plain_platform (Inr 200) []"
  obtain e where save: "fileCheckpoint_Save plain_disk (daemon_store ?P) 107 Map.empty = (None, e)"
    by (simp add: fileCheckpoint_Save_def plain_disk_def)
  let ?w = "fresh_rworld e"
  have P: "disk ?P = plain_disk" "main_ctx ?P = plain_host" "envUint64 (Getenv ?P) ''START_BLOCK'' 0 = 0"
    by (simp_all add: plain_platform_def envUint64_def)
  have "fileCheckpoint_Load plain_disk (daemon_store ?P) e = (Inr 107, e)"
    using save lastBlock_roundtrip [of 107]
    by (auto simp: fileCheckpoint_Save_def fileCheckpoint_Load_def plain_disk_def map_index_def simp del: print_json.simps)
  with daemon_resumes [of ?P 107 Map.empty ?w "plain_client (Inr 200)"] save plain_background
  have "\<exists>w'. resolve_start ?P (plain_client (Inr 200)) ?w = (Inr 107, w')" by (simp add: P fresh_rworld_def)
  with save show ?thesis by blast
qed

text \<open>
  A checkpoint file that is no JSON is treated like a missing one: the daemon starts at the head
  of the chain without an error, and the blocks since the last checkpoint are never queried.
\<close>

theorem corrupt_checkpoint_starts_at_head:
  assumes "envUint64 (Getenv P) ''START_BLOCK'' 0 = 0"
    and "ReadFile (disk P) (fc_path (daemon_store P)) (renv w) = (Inr txt, e1)" and "json_parse txt = None"
  shows "resolve_start P rpc w
    = rpc_BlockNumber (real_querier (background (main_ctx P)) (common P) rpc) (w\<lparr>renv := e1\<rparr>)"
  using assms by (simp add: resolve_start_def on_renv_def fileCheckpoint_Load_def json_Unmarshal_def)

theorem corrupt_checkpoint_starts_at_head_witness:
  "fst (resolve_start (plain_platform (Inr 200) []) (plain_client (Inr 200)) (fresh_rworld [''./checkpoint.json'' \<mapsto> ''1 2'']))
     = Inr 200"
proof -
  let ?P = "plain_platform (Inr 200) []" and ?w = "fresh_rworld [''./checkpoint.json'' \<mapsto> ''1 2''] :: files rworld"
  have bad: "json_parse ''1 2'' = None" by code_simp
  have "resolve_start ?P (plain_client (Inr 200)) ?w
      = rpc_BlockNumber (real_querier (background (main_ctx ?P)) (common ?P) (plain_client (Inr 200))) (?w\<lparr>renv := renv ?w\<rparr>)"
    by (rule corrupt_checkpoint_starts_at_head [OF _ _ bad])
      (simp_all add: plain_platform_def envUint64_def daemon_store_def env_or_def plain_disk_def fresh_rworld_def)
  moreover have "ec_BlockNumber (client (plain_client (Inr 200))) x = (Inr 200, x)"
      "0 \<le> maxRetries (plain_client (Inr 200))" for x
    by (simp_all add: plain_client_def)
  ultimately show ?thesis
    using BlockNumber_first_try [of "plain_client (Inr 200)" ?w 200 "renv ?w" "background (main_ctx ?P)" "common ?P"] by simp
qed

end
