(* ===== verification/Delivery.thy ===== *)
theory Delivery
  imports Log_Sync Handlers
begin

text \<open>
  What a round delivers, across components. With any pool that keeps the contract, a round that succeeds hands over every
  log of a confirmed batch, whether it was fetched in this round or pending before. The locale \<open>observed_handler\<close>
  is about what a batch handler changes outside (a table, a topic), and carries it over a whole round; the handlers
  for SQL and Kafka are instances of it.
\<close>

section \<open>Every confirmed batch is handed over\<close>

definition calls_since :: "('e, 'p) world \<Rightarrow> ('e, 'p) world \<Rightarrow> call list" where
  "calls_since w0 w = drop (length (trace w0)) (trace w)"

lemma calls_since_extends: "extends w0 calls w \<Longrightarrow> calls_since w0 w = calls"
  by (simp add: extends_def calls_since_def)

context map_iteration
begin

lemma block_drains: "draining_pool (block_pool ord) block_pending block_valid (\<lambda>_. True)"
  by (rule block.draining_pool_axioms)

end

context pending_pool
begin

text \<open>A batch that was fetched, or pending at the start, is still pending or was handed over.\<close>

definition delivered :: "'p \<Rightarrow> call list \<Rightarrow> 'p \<Rightarrow> bool" where
  "delivered p0 calls p \<longleftrightarrow> (\<forall>h logs. from_query calls h logs \<or> pend p0 h = Some logs \<longrightarrow>
     pend p h = Some logs \<or> set logs \<subseteq> set (handed_over calls))"

text \<open>\<open>after_pop A\<close>: a successful pop leaves the pool in a state with \<open>A\<close>; in particular with no confirmed log.\<close>

definition after_pop :: "u64 \<Rightarrow> u64 \<Rightarrow> ((u64 \<rightharpoonup> LogResult list) \<Rightarrow> bool) \<Rightarrow> bool" where
  "after_pop l c A \<longleftrightarrow> (\<forall>p out p'. valid p \<longrightarrow> pp_PopConfirmed pool l c p = (Inr out, p') \<longrightarrow> A (pend p'))"

lemma pop_leaves_none: "after_pop l c (\<lambda>m. \<forall>h logs. m h = Some logs \<and> confirmed l c h \<longrightarrow> logs = [])"
  unfolding after_pop_def
proof (intro allI impI)
  fix p out p' h logs
  assume v: "valid p" and pop: "pp_PopConfirmed pool l c p = (Inr out, p')" and h: "pend p' h = Some logs \<and> confirmed l c h"
  note ok = pop_ok [OF v pop]
  let ?un = "{h. \<not> confirmed l c h}"
  have "pend p' |` ?un = pend p |` ?un" using ok by (auto simp: restrict_map_def)
  then have "confirmed_logs l c (pend p') + pending_logs (pend p |` ?un) = pending_logs (pend p')"
    using pending_logs_split [of "pend p'" l c] by simp
  moreover have "confirmed_logs l c (pend p) + pending_logs (pend p |` ?un) = confirmed_logs l c (pend p) + pending_logs (pend p')"
    using ok pending_logs_split [of "pend p" l c] by argo
  then have "pending_logs (pend p |` ?un) = pending_logs (pend p')" by (simp only: add_left_cancel)
  ultimately have "confirmed_logs l c (pend p') = {#}" by (simp only: add_cancel_left_left)
  then have "x \<notin> set logs" for x using h in_confirmed_logs [of x l c "pend p'"] by auto
  then show "logs = []" by (cases logs) auto
qed

definition deliver_inv ::
  "((u64 \<rightharpoonup> LogResult list) \<Rightarrow> bool) \<Rightarrow> ('e, 'p) LogTask \<Rightarrow> ('e, 'p) world \<Rightarrow> ('e, 'p) round \<Rightarrow> bool" where
  "deliver_inv A t0 w0 = (\<lambda>(t, cs, w). delivered (world.pool w0) (calls_since w0 w) (world.pool w)
     \<and> (cs = Checkpoint t0 \<or> A (pend (world.pool w))))"

lemma delivered_batch:
  assumes "delivered p0 calls p" and "valid p" and "pend p cs = None" and "storable (dedup_batch {} raw)"
    and "pp_Add pool cs (dedup_batch {} raw) p = (None, p1)" and "pp_PopConfirmed pool l c p1 = (Inr ready, p2)"
    and "handed_over rest = ready" and "\<And>h logs. \<not> from_query rest h logs"
  shows "delivered p0 (calls @ Call_EthGetLogs cs b (Inr raw) # rest) p2"
proof -
  have p1: "valid p1" "pend p1 = (pend p)(cs \<mapsto> dedup_batch {} raw)"
    using add_ok [OF assms(2,4,5)] by auto
  note p2 = pop_ok [OF p1(1) assms(6)]
  have out: "set logs \<subseteq> set ready" if "pend p1 h = Some logs" "confirmed l c h" for h logs
    using pop_ok [OF p1(1) assms(6)] in_confirmed_logs [of _ l c "pend p1"] that by (metis set_mset_mset subsetI)
  have keep: "pend p2 h = Some logs \<or> set logs \<subseteq> set ready" if "pend p1 h = Some logs" for h logs
    using that out p2 by (cases "confirmed l c h") auto
  have "pend p2 h = Some logs \<or> set logs \<subseteq> set (handed_over calls @ ready)"
    if "from_query calls h logs \<or> h = cs \<and> logs = dedup_batch {} raw \<or> pend p0 h = Some logs" for h logs
  proof (cases "h = cs \<and> logs = dedup_batch {} raw")
    case True
    with keep [of h logs] p1(2) show ?thesis by auto
  next
    case False
    with that assms(1) have "pend p h = Some logs \<or> set logs \<subseteq> set (handed_over calls)"
      unfolding delivered_def by blast
    with keep [of h logs] p1(2) assms(3) show ?thesis by (cases "h = cs") auto
  qed
  with assms(7,8) show ?thesis unfolding delivered_def by simp
qed

lemma deliver_step:
  assumes "cover_inv t0 l w0 (t, cs, w)" and "ledger_inv l t0 w0 (t, cs, w)" and "deliver_inv A t0 w0 (t, cs, w)"
    and "RunOnce_body host l (t, cs, w) = Some (Inl s')" and "stores_answers (RPC t)" and "after_pop l (ConfirmBlockNum t0) A"
  shows "deliver_inv A t0 w0 s'"
proof -
  from assms(2) obtain prev where prev: "extends w0 prev w" "\<forall>h \<in> dom (pend (world.pool w)). unat h < unat cs"
      "valid (world.pool w)" "PendingPool t = Some pool" "ConfirmBlockNum t = ConfirmBlockNum t0"
    by (auto simp: ledger_inv_def ledger_def)
  from assms(3) have del: "delivered (world.pool w0) prev (world.pool w)"
      "cs = Checkpoint t0 \<or> A (pend (world.pool w))"
    by (simp_all add: deliver_inv_def calls_since_extends [OF prev(1)])
  from assms(4) show ?thesis
  proof (cases rule: RunOnce_body_cases)
    case (shrink e w')
    from extends_trans [OF prev(1) shrink(6)] del shrink(4,5) show ?thesis
      by (simp add: deliver_inv_def calls_since_extends delivered_def from_query_def)
  next
    case (advance raw w1 P t' w2 w')
    have P: "P = pool" using advance(2) prev(4) by simp
    have sto: "storable (dedup_batch {} raw)" using assms(5) advance(9) unfolding stores_answers_def by blast
    have fresh: "pend (world.pool w) cs = None" using prev(2) by (metis domIff less_irrefl)
    from advance(5) show ?thesis
    proof (cases rule: process_batch_cases)
      case (handed p1 p ready w3)
      obtain rest where rest: "extends w3 rest w2" "handed_over rest = ready" "\<And>h logs. \<not> from_query rest h logs"
        using hand_over_calls [OF handed(5)] by blast
      note p = handed(1,2) [unfolded P advance(3) prev(5)]
      note d = delivered_batch [OF del(1) prev(3) fresh sto p rest(2,3), of "batch_end l cs (BatchSize t)"]
      have "valid p1" using add_ok [OF prev(3) sto p(1)] by simp
      with assms(6) p(2) have A: "A (pend p)" unfolding after_pop_def by blast
      have "extends w0 (prev @ Call_EthGetLogs cs (batch_end l cs (BatchSize t)) (Inr raw) # rest) w'"
        using prev(1) advance(4,6) handed(4) rest(1) by (simp add: extends_def)
      moreover have "valid p" using add_pop_valid [OF prev(3) sto p] .
      then have "pend (world.pool w') = pend p"
        using count_valid [of p] advance(7) handed(6) P by (metis prod.collapse)
      ultimately show ?thesis
        using d A advance(8) by (simp add: deliver_inv_def calls_since_extends delivered_def)
    qed auto
  qed simp_all
qed

lemma RunOnce_drains:
  assumes "PendingPool t = Some pool" and "stores_answers (RPC t)" and "valid (world.pool w)"
    and "\<forall>h \<in> dom (pend (world.pool w)). h < Checkpoint t"
    and "rpc_BlockNumber (RPC t) (env w) = (Inr l, e)" and "Checkpoint t \<le> l"
    and "0 < BatchSize t" and "unat l + unat (BatchSize t) < 2 ^ 64"
    and "RunOnce host t w = Some (Inr True, t', w')" and "after_pop l (ConfirmBlockNum t) A"
  shows "\<exists>calls. trace w' = trace w @ Call_BlockNumber (Inr l) # calls
    \<and> delivered (world.pool w) calls (world.pool w') \<and> A (pend (world.pool w'))"
proof -
  let ?w = "w\<lparr>env := e, trace := trace w @ [Call_BlockNumber (Inr l)], rpcOk := Suc (rpcOk w)\<rparr>"
  let ?I = "\<lambda>s. cover_inv t l ?w s \<and> ledger_inv l t ?w s \<and> deliver_inv A t ?w s \<and> RPC (fst s) = RPC t"
  have run: "go_loop (RunOnce_body host l) (t, Checkpoint t, ?w) = Some (Inr True, t', w')"
    using assms(9) RunOnce_head [OF assms(5,6)] by metis
  have "cover_inv t l ?w (t, Checkpoint t, ?w)"
    by (rule cover_start) (use assms(1,6,7) in \<open>auto simp: word_less_nat_alt word_le_nat_alt\<close>)
  moreover have "ledger_inv l t ?w (t, Checkpoint t, ?w)"
    by (rule ledger_start [OF assms(1)]) (use assms(3,4) in simp_all)
  moreover have "deliver_inv A t ?w (t, Checkpoint t, ?w)"
    by (auto simp: deliver_inv_def delivered_def calls_since_def)
  ultimately have start: "?I (t, Checkpoint t, ?w)" by simp
  from go_loop_exit_state [OF run] obtain t1 cs1 w1 where
    1: "loop_reach (RunOnce_body host l) (t, Checkpoint t, ?w) (t1, cs1, w1)"
      "RunOnce_body host l (t1, cs1, w1) = Some (Inr (Inr True, t', w'))"
    by (metis prod_cases3)
  have inv: "?I (t1, cs1, w1)"
  proof (rule loop_reach_invariant [where I = ?I, OF 1(1) start])
    fix s s' assume I: "?I s" and body: "RunOnce_body host l s = Some (Inl s')"
    obtain t1 cs1 w1 t2 cs2 w2 where s: "s = (t1, cs1, w1)" "s' = (t2, cs2, w2)" by (cases s; cases s')
    have "RPC t2 = RPC t1"
      using RunOnce_body_inv [OF body [unfolded s]] same_taskD [of t1 t2] by (simp add: round_inv_def)
    with I body s cover_step [OF assms(8), of ?w t1 cs1 w1] ledger_step [OF assms(8), of ?w t1 cs1 w1]
      deliver_step [of t l ?w t1 cs1 w1 A host s'] assms(2,10)
    show "?I s'" by fastforce
  qed
  from 1(2) have out: "l < cs1" "t' = t1" "w' = w1" by (auto elim: RunOnce_body_cases)
  have "cs1 \<noteq> Checkpoint t" using out(1) assms(6) by auto
  moreover obtain calls where "extends ?w calls w1" using inv by (auto simp: ledger_inv_def)
  ultimately show ?thesis
    using inv out by (auto simp: deliver_inv_def calls_since_extends extends_def)
qed

text \<open>So every confirmed log was handed over.\<close>

lemma RunOnce_delivers_confirmed:
  assumes "PendingPool t = Some pool" and "stores_answers (RPC t)" and "valid (world.pool w)"
    and "\<forall>h \<in> dom (pend (world.pool w)). h < Checkpoint t"
    and "rpc_BlockNumber (RPC t) (env w) = (Inr l, e)" and "Checkpoint t \<le> l"
    and "0 < BatchSize t" and "unat l + unat (BatchSize t) < 2 ^ 64"
    and "RunOnce host t w = Some (Inr True, t', w')"
  shows "\<exists>calls. trace w' = trace w @ Call_BlockNumber (Inr l) # calls
    \<and> (\<forall>h logs. confirmed l (ConfirmBlockNum t) h \<and> (from_query calls h logs \<or> pend (world.pool w) h = Some logs)
         \<longrightarrow> set logs \<subseteq> set (handed_over calls))
    \<and> (\<forall>h logs. pend (world.pool w') h = Some logs \<and> confirmed l (ConfirmBlockNum t) h \<longrightarrow> logs = [])"
proof -
  from RunOnce_drains [OF assms pop_leaves_none] obtain calls where calls: "trace w' = trace w @ Call_BlockNumber (Inr l) # calls"
      "delivered (world.pool w) calls (world.pool w')"
      "\<forall>h logs. pend (world.pool w') h = Some logs \<and> confirmed l (ConfirmBlockNum t) h \<longrightarrow> logs = []"
    by blast
  from calls(2,3) have "set logs \<subseteq> set (handed_over calls)"
    if "confirmed l (ConfirmBlockNum t) h" "from_query calls h logs \<or> pend (world.pool w) h = Some logs" for h logs
    using that unfolding delivered_def by (metis empty_iff empty_set subsetI)
  with calls show ?thesis by blast
qed

end

text \<open>The in-memory pool drains.\<close>

lemma block_round_drains:
  assumes "map_iteration ord" and "PendingPool t = Some (block_pool ord)"
    and "pool_reachable ord (pool w)" and "\<forall>h \<in> dom (block_pending (pool w)). h < Checkpoint t"
    and "rpc_BlockNumber (RPC t) (env w) = (Inr l, e)" and "Checkpoint t \<le> l"
    and "0 < BatchSize t" and "unat l + unat (BatchSize t) < 2 ^ 64"
    and "RunOnce host t w = Some (Inr True, t', w')"
  shows "\<exists>calls. trace w' = trace w @ Call_BlockNumber (Inr l) # calls
    \<and> (\<forall>h logs. confirmed l (ConfirmBlockNum t) h \<and> (from_query calls h logs \<or> block_pending (pool w) h = Some logs)
         \<longrightarrow> set logs \<subseteq> set (handed_over calls))
    \<and> (\<forall>h \<in> dom (block_pending (pool w')). \<not> confirmed l (ConfirmBlockNum t) h)"
proof -
  note block = map_iteration.block_drains [OF assms(1)] and contract = map_iteration.block_pool_contract [OF assms(1)]
  note stored = pending_pool.stores_answers_def [OF contract, of "RPC t"]
  let ?A = "\<lambda>m :: u64 \<rightharpoonup> LogResult list. \<forall>h \<in> dom m. \<not> confirmed l (ConfirmBlockNum t) h"
  have "pending_pool.after_pop (block_pool ord) block_pending block_valid l (ConfirmBlockNum t) ?A"
    unfolding pending_pool.after_pop_def [OF contract]
    using draining_pool.pop_removes [OF block, of _ l "ConfirmBlockNum t"] by (auto simp: restrict_map_def dom_def)
  from pending_pool.RunOnce_drains [OF contract assms(2) _ pool_reachable_valid [OF assms(1,3)] assms(4-9) this] stored
  obtain calls where calls: "trace w' = trace w @ Call_BlockNumber (Inr l) # calls"
      "pending_pool.delivered block_pending (pool w) calls (pool w')" "?A (block_pending (pool w'))"
    by auto
  from calls(2,3) show ?thesis
    unfolding pending_pool.delivered_def [OF contract]
    by (intro exI [of _ calls]) (use calls(1) in \<open>blast intro: domI\<close>)
qed

section \<open>What a handler changes\<close>

text \<open>Nothing but the handler changes what is observed.\<close>

definition leaves_alone :: "('e \<Rightarrow> 'o) \<Rightarrow> 'e Host \<Rightarrow> ('e, 'p) LogTask \<Rightarrow> bool" where
  "leaves_alone table host t \<longleftrightarrow>
     (\<forall>e. table (snd (ctx_Err host e)) = table e) \<and> (\<forall>e. table (snd (pick host e)) = table e)
     \<and> (\<forall>e. table (snd (time_Now host e)) = table e)
     \<and> (\<forall>e. table (snd (rpc_BlockNumber (RPC t) e)) = table e)
     \<and> (\<forall>a b addrs tops e. table (snd (rpc_EthGetLogs (RPC t) a b addrs tops e)) = table e)
     \<and> (\<forall>b e. table (snd (cs_Save (Store t) b e)) = table e)"

lemma leaves_aloneD:
  assumes "leaves_alone table host t"
  shows "ctx_Err host e = (x, e') \<Longrightarrow> table e' = table e" and "pick host e = (y, e') \<Longrightarrow> table e' = table e"
    and "time_Now host e = (z, e') \<Longrightarrow> table e' = table e" and "rpc_BlockNumber (RPC t) e = (r, e') \<Longrightarrow> table e' = table e"
    and "rpc_EthGetLogs (RPC t) a b addrs tops e = (q, e') \<Longrightarrow> table e' = table e"
    and "cs_Save (Store t) c e = (v, e') \<Longrightarrow> table e' = table e"
  using assms unfolding leaves_alone_def by (metis snd_conv)+

lemma leaves_alone_same: "same_task t t' \<Longrightarrow> leaves_alone table host t' = leaves_alone table host t"
  by (drule same_taskD) (simp add: leaves_alone_def)

lemma Acquire_table:
  assumes "leaves_alone table host t" and "Acquire host sg e = Some (err, sg', e')"
  shows "table e' = table e"
proof -
  have "(\<lambda>(err, sg', e'). table e' = table e) (err, sg', e')"
    by (rule go_loop_rule [OF assms(2) [unfolded Acquire_def], where I = "\<lambda>(s, e1). table e1 = table e"])
      (auto simp: Acquire_body_def Let_def split: prod.splits if_splits dest!: leaves_aloneD(1,2) [OF assms(1)])
  then show ?thesis by simp
qed

lemma acquire_table:
  assumes "leaves_alone table host t"
  shows "acquire_local host w = Some (err, w') \<Longrightarrow> table (env w') = table (env w)"
    and "acquire_rpc host w = Some (err, w') \<Longrightarrow> table (env w') = table (env w)"
  by (auto simp: acquire_local_def acquire_rpc_def dest: Acquire_table [OF assms])

lemma release_env:
  "release_local w = Some w' \<Longrightarrow> env w' = env w" "release_rpc w = Some w' \<Longrightarrow> env w' = env w"
  by (auto simp: release_local_def release_rpc_def)

lemma locked_fetch_table:
  assumes "leaves_alone table host t" and "locked_fetch host l t cs w = Some (r, w')"
  shows "table (env w') = table (env w)"
proof -
  have tab: "table (snd (time_Now host e)) = table e" "table (snd (rpc_EthGetLogs (RPC t) a b addrs tops e)) = table e"
    for e a b addrs tops
    using assms(1) unfolding leaves_alone_def by blast+
  show ?thesis
    using assms(2)
    by (auto simp: locked_fetch_def bind_eq_Some_conv Let_def case_prod_beta tab split: option.splits
        dest!: acquire_table [OF assms(1)] release_env)
qed


text \<open>
  \<open>eff logs x y\<close>: the logs take what is observed from \<open>x\<close> to \<open>y\<close>. A handler that has this effect on each batch
  it accepts has it, over a round, for all logs handed over together.
\<close>

locale observed_handler =
  fixes obs :: "'e \<Rightarrow> 'o" and eff :: "LogResult list \<Rightarrow> 'o \<Rightarrow> 'o \<Rightarrow> bool" and handler :: "'e LogBatchHandler"
  assumes eff_Nil: "eff [] x x"
    and eff_append: "eff xs x y \<Longrightarrow> eff ys y z \<Longrightarrow> eff (xs @ ys) x z"
    and handles: "handler logs e = (None, e') \<Longrightarrow> eff logs (obs e) (obs e')"
begin

lemma hand_over_obs:
  assumes "leaves_alone obs host t" and "BatchHandler t = handler"
    and "hand_over t end ready w = (None, t', w')"
  shows "\<exists>calls. extends w calls w' \<and> eff (handed_over calls) (obs (env w)) (obs (env w'))"
proof (cases "ready = []")
  case True
  with assms(3) show ?thesis by (intro exI [of _ "[]"]) (simp add: hand_over_def eff_Nil)
next
  case False
  obtain herr e1 where h: "handler ready (env w) = (herr, e1)" by fastforce
  obtain serr e2 where s: "cs_Save (Store t) end e1 = (serr, e2)" by fastforce
  from assms(2,3) False h s have ok: "herr = None" "serr = None"
      "w' = w\<lparr>env := e2, trace := trace w @ [Call_HandleBatch ready None, Call_Save end None]\<rparr>"
    by (auto simp: hand_over_def Let_def split: option.splits)
  have "eff ready (obs (env w)) (obs e2)"
    using handles [of ready "env w" e1] h ok(1) leaves_aloneD(6) [OF assms(1) s] by simp
  with ok(3) show ?thesis
    by (intro exI [of _ "[Call_HandleBatch ready None, Call_Save end None]"]) (simp add: extends_def)
qed

lemma process_batch_obs:
  assumes "leaves_alone obs host t" and "BatchHandler t = handler"
    and "process_batch l P t cs end logs w = (None, t', w')"
  shows "\<exists>calls. extends w calls w' \<and> eff (handed_over calls) (obs (env w)) (obs (env w'))"
proof -
  obtain p1 ready p where
    "hand_over t end ready (w\<lparr>logsTotal := logsTotal w + length (dedup_batch {} logs), pool := p\<rparr>) = (None, t', w')"
    using assms(3) by (auto simp: process_batch_def Let_def split: prod.splits option.splits sum.splits)
  from hand_over_obs [OF assms(1,2) this] show ?thesis by (simp add: extends_def)
qed

lemma record_batch_obs:
  assumes "leaves_alone obs host t"
  shows "obs (env (record_batch host P bs w)) = obs (env w)"
  using assms by (auto simp: record_batch_def Let_def split: prod.splits sum.splits dest: leaves_aloneD(3))

lemma RunOnce_body_obs:
  assumes "leaves_alone obs host t" and "BatchHandler t = handler"
    and "RunOnce_body host l (t, cs, w) = Some (Inl (t', cs', w'))"
  shows "\<exists>calls. extends w calls w' \<and> eff (handed_over calls) (obs (env w)) (obs (env w'))"
proof -
  obtain dn e where c: "ctx_Err host (env w) = (dn, e)" by fastforce
  with assms(3) have run: "\<not> l < cs" "dn = None" by (auto simp: RunOnce_body_def Let_def split: if_splits option.splits)
  let ?w = "w\<lparr>env := e\<rparr>"
  obtain r w1 where f: "locked_fetch host l t cs ?w = Some (r, w1)"
    using assms(3) run c by (auto simp: RunOnce_body_def Let_def bind_eq_Some_conv)
  have tab: "obs (env w1) = obs (env w)"
    using locked_fetch_table [OF assms(1) f] leaves_aloneD(1) [OF assms(1) c] by simp
  obtain bs upto res where r: "r = Inr (bs, upto, res)"
    using assms(3) run c f by (cases r) (auto simp: RunOnce_body_def)
  have ext: "extends w [Call_EthGetLogs cs upto res] w1"
    using locked_fetchD [OF f] r by (auto simp: extends_def)
  show ?thesis
  proof (cases res)
    case (Inl err)
    with assms(3) run c f r have "w' = w1\<lparr>rpcFail := Suc (rpcFail w1)\<rparr>"
      by (auto simp: RunOnce_body_def Let_def split: if_splits)
    with ext tab Inl show ?thesis by (auto simp: extends_def eff_Nil)
  next
    case (Inr logs)
    let ?w2 = "w1\<lparr>rpcOk := Suc (rpcOk w1)\<rparr>"
    from Inr assms(3) run c f r obtain P w3 where
      pb: "process_batch l P t cs upto logs ?w2 = (None, t', w3)" and w': "w' = record_batch host P bs w3"
      by (auto simp: RunOnce_body_def Let_def split: option.splits prod.splits)
    from process_batch_obs [OF assms(1,2) pb] obtain calls where
      calls: "extends ?w2 calls w3" "eff (handed_over calls) (obs (env w1)) (obs (env w3))" by auto
    have "extends w (Call_EthGetLogs cs upto res # calls) w'"
      using ext calls(1) record_batchD [of host P bs w3 w'] w' by (simp add: extends_def)
    moreover have "eff (handed_over (Call_EthGetLogs cs upto res # calls)) (obs (env w)) (obs (env w'))"
      using calls(2) tab record_batch_obs [OF assms(1), of P bs w3] w' by simp
    ultimately show ?thesis by blast
  qed
qed

definition obs_inv :: "('e, 'p) LogTask \<Rightarrow> ('e, 'p) world \<Rightarrow> ('e, 'p) round \<Rightarrow> bool" where
  "obs_inv t0 w0 = (\<lambda>(t, cs, w). same_task t0 t
     \<and> (\<exists>calls. extends w0 calls w \<and> eff (handed_over calls) (obs (env w0)) (obs (env w))))"

lemma RunOnce_obs:
  assumes "leaves_alone obs host t" and "BatchHandler t = handler"
    and "RunOnce host t w = Some (Inr True, t', w')"
  shows "\<exists>calls. extends w calls w' \<and> eff (handed_over calls) (obs (env w)) (obs (env w'))"
proof -
  obtain bres e where b: "rpc_BlockNumber (RPC t) (env w) = (bres, e)" by fastforce
  with assms(3) obtain l where l: "bres = Inr l" by (cases bres) (auto simp: RunOnce_def Let_def)
  let ?w = "w\<lparr>env := e, trace := trace w @ [Call_BlockNumber (Inr l)], rpcOk := Suc (rpcOk w)\<rparr>"
  have start: "extends w [Call_BlockNumber (Inr l)] ?w" "eff [] (obs (env w)) (obs (env ?w))"
    using leaves_aloneD(4) [OF assms(1) b] by (simp_all add: extends_def eff_Nil)
  show ?thesis
  proof (cases "l < Checkpoint t")
    case True
    with assms(3) b l have "w' = ?w" by (simp add: RunOnce_def Let_def)
    with start show ?thesis by (intro exI [of _ "[Call_BlockNumber (Inr l)]"]) simp
  next
    case False
    with assms(3) b l have "go_loop (RunOnce_body host l) (t, Checkpoint t, ?w) = Some (Inr True, t', w')"
      by (simp add: RunOnce_def Let_def)
    from go_loop_exit_state [OF this] obtain t1 cs1 w1 where
      1: "loop_reach (RunOnce_body host l) (t, Checkpoint t, ?w) (t1, cs1, w1)"
        "RunOnce_body host l (t1, cs1, w1) = Some (Inr (Inr True, t', w'))"
      by (metis prod_cases3)
    have "obs_inv t w (t1, cs1, w1)"
    proof (rule loop_reach_invariant [OF 1(1)])
      show "obs_inv t w (t, Checkpoint t, ?w)" using start by (auto simp: obs_inv_def intro!: exI [of _ "[Call_BlockNumber (Inr l)]"])
    next
      fix s s' assume inv: "obs_inv t w s" and body: "RunOnce_body host l s = Some (Inl s')"
      obtain t1 cs1 w1 t2 cs2 w2 where s: "s = (t1, cs1, w1)" "s' = (t2, cs2, w2)" by (cases s; cases s')
      from inv s obtain xs where xs: "same_task t t1" "extends w xs w1"
          "eff (handed_over xs) (obs (env w)) (obs (env w1))"
        by (auto simp: obs_inv_def)
      have "leaves_alone obs host t1" "BatchHandler t1 = handler"
        using leaves_alone_same [OF xs(1), of obs host] same_taskD [OF xs(1)] assms(1,2) by simp_all
      from RunOnce_body_obs [OF this body [unfolded s]] obtain ys where "extends w1 ys w2"
          "eff (handed_over ys) (obs (env w1)) (obs (env w2))"
        by blast
      moreover have "same_task t t2"
        using RunOnce_body_inv [OF body [unfolded s]] xs(1) by (auto simp: round_inv_def intro: same_task_trans)
      ultimately show "obs_inv t w s'"
        using xs s extends_trans [OF xs(2)] by (auto simp: obs_inv_def intro!: exI [of _ "xs @ ys"] eff_append)
    qed
    moreover from 1(2) have "w' = w1" by (auto elim: RunOnce_body_cases)
    ultimately show ?thesis by (auto simp: obs_inv_def)
  qed
qed

end

section \<open>The table and the topic\<close>

lemma insert_rows_append: "insert_rows (xs @ ys) tab = insert_rows ys (insert_rows xs tab)"
  by (simp add: insert_rows_def)

lemma insert_rows_dom:
  assumes "x \<in> set logs"
  shows "log_key x \<in> dom (insert_rows logs tab)"
proof -
  have "find (\<lambda>l. log_key l = log_key x) logs \<noteq> None" using assms by (auto simp: find_None_iff)
  then show ?thesis by (auto simp: domIff insert_rows_lookup log_row_def split: option.split)
qed

lemma insert_rows_Nil [simp]: "insert_rows [] tab = tab"
  by (simp add: insert_rows_def)

context sql_database
begin

sublocale sql: observed_handler table "\<lambda>logs x y. y = insert_rows logs x" "SQLBatchHandler_HandleBatch (NewSQLBatchHandler db)"
  by unfold_locales (use HandleBatch_atomic in \<open>auto simp: insert_rows_append\<close>)

lemma sql_observed:
  "observed_handler table (\<lambda>logs x y. y = insert_rows logs x) (SQLBatchHandler_HandleBatch (NewSQLBatchHandler db))"
  by (rule sql.observed_handler_axioms)

end

context kafka_topic
begin

sublocale kafka: observed_handler topic "published IsPrint" "KafkaBatchHandler_HandleBatch IsPrint \<lparr>kb_w = wr\<rparr>"
proof
  show "published IsPrint (xs @ ys) x z" if "published IsPrint xs x y" "published IsPrint ys y z" for xs ys x y z
    using that published_append by blast
qed (use HandleBatch_publishes in \<open>auto simp: published_def\<close>)

lemma kafka_observed:
  "observed_handler topic (published IsPrint) (KafkaBatchHandler_HandleBatch IsPrint \<lparr>kb_w = wr\<rparr>)"
  by (rule kafka.observed_handler_axioms)

end

section \<open>Properties\<close>




text \<open>A chain, a clock that stands still and a database in one environment.\<close>

type_synonym chain_and_table = "u64 list \<times> event_table \<times> event_table"

definition chain_sql :: "chain_and_table SqlDB" where
  "chain_sql = \<lparr>db_BeginTx = (\<lambda>(hs, t, w). (None, hs, t, t)), tx_PrepareContext = (\<lambda>q e. (None, e)),
     stmt_ExecContext = (\<lambda>args (hs, t, w). (None, hs, t, insert_row args w)), stmt_Close = (\<lambda>e. e),
     tx_Commit = (\<lambda>(hs, t, w). (None, hs, w, w)), tx_Rollback = (\<lambda>(hs, t, w). (hs, t, t))\<rparr>"

interpretation chain_sql: sql_database chain_sql "\<lambda>(hs, t, w). t" "\<lambda>(hs, t, w). w"
  by unfold_locales (auto simp: chain_sql_def)

definition sql_task :: "(chain_and_table, BlockPendingPool) LogTask" where
  "sql_task = \<lparr>TaskName = ''sql'', Address = [], Topics = [], Checkpoint = 100, BatchSize = 10,
     RPC = \<lparr>rpc_BlockNumber = (\<lambda>(hs, d). (Inr (hd hs), tl hs, d)),
            rpc_EthGetLogs = (\<lambda>a b addrs tops e. (Inr (filter (\<lambda>l. a \<le> lr_BlockNumUint l \<and> lr_BlockNumUint l \<le> b) [log_at 105]), e))\<rparr>,
     Store = accepting_store, BatchHandler = SQLBatchHandler_HandleBatch (NewSQLBatchHandler chain_sql),
     LiveMode = False, LivePollInterval = 0, RestartBackoff = 0, MaxBackoff = 0,
     ConfirmBlockNum = 6, PendingPool = Some memory_pool, unhealthyStart = None\<rparr>"

lemma sql_task_succeeds:
  "\<exists>t' w'. RunOnce plain_host sql_task (fresh_world ([115], Map.empty, Map.empty)) = Some (Inr True, t', w')
     \<and> (\<exists>raw. Call_EthGetLogs 100 109 (Inr raw) \<in> set (trace w') \<and> dedup_batch {} raw = [log_at 105])"
  by (simp add: sql_task_def round_simps SQLBatchHandler_HandleBatch_def NewSQLBatchHandler_def chain_sql_def case_prod_beta del: dedup_batch.simps)


end
