(* ===== verification/Daemon_Delivery.thy ===== *)
theory Daemon_Delivery
  imports Daemon Delivery
begin

text \<open>
  What the daemon delivers: the production RPC client, either pool and the Kafka handler together. A round that
  succeeds has sent a message for every log of a confirmed batch, whether it fetched the batch or found it in the pool
  (in Redis, a batch of an earlier run of the process), and no other messages.
\<close>

section \<open>Only the handler writes to Kafka\<close>

text \<open>The context, the clock, the node and the disk do not change what is observed.\<close>

definition only_kafka :: "('e \<Rightarrow> 'o) \<Rightarrow> ('e, 'r) Platform \<Rightarrow> 'e RealRPC \<Rightarrow> bool" where
  "only_kafka obs P rpc \<longleftrightarrow>
     (\<forall>e. obs (snd (ctx_Err (main_ctx P) e)) = obs e) \<and> (\<forall>e. obs (snd (pick (main_ctx P) e)) = obs e)
     \<and> (\<forall>d e. obs (snd (wait_for (main_ctx P) d e)) = obs e) \<and> (\<forall>e. obs (snd (time_Now (main_ctx P) e)) = obs e)
     \<and> (\<forall>e. obs (snd (ec_BlockNumber (client rpc) e)) = obs e) \<and> (\<forall>q e. obs (snd (ec_FilterLogs (client rpc) q e)) = obs e)
     \<and> (\<forall>f b e. obs (snd (WriteFile (disk P) f b e)) = obs e)"

lemma retry_leaves:
  assumes "go_loop (retry_body host call label r) (a, le, w) = Some (res, w')"
    and "\<And>e. obs (snd (call e)) = obs e" and "\<And>d e. obs (snd (wait_for host d e)) = obs e"
  shows "obs (renv w') = obs (renv w)"
proof -
  have keep: "call e = (x, e') \<Longrightarrow> obs e' = obs e" "wait_for host d e = (y, e') \<Longrightarrow> obs e' = obs e" for e x e' d y
    using assms(2) [of e] assms(3) [of d e] by simp_all
  have "(\<lambda>(res, w'). obs (renv w') = obs (renv w)) (res, w')"
    by (rule go_loop_rule [OF assms(1), where I = "\<lambda>(a, le, w'). obs (renv w') = obs (renv w)"])
      (auto simp: retry_body_def Let_def split: prod.splits if_splits sum.splits option.splits dest!: keep)
  then show ?thesis by simp
qed

lemma fetchRawLogs_leaves:
  assumes "\<And>q e. obs (snd (ec_FilterLogs (client r) q e)) = obs e"
  shows "obs (snd (fetchRawLogs C r a b addrs tops e)) = obs e"
proof -
  obtain x e' where "ec_FilterLogs (client r) (build_query C a b addrs tops) e = (x, e')" by fastforce
  with assms [of "build_query C a b addrs tops" e] show ?thesis by (simp add: fetchRawLogs_def split: sum.split)
qed

lemma real_querier_leaves:
  assumes "only_kafka obs P rpc"
  shows "obs (renv (snd (rpc_BlockNumber (real_querier (main_ctx P) C rpc) w))) = obs (renv w)"
    and "obs (renv (snd (rpc_EthGetLogs (real_querier (main_ctx P) C rpc) a b addrs tops w))) = obs (renv w)"
proof -
  have k: "obs (snd (wait_for (main_ctx P) d e)) = obs e" "obs (snd (ec_BlockNumber (client rpc) e)) = obs e"
      "obs (snd (ec_FilterLogs (client rpc) q e)) = obs e" for d e q
    using assms unfolding only_kafka_def by blast+
  obtain x w1 where 1: "RealRPC_BlockNumber (main_ctx P) rpc w = Some (x, w1)"
    using retry_terminates unfolding RealRPC_BlockNumber_def by (metis surj_pair)
  obtain y w2 where 2: "RealRPC_EthGetLogs (main_ctx P) C rpc a b addrs tops w = Some (y, w2)"
    using retry_terminates unfolding RealRPC_EthGetLogs_def by (metis surj_pair)
  show "obs (renv (snd (rpc_BlockNumber (real_querier (main_ctx P) C rpc) w))) = obs (renv w)"
    using retry_leaves [OF 1 [unfolded RealRPC_BlockNumber_def] k(2,1)] 1 by (simp add: real_querier_def)
  show "obs (renv (snd (rpc_EthGetLogs (real_querier (main_ctx P) C rpc) a b addrs tops w))) = obs (renv w)"
    using retry_leaves [OF 2 [unfolded RealRPC_EthGetLogs_def] fetchRawLogs_leaves [OF k(3)] k(1)] 2 by (simp add: real_querier_def)
qed

lemma on_renv_obs: "obs (renv (snd (on_renv f w))) = obs (snd (f (renv w)))"
  by (simp add: on_renv_def split: prod.split)

lemma daemon_leaves_alone:
  assumes "only_kafka obs P rpc"
  shows "leaves_alone (\<lambda>w. obs (renv w)) (task_host (main_ctx P)) (daemon_task P ord rpc cp)"
proof -
  have k: "obs (snd (ctx_Err (main_ctx P) e)) = obs e" "obs (snd (pick (main_ctx P) e)) = obs e"
      "obs (snd (time_Now (main_ctx P) e)) = obs e" "obs (snd (WriteFile (disk P) f b e)) = obs e" for e f b
    using assms unfolding only_kafka_def by blast+
  show ?thesis
    unfolding leaves_alone_def
    by (simp add: task_host_def daemon_task_def on_renv_obs k real_querier_leaves [OF assms] fileCheckpoint_Save_def)
qed

section \<open>The daemon's Kafka handler\<close>

definition daemon_kafka :: "('e, 'r) Platform \<Rightarrow> KafkaWriterSettings" where
  "daemon_kafka P = \<lparr>kw_Addr = split_comma (env_or (Getenv P) ''KAFKA_BROKERS'' []),
     kw_Topic = env_or (Getenv P) ''KAFKA_TOPIC'' ''evm_logs'', kw_Balancer = LeastBytes, kw_AllowAutoTopicCreation = True\<rparr>"

lemma daemon_handler_kafka:
  assumes "env_or (Getenv P) ''KAFKA_BROKERS'' [] \<noteq> []"
  shows "daemon_handler P = (\<lambda>logs. on_renv (KafkaBatchHandler_HandleBatch (unicode_IsPrint P) \<lparr>kb_w = kafka_Writer P (daemon_kafka P)\<rparr> logs))"
  using assms by (simp add: daemon_handler_def Let_def NewKafkaBatchHandler_def daemon_kafka_def)

context observed_handler
begin

lemma inside_rworld: "observed_handler (\<lambda>w. obs (renv w)) eff (\<lambda>logs. on_renv (handler logs))"
  by unfold_locales (auto simp: eff_Nil on_renv_def split: prod.splits intro: eff_append handles)

end

lemma published_subset: "published IsPrint logs x y \<Longrightarrow> l \<in> set logs \<Longrightarrow> kafka_message IsPrint l \<in># y"
  by (auto simp: published_def dest!: mset_subset_eqD)

section \<open>A platform with Kafka\<close>

text \<open>A platform whose environment is what was sent to Kafka; its node has one log, in block 105.\<close>

definition node_log :: EthLog where
  "node_log = \<lparr>el_BlockNumber = 105, el_TxHash = [], el_Address = [], el_Topics = [], el_Data = []\<rparr>"

definition kafka_node :: "KafkaMessage multiset EthClient" where
  "kafka_node = \<lparr>ec_BlockNumber = (\<lambda>e. (Inr 115, e)), ec_FilterLogs = (\<lambda>q e. (Inr [node_log], e)), ec_Close = (\<lambda>e. e)\<rparr>"

definition kafka_platform :: "(KafkaMessage multiset, mem_db) Platform" where
  "kafka_platform =
     \<lparr>Getenv = (\<lambda>k. if k = ''KAFKA_BROKERS'' then ''kafka:9092'' else []), ParseDuration = (\<lambda>_. Inr 12000000000),
      ethclient_Dial = (\<lambda>_. Inr kafka_node), common = plain_common, main_ctx = plain_host,
      disk = \<lparr>WriteFile = (\<lambda>f b e. (None, e)), ReadFile = (\<lambda>f e. (Inl Os_ErrNotExist, e))\<rparr>,
      redis_NewClient = (\<lambda>_. mem_redis), kafka_Writer = (\<lambda>_. mem_writer), unicode_IsPrint = (\<lambda>_. False)\<rparr>"

definition kafka_client :: "KafkaMessage multiset RealRPC" where
  "kafka_client = \<lparr>client = kafka_node, maxRetries = 3, retryBaseWait = 500 * 1000000\<rparr>"

lemma kafka_client_logs:
  "rpc_EthGetLogs (real_querier h C kafka_client) a b addrs tops w = (Inr [convert_log C node_log], w\<lparr>calls_made := Suc (calls_made w)\<rparr>)"
proof -
  have "RealRPC_EthGetLogs h C kafka_client a b addrs tops w = Some (Inr [convert_log C node_log], w\<lparr>calls_made := Suc (calls_made w)\<rparr>)"
    unfolding RealRPC_EthGetLogs_def
    by (rule go_loop_Inr) (simp add: retry_body_def kafka_client_def kafka_node_def fetchRawLogs_def)
  then show ?thesis by (simp add: real_querier_def)
qed

lemma kafka_client_head:
  "rpc_BlockNumber (real_querier h C kafka_client) w = (Inr 115, w\<lparr>calls_made := Suc (calls_made w)\<rparr>)"
  using BlockNumber_first_try [of kafka_client w 115 "renv w" h C] by (simp add: kafka_client_def kafka_node_def)

lemma kafka_daemon_round:
  "\<exists>t' w' calls. RunOnce (task_host (main_ctx kafka_platform)) (daemon_task kafka_platform (\<lambda>n xs. xs) kafka_client 100)
       (daemon_world (fresh_rworld {#}) empty_db) = Some (Inr True, t', w')
     \<and> trace w' = Call_BlockNumber (Inr 115) # calls \<and> from_query calls 100 [convert_log plain_common node_log]"
  by (simp add: daemon_task_def daemon_world_def kafka_platform_def env_or_def envUint64_def daemon_pool_def daemon_handler_def
      live_interval_def kafka_client_head kafka_client_logs task_host_def on_renv_def NewRPCSemaphore_def left_pool_def round_simps
      NewKafkaBatchHandler_def KafkaBatchHandler_HandleBatch_def mem_writer_def fileCheckpoint_Save_def fresh_rworld_def
      del: dedup_batch.simps)

section \<open>Properties\<close>



end
