(* ===== verification/Goroutines.thy ===== *)
theory Goroutines
  imports Go_Prelude
begin

text \<open>
  Systems of goroutines: a relation for the steps of the program's own goroutines (\<open>work\<close>) and one for those of
  its surroundings (\<open>outside\<close>), in any order. The locale \<open>concurrent\<close> is for what holds in every schedule, the locale
  \<open>goroutines\<close> for systems whose work is bounded; the lemmas on lists count the goroutines in some state.
\<close>

section \<open>Schedules\<close>

inductive run_of :: "('s \<Rightarrow> 's \<Rightarrow> bool) \<Rightarrow> ('s \<Rightarrow> 's \<Rightarrow> bool) \<Rightarrow> 's \<Rightarrow> nat \<Rightarrow> 's \<Rightarrow> bool" for work outside s where
  start: "run_of work outside s 0 s"
| work: "run_of work outside s n t \<Longrightarrow> work t u \<Longrightarrow> run_of work outside s (Suc n) u"
| outside: "run_of work outside s n t \<Longrightarrow> outside t u \<Longrightarrow> run_of work outside s n u"

lemma run_of_trans: "run_of work outside t m u \<Longrightarrow> run_of work outside s n t \<Longrightarrow> run_of work outside s (n + m) u"
  by (induction rule: run_of.induct) (auto intro: run_of.intros)

definition at_rest :: "('s \<Rightarrow> 's \<Rightarrow> bool) \<Rightarrow> 's \<Rightarrow> bool" where
  "at_rest work s \<longleftrightarrow> (\<forall>t. \<not> work s t)"

locale concurrent =
  fixes work outside :: "'s \<Rightarrow> 's \<Rightarrow> bool" and init :: 's and inv :: "'s \<Rightarrow> bool"
  assumes inv_init: "inv init"
    and inv_work: "inv s \<Longrightarrow> work s t \<Longrightarrow> inv t"
    and inv_outside: "inv s \<Longrightarrow> outside s t \<Longrightarrow> inv t"
begin

abbreviation run :: "'s \<Rightarrow> nat \<Rightarrow> 's \<Rightarrow> bool" where
  "run \<equiv> run_of work outside"

lemma run_inv: "run s n t \<Longrightarrow> inv s \<Longrightarrow> inv t"
  by (induction rule: run_of.induct) (auto intro: inv_work inv_outside)

lemma reach_inv: "run init n s \<Longrightarrow> inv s"
  by (rule run_inv [OF _ inv_init])

end

text \<open>
  If the work left is bounded and nothing adds to it, every run has a bounded number of steps of the
  goroutines, however they are interleaved.
\<close>

locale goroutines = concurrent +
  fixes left :: "'a \<Rightarrow> nat"
  assumes left_work: "inv s \<Longrightarrow> work s t \<Longrightarrow> left t < left s"
    and left_outside: "inv s \<Longrightarrow> outside s t \<Longrightarrow> left t \<le> left s"
begin

lemma run_bound: "run s n t \<Longrightarrow> inv s \<Longrightarrow> n + left t \<le> left s"
proof (induction rule: run_of.induct)
  case (work n t u)
  then show ?case using left_work [OF run_inv, of s n t u] by simp
next
  case (outside n t u)
  then show ?case using left_outside [OF run_inv, of s n t u] by simp
qed simp

text \<open>The goroutines come to rest.\<close>

lemma rests:
  assumes "inv s"
  shows "\<exists>n t. run s n t \<and> at_rest work t \<and> n \<le> left s"
  using assms
proof (induction "left s" arbitrary: s rule: less_induct)
  case less
  show ?case
  proof (cases "at_rest work s")
    case True
    then show ?thesis by (intro exI [of _ 0] exI [of _ s]) (simp add: run_of.start)
  next
    case False
    then obtain u where u: "work s u" by (auto simp: at_rest_def)
    from less.hyps [OF left_work [OF less.prems u] inv_work [OF less.prems u]]
    obtain n t where t: "run u n t" "at_rest work t" by blast
    have "run s (Suc n) t" using run_of_trans [OF t(1) run_of.work [where work = work, OF run_of.start u]] by simp
    with t(2) run_bound [OF this less.prems] show ?thesis by fastforce
  qed
qed

end

section \<open>Counting goroutines\<close>

definition how_many :: "('g \<Rightarrow> bool) \<Rightarrow> 'g list \<Rightarrow> int" where
  "how_many P gs = (\<Sum>g \<leftarrow> gs. of_bool (P g))"

lemma how_many_simps [simp]:
  "how_many P [] = 0" "how_many P (g # gs) = of_bool (P g) + how_many P gs" "how_many P (gs @ hs) = how_many P gs + how_many P hs"
  by (simp_all add: how_many_def)

lemma how_many_update:
  "i < length gs \<Longrightarrow> how_many P (gs[i := g]) = how_many P gs - of_bool (P (gs ! i)) + of_bool (P g)"
  by (induction gs arbitrary: i) (auto simp: nth_Cons split: nat.splits)

lemma how_many_nonneg [simp]: "0 \<le> how_many P gs"
  by (induction gs) auto

lemma how_many_pos: "i < length gs \<Longrightarrow> P (gs ! i) \<Longrightarrow> 1 \<le> how_many P gs"
  by (induction gs arbitrary: i) (auto simp: nth_Cons split: nat.splits)

lemma how_many_0: "how_many P gs = 0 \<longleftrightarrow> (\<forall>g \<in> set gs. \<not> P g)"
proof (induction gs)
  case (Cons g gs)
  have "1 + how_many P gs \<noteq> 0" using how_many_nonneg [of P gs] by linarith
  with Cons show ?case by (cases "P g") auto
qed simp

end
