(* ===== verification/Run_All.thy ===== *)
theory Run_All
  imports Task_Runner Goroutines
begin

text \<open>
  \<open>TaskRunner.RunAll\<close> and \<open>Wait\<close> of \<open>go/logfilter/logfilter.go\<close> as a system of goroutines that share the context, the
  environment, the RPC semaphore, the unlabelled metrics and the wait group. The goroutine of a task is the
  function \<open>gstep\<close>, one step per operation that another goroutine can see or come between: it follows
  \<open>TaskLoop\<close> and \<open>RunOnce\<close> down to each acquisition, query and release. The steps without interference
  make up the loop \<open>supervise\<close>; with interference, every schedule keeps the invariants proved here.
\<close>

section \<open>The goroutine of one task\<close>

text \<open>Where it stands; \<open>l\<close> is the head and \<open>cs\<close> the cursor of the round.\<close>

datatype task_pc =
    Sup_Top
  | Loop_Top
  | Loop_Head
  | Round_Top u64 u64
  | Acquire_Local u64 u64
  | Acquire_Rpc u64 u64
  | Query u64 u64
  | Release_Both u64 u64 int u64 "LogResult list go_result"
  | Answered u64 u64 int u64 "LogResult list go_result"
  | Loop_Poll
  | Loop_Ended "go_error option"
  | Sup_Wait
  | Sup_Return
  | Sup_Over

type_synonym ('e, 'p) gor = "task_pc \<times> ('e, 'p) supervised"

text \<open>The entry of \<open>TaskLoop\<close>, and what its loop does with the result of \<open>RunOnce\<close>.\<close>

definition loop_enter ::
  "'p PendingPool \<times> 'p \<Rightarrow> ('e, 'p) LogTask \<Rightarrow> ('e, 'p) world \<Rightarrow> ('e, 'p) LogTask \<times> ('e, 'p) world" where
  "loop_enter newPool t w =
     (let (t, w) = (case PendingPool t of
            None \<Rightarrow> (t\<lparr>PendingPool := Some (fst newPool)\<rparr>, w\<lparr>pool := snd newPool\<rparr>)
          | Some _ \<Rightarrow> (t, w))
      in (t, w\<lparr>taskHealth := 1\<rparr>))"

definition after_round ::
  "'e Host \<Rightarrow> bool go_result \<Rightarrow> ('e, 'p) supervised \<Rightarrow> ('e, 'p) gor" where
  "after_round host res = (\<lambda>(b, t, w, m).
     case res of
       Inl err \<Rightarrow>
         let (t, w) = (case unhealthyStart t of
               None \<Rightarrow> let (now, e) = time_Now host (env w) in
                       (t\<lparr>unhealthyStart := Some now\<rparr>, w\<lparr>env := e\<rparr>)
             | Some _ \<Rightarrow> (t, w));
             (now, e) = time_Now host (env w)
         in (Loop_Ended (Some err), b, t,
              w\<lparr>env := e, taskUnhealthyNs := now - (case unhealthyStart t of Some s \<Rightarrow> s | None \<Rightarrow> 0)\<rparr>, m)
     | Inr caughtUp \<Rightarrow>
         let t = t\<lparr>unhealthyStart := None\<rparr>; w = w\<lparr>taskUnhealthyNs := 0\<rparr> in
         if \<not> LiveMode t then (Loop_Ended None, b, t, w, m)
         else if caughtUp then (Loop_Poll, b, t, w\<lparr>taskLiveMode := 1\<rparr>, m)
         else (Loop_Top, b, t, w\<lparr>taskLiveMode := 0\<rparr>, m))"

text \<open>
  One step; \<open>None\<close> when the goroutine is blocked: neither a slot nor the context is ready, or it is over.
  The context is looked at anew in each \<open>select\<close>.
\<close>

fun gstep :: "'e Host \<Rightarrow> 'p PendingPool \<times> 'p \<Rightarrow> ('e, 'p) gor \<Rightarrow> ('e, 'p) gor option" where
  "gstep host np (Sup_Top, b, t, w, m) =
     (let (done, e) = ctx_Err host (env w); w = w\<lparr>env := e\<rparr> in
      case done of
        Some _ \<Rightarrow> Some (Sup_Return, b, t, w, m)
      | None \<Rightarrow>
          let (t, w) = loop_enter np t w
          in Some (Loop_Top, b, t, w, m\<lparr>taskRunning := taskRunning m + 1\<rparr>))"
| "gstep host np (Loop_Top, b, t, w, m) =
     (let (done, e) = ctx_Err host (env w); w = w\<lparr>env := e\<rparr> in
      case done of
        Some err \<Rightarrow> Some (Loop_Ended (Some err), b, t, w, m)
      | None \<Rightarrow> Some (Loop_Head, b, t, w, m))"
| "gstep host np (Loop_Head, b, t, w, m) =
     (let (bres, e) = rpc_BlockNumber (RPC t) (env w);
          w = w\<lparr>env := e, trace := trace w @ [Call_BlockNumber bres]\<rparr>
      in case bres of
           Inl err \<Rightarrow> Some (after_round host (Inl (Err_Wrap ''get latest block: '' err [])) (b, t, w\<lparr>rpcFail := Suc (rpcFail w)\<rparr>, m))
         | Inr l \<Rightarrow>
             let w = w\<lparr>rpcOk := Suc (rpcOk w)\<rparr> in
             if l < Checkpoint t then Some (after_round host (Inr True) (b, t, w, m))
             else Some (Round_Top l (Checkpoint t), b, t, w, m))"
| "gstep host np (Round_Top l cs, b, t, w, m) =
     (if l < cs then Some (after_round host (Inr True) (b, t, w, m))
      else let (done, e) = ctx_Err host (env w); w = w\<lparr>env := e\<rparr> in
      case done of
        Some err \<Rightarrow> Some (after_round host (Inl err) (b, t, w, m))
      | None \<Rightarrow> Some (Acquire_Local l cs, b, t, w, m))"
| "gstep host np (Acquire_Local l cs, b, t, w, m) =
     (case Acquire_body host ((TaskLocalSem w, rpcConcurrent w), env w) of
        Some (Inr (lerr, (s, g), e)) \<Rightarrow>
          let w = w\<lparr>TaskLocalSem := s, rpcConcurrent := g, env := e\<rparr> in
          (case lerr of
             Some err \<Rightarrow> Some (after_round host (Inl err) (b, t, w, m))
           | None \<Rightarrow> Some (Acquire_Rpc l cs, b, t, w, m))
      | _ \<Rightarrow> None)"
| "gstep host np (Acquire_Rpc l cs, b, t, w, m) =
     (case Acquire_body host ((RPCSem w, rpcConcurrent w), env w) of
        Some (Inr (gerr, (s, g), e)) \<Rightarrow>
          let w = w\<lparr>RPCSem := s, rpcConcurrent := g, env := e\<rparr> in
          (case gerr of
             Some err \<Rightarrow> map_option (\<lambda>w. after_round host (Inl err) (b, t, w, m)) (release_local w)
           | None \<Rightarrow> Some (Query l cs, b, t, w, m))
      | _ \<Rightarrow> None)"
| "gstep host np (Query l cs, b, t, w, m) =
     (let (batchStart, e) = time_Now host (env w);
          end = batch_end l cs (BatchSize t);
          (res, e) = rpc_EthGetLogs (RPC t) cs end (Address t) (Topics t) e;
          w = w\<lparr>env := e, trace := trace w @ [Call_EthGetLogs cs end res]\<rparr>
      in Some (Release_Both l cs batchStart end res, b, t, w, m))"
| "gstep host np (Release_Both l cs batchStart end res, b, t, w, m) =
     Option.bind (release_rpc w) (\<lambda>w.
       map_option (\<lambda>w. (Answered l cs batchStart end res, b, t, w, m)) (release_local w))"
| "gstep host np (Answered l cs batchStart end (Inl err), b, t, w, m) =
     (let w = w\<lparr>rpcFail := Suc (rpcFail w)\<rparr> in
      if IsRateLimitOrRangeErr (Some err) then
        let t = t\<lparr>BatchSize := BatchSize t div 2\<rparr> in
        if BatchSize t < 1
        then Some (after_round host (Inl (Err_Wrap ''batch reduced to 1, still failing: '' err [])) (b, t, w, m))
        else Some (Round_Top l cs, b, t, w, m)
      else Some (after_round host (Inl (Err_Wrap ''rpc query: '' err [])) (b, t, w, m)))"
| "gstep host np (Answered l cs batchStart end (Inr logs), b, t, w, m) =
     (let w = w\<lparr>rpcOk := Suc (rpcOk w)\<rparr> in
      case PendingPool t of
        None \<Rightarrow> None
      | Some P \<Rightarrow>
          (case process_batch l P t cs end logs w of
             (Some err, t, w) \<Rightarrow> Some (after_round host (Inl err) (b, t, w, m))
           | (None, t, w) \<Rightarrow> Some (Round_Top l (end + 1), b, t, record_batch host P batchStart w, m)))"
| "gstep host np (Loop_Poll, b, t, w, m) =
     (let (done, e) = wait_for host (LivePollInterval t) (env w); w = w\<lparr>env := e\<rparr> in
      case done of
        Some err \<Rightarrow> Some (Loop_Ended (Some err), b, t, w, m)
      | None \<Rightarrow> Some (Loop_Top, b, t, w, m))"
| "gstep host np (Loop_Ended err, b, t, w, m) =
     (let w = w\<lparr>taskHealth := 0, taskUnhealthyNs := 0\<rparr>;
          m = m\<lparr>taskRunning := taskRunning m - 1\<rparr>;
          (cerr, e) = ctx_Err host (env w); w = w\<lparr>env := e\<rparr>
      in if errors_Is err cerr then Some (Sup_Return, b, t, w, m)
         else Some (Sup_Wait, b, t, w, m\<lparr>taskRestartTotal := Suc (taskRestartTotal m),
                 restartTimers := restartTimers m @ [b]\<rparr>))"
| "gstep host np (Sup_Wait, b, t, w, m) =
     (let (done, e) = wait_for host b (env w); w = w\<lparr>env := e\<rparr> in
      case done of
        Some _ \<Rightarrow> Some (Sup_Return, b, t, w, m)
      | None \<Rightarrow> Some (Sup_Top, next_backoff (MaxBackoff t) b, t, w, m))"
| "gstep host np (Sup_Return, b, t, w, m) = None"
| "gstep host np (Sup_Over, b, t, w, m) = None"

section \<open>The system\<close>

text \<open>
  \<open>sync.WaitGroup\<close>: a counter; \<open>Done\<close> below zero panics (\<open>None\<close>), \<open>Wait\<close> returns at zero.
\<close>

definition wg_Add :: "int \<Rightarrow> int \<Rightarrow> int option" where
  "wg_Add n wg = (if wg + n < 0 then None else Some (wg + n))"

definition wg_Wait :: "int \<Rightarrow> bool" where
  "wg_Wait wg \<longleftrightarrow> wg = 0"

record ('e, 'p) run_all =
  r_env :: 'e
  r_ctx :: "go_error option"
  r_RPCSem :: RPCSemaphore
  r_inflight :: int
  r_logsTotal :: nat
  r_durations :: "int list"
  r_running :: int
  r_todo :: "(('e, 'p) LogTask \<times> ('e, 'p) world) list"
  r_gos :: "('e, 'p) gor list"
  r_wg :: int
  r_returned :: bool

text \<open>What a goroutine sees when it is its turn, and what of it the others see afterwards.\<close>

definition view :: "('e, 'p) run_all \<Rightarrow> ('e, 'p) gor \<Rightarrow> ('e, 'p) gor" where
  "view s = (\<lambda>(pc, b, t, w, m). (pc, b, t,
     w\<lparr>env := r_env s, RPCSem := r_RPCSem s, rpcConcurrent := r_inflight s, logsTotal := r_logsTotal s,
       batchDurations := r_durations s\<rparr>, m\<lparr>taskRunning := r_running s\<rparr>))"

definition publish :: "nat \<Rightarrow> ('e, 'p) gor \<Rightarrow> ('e, 'p) run_all \<Rightarrow> ('e, 'p) run_all" where
  "publish i g s = (case g of (pc, b, t, w, m) \<Rightarrow>
     s\<lparr>r_env := env w, r_RPCSem := RPCSem w, r_inflight := rpcConcurrent w, r_logsTotal := logsTotal w,
       r_durations := batchDurations w, r_running := taskRunning m, r_gos := (r_gos s)[i := g]\<rparr>)"

text \<open>
  The context of the system: \<open>select\<close> with a timer may take either case when both are ready,
  and the timer's only while the context is alive.
\<close>

definition with_ctx :: "go_error option \<Rightarrow> 'e Host \<Rightarrow> 'e Host" where
  "with_ctx c host = host\<lparr>ctx_Err := (\<lambda>e. (c, e)),
     wait_for := (\<lambda>d e. case wait_for host d e of (r, e) \<Rightarrow> (if r = None then None else c, e))\<rparr>"

definition go_supervise :: "('e, 'p) LogTask \<times> ('e, 'p) world \<Rightarrow> ('e, 'p) gor" where
  "go_supervise = (\<lambda>(t, w). (Sup_Top, RestartBackoff t, t, w, \<lparr>taskRunning = 0, taskRestartTotal = 0, restartTimers = []\<rparr>))"

inductive run_all_work ::
  "'e Host \<Rightarrow> 'p PendingPool \<times> 'p \<Rightarrow> ('e, 'p) run_all \<Rightarrow> ('e, 'p) run_all \<Rightarrow> bool" for host np where
  start: "r_todo s = tw # rest \<Longrightarrow> wg_Add 1 (r_wg s) = Some wg \<Longrightarrow>
    run_all_work host np s (s\<lparr>r_todo := rest, r_wg := wg, r_gos := r_gos s @ [go_supervise tw]\<rparr>)"
| step: "i < length (r_gos s) \<Longrightarrow> gstep (with_ctx (r_ctx s) host) np (view s (r_gos s ! i)) = Some g \<Longrightarrow>
    run_all_work host np s (publish i g s)"
| wg_Done: "i < length (r_gos s) \<Longrightarrow> r_gos s ! i = (Sup_Return, r) \<Longrightarrow> wg_Add (- 1) (r_wg s) = Some wg \<Longrightarrow>
    run_all_work host np s (s\<lparr>r_gos := (r_gos s)[i := (Sup_Over, r)], r_wg := wg\<rparr>)"
| returns: "r_todo s = [] \<Longrightarrow> \<not> r_returned s \<Longrightarrow> wg_Wait (r_wg s) \<Longrightarrow> run_all_work host np s (s\<lparr>r_returned := True\<rparr>)"

text \<open>Outside the runner the context is cancelled, once, and the world goes on.\<close>

inductive run_all_outside :: "('e, 'p) run_all \<Rightarrow> ('e, 'p) run_all \<Rightarrow> bool" where
  cancel: "r_ctx s = None \<Longrightarrow> run_all_outside s (s\<lparr>r_ctx := Some err\<rparr>)"
| world: "run_all_outside s (s\<lparr>r_env := e\<rparr>)"

inductive_cases run_all_workE: "run_all_work host np s s'"
inductive_cases run_all_outsideE: "run_all_outside s s'"

text \<open>\<open>RunAll\<close> is called on a runner without goroutines; \<open>ws\<close> is what belongs to each task alone.\<close>

definition RunAll_call ::
  "'e \<Rightarrow> go_error option \<Rightarrow> RPCSemaphore \<Rightarrow> ('e, 'p) TaskRunner \<Rightarrow> ('e, 'p) world list \<Rightarrow> ('e, 'p) run_all" where
  "RunAll_call e ctx sem ts ws = \<lparr>r_env = e, r_ctx = ctx, r_RPCSem = sem, r_inflight = 0, r_logsTotal = 0,
     r_durations = [], r_running = 0, r_todo = zip ts ws, r_gos = [], r_wg = 0, r_returned = False\<rparr>"

definition TaskRunner_Wait :: "('e, 'p) run_all \<Rightarrow> bool" where
  "TaskRunner_Wait s = wg_Wait (r_wg s)"

section \<open>What a step does\<close>

fun in_loop :: "task_pc \<Rightarrow> bool" where
  "in_loop Sup_Top = False"
| "in_loop Sup_Wait = False"
| "in_loop Sup_Return = False"
| "in_loop Sup_Over = False"
| "in_loop _ = True"

fun holds_rpc :: "task_pc \<Rightarrow> bool" where
  "holds_rpc (Query l cs) = True"
| "holds_rpc (Release_Both l cs bs end res) = True"
| "holds_rpc _ = False"

fun holds_local :: "task_pc \<Rightarrow> bool" where
  "holds_local (Acquire_Rpc l cs) = True"
| "holds_local pc = holds_rpc pc"

text \<open>What a step leaves alone unless it says so.\<close>

definition keeps_books ::
  "('e, 'p) LogTask \<times> ('e, 'p) world \<times> supervisor \<Rightarrow> ('e, 'p) LogTask \<times> ('e, 'p) world \<times> supervisor \<Rightarrow> bool" where
  "keeps_books = (\<lambda>(t, w, m) (t', w', m'). trace w' = trace w \<and> sems w' = sems w \<and> m' = m
     \<and> Checkpoint t' = Checkpoint t \<and> LiveMode t' = LiveMode t \<and> PendingPool t' = PendingPool t)"

lemma after_round_cases:
  assumes "after_round host res (b, t, w, m) = (pc, b', t', w', m')"
  shows "keeps_books (t, w, m) (t', w', m') \<and> b' = b
    \<and> (pc = Loop_Top \<or> pc = Loop_Poll \<or> (\<exists>err. pc = Loop_Ended err \<and> (err = None \<longrightarrow> \<not> LiveMode t)))"
  using assms
  by (auto simp: after_round_def keeps_books_def Let_def split: sum.splits option.splits prod.splits if_splits)

lemma loop_enter_cases:
  "loop_enter np t w = (t', w') \<Longrightarrow> trace w' = trace w \<and> sems w' = sems w
    \<and> Checkpoint t' = Checkpoint t \<and> LiveMode t' = LiveMode t \<and> PendingPool t' \<noteq> None"
  by (auto simp: loop_enter_def Let_def split: option.splits)

lemma Acquire_body_cases:
  assumes "Acquire_body host (sg, e) = Some (Inr (err, sg', e'))"
  shows "(err = None \<and> has_room (fst sg) \<and> sg' = take_slot sg) \<or> (err \<noteq> None \<and> err = fst (ctx_Err host e) \<and> sg' = sg)"
  using assms by (auto simp: Acquire_body_def Let_def split: prod.splits if_splits)

definition slots_ok :: "task_pc \<Rightarrow> ('e, 'p) world \<Rightarrow> bool" where
  "slots_ok pc w \<longleftrightarrow> (holds_rpc pc \<longrightarrow> 0 < sem_len (RPCSem w)) \<and> (holds_local pc \<longrightarrow> 0 < sem_len (TaskLocalSem w))"

definition sem_moves :: "bool \<Rightarrow> bool \<Rightarrow> RPCSemaphore \<Rightarrow> RPCSemaphore \<Rightarrow> bool" where
  "sem_moves before now s s' \<longleftrightarrow> sem_cap s' = sem_cap s
     \<and> int (sem_len s') = int (sem_len s) + of_bool now - of_bool before \<and> (now \<and> \<not> before \<longrightarrow> has_room s)"

lemma release_localD':
  "release_local w = Some w' \<Longrightarrow> trace w' = trace w \<and> RPCSem w' = RPCSem w \<and> 0 < sem_len (TaskLocalSem w)
    \<and> TaskLocalSem w' = (TaskLocalSem w)\<lparr>sem_len := sem_len (TaskLocalSem w) - 1\<rparr> \<and> rpcConcurrent w' = rpcConcurrent w - 1"
  by (auto simp: release_local_def Release_def split: if_splits)

lemma release_rpcD':
  "release_rpc w = Some w' \<Longrightarrow> trace w' = trace w \<and> TaskLocalSem w' = TaskLocalSem w \<and> 0 < sem_len (RPCSem w)
    \<and> RPCSem w' = (RPCSem w)\<lparr>sem_len := sem_len (RPCSem w) - 1\<rparr> \<and> rpcConcurrent w' = rpcConcurrent w - 1"
  by (auto simp: release_rpc_def Release_def split: if_splits)

definition slots_move :: "task_pc \<Rightarrow> task_pc \<Rightarrow> ('e, 'p) world \<Rightarrow> ('e, 'p) world \<Rightarrow> bool" where
  "slots_move pc pc' w w' \<longleftrightarrow> sem_moves (holds_rpc pc) (holds_rpc pc') (RPCSem w) (RPCSem w')
     \<and> sem_moves (holds_local pc) (holds_local pc') (TaskLocalSem w) (TaskLocalSem w')
     \<and> rpcConcurrent w' = rpcConcurrent w + of_bool (holds_rpc pc') + of_bool (holds_local pc')
          - of_bool (holds_rpc pc) - of_bool (holds_local pc)"

lemma slots_move_idle:
  assumes "sems w' = sems w" and "\<not> holds_local pc" and "\<not> holds_local pc'"
  shows "slots_move pc pc' w w'"
proof -
  have "\<not> holds_rpc p" if "\<not> holds_local p" for p using that by (cases p) auto
  with assms show ?thesis by (simp add: slots_move_def sem_moves_def)
qed

lemma after_round_idle:
  assumes "after_round host res (b, t, w, m) = (pc', b', t', w', m')"
  shows "sems w' = sems w \<and> \<not> holds_local pc' \<and> in_loop pc' \<and> m' = m"
  using after_round_cases [OF assms] by (auto simp: keeps_books_def)

lemma process_batch_sems:
  "process_batch l P t cs end logs w = (err, t', w') \<Longrightarrow> sems w' = sems w"
  using process_batch_task [of l P t cs "end" logs w err t' w' t] by (auto simp: extends_def)

lemma record_batch_keeps [simp]:
  "trace (record_batch host P bs w) = trace w" "RPCSem (record_batch host P bs w) = RPCSem w"
  "TaskLocalSem (record_batch host P bs w) = TaskLocalSem w" "rpcConcurrent (record_batch host P bs w) = rpcConcurrent w"
  using record_batchD [of host P bs w] by (simp_all add: extends_def)

lemma take_slot_moves:
  assumes "(s', g') = take_slot (s, g)" and "has_room s"
  shows "sem_moves False True s s' \<and> g' = g + 1"
  using assms by (auto simp: take_slot_def sem_moves_def)

lemma sem_moves_same [simp]: "sem_moves b b s s"
  by (simp add: sem_moves_def)

lemma Acquire_slots:
  assumes "Acquire_body host ((s, g), e) = Some (Inr (err, (s', g'), e'))"
  shows "(err = None \<and> sem_moves False True s s' \<and> g' = g + 1) \<or> (err \<noteq> None \<and> s' = s \<and> g' = g)"
  using Acquire_body_cases [OF assms] take_slot_moves by fastforce

lemma gstep_acquire_local:
  assumes "gstep host np (Acquire_Local l cs, b, t, w, m) = Some (pc', b', t', w', m')"
  shows "slots_move (Acquire_Local l cs) pc' w w' \<and> in_loop pc' \<and> m' = m"
proof -
  from assms obtain err s g e where a: "Acquire_body host ((TaskLocalSem w, rpcConcurrent w), env w) = Some (Inr (err, (s, g), e))"
    by (auto split: option.splits sum.splits prod.splits)
  let ?w = "w\<lparr>TaskLocalSem := s, rpcConcurrent := g, env := e\<rparr>"
  show ?thesis
  proof (cases err)
    case None
    with assms a Acquire_slots [OF a] show ?thesis by (auto simp: slots_move_def)
  next
    case (Some er)
    with assms a have "after_round host (Inl er) (b, t, ?w, m) = (pc', b', t', w', m')" by (simp add: Let_def)
    from after_round_idle [OF this] Acquire_slots [OF a] Some show ?thesis by (auto intro!: slots_move_idle)
  qed
qed

lemma gstep_acquire_rpc:
  assumes "gstep host np (Acquire_Rpc l cs, b, t, w, m) = Some (pc', b', t', w', m')"
  shows "slots_move (Acquire_Rpc l cs) pc' w w' \<and> in_loop pc' \<and> m' = m"
proof -
  from assms obtain err s g e where a: "Acquire_body host ((RPCSem w, rpcConcurrent w), env w) = Some (Inr (err, (s, g), e))"
    by (auto split: option.splits sum.splits prod.splits)
  let ?w = "w\<lparr>RPCSem := s, rpcConcurrent := g, env := e\<rparr>"
  show ?thesis
  proof (cases err)
    case None
    with assms a Acquire_slots [OF a] show ?thesis by (auto simp: slots_move_def)
  next
    case (Some er)
    with assms a obtain w1 where w1: "release_local ?w = Some w1" "after_round host (Inl er) (b, t, w1, m) = (pc', b', t', w', m')"
      by (auto simp: Let_def)
    from after_round_idle [OF w1(2)] have idle: "sems w' = sems w1" "\<not> holds_local pc'" "in_loop pc'" "m' = m" by simp_all
    then have "\<not> holds_rpc pc'" by (cases pc') auto
    with idle release_localD' [OF w1(1)] Acquire_slots [OF a] Some show ?thesis
      by (auto simp: slots_move_def sem_moves_def)
  qed
qed

lemma gstep_slots:
  assumes "gstep host np (pc, b, t, w, m) = Some (pc', b', t', w', m')"
  shows "slots_move pc pc' w w' \<and> taskRunning m' = taskRunning m + of_bool (in_loop pc') - of_bool (in_loop pc)"
proof (cases pc)
  case (Acquire_Local l cs)
  with gstep_acquire_local assms show ?thesis by fastforce
next
  case (Acquire_Rpc l cs)
  with gstep_acquire_rpc assms show ?thesis by fastforce
next
  case (Release_Both l cs bs till res)
  with assms show ?thesis
    by (auto simp: slots_move_def sem_moves_def bind_eq_Some_conv dest!: release_localD' release_rpcD')
next
  case (Answered l cs bs till res)
  with assms show ?thesis
    by (cases res) (auto simp: Let_def split: prod.splits option.splits if_splits intro!: slots_move_idle
       dest!: after_round_idle process_batch_sems)
next
  case (Query l cs)
  with assms show ?thesis by (auto simp: Let_def slots_move_def split: prod.splits)
qed (use assms in \<open>auto simp: Let_def split: prod.splits option.splits if_splits sum.splits intro!: slots_move_idle
       dest!: after_round_idle loop_enter_cases\<close>)

section \<open>What a task has done\<close>

text \<open>
  The calls of the task since it was started. Between a query and what follows from it the
  query is the last call.
\<close>

definition trace_ok :: "u64 \<Rightarrow> call list \<Rightarrow> ('e, 'p) LogTask \<Rightarrow> bool" where
  "trace_ok cp calls t \<longleftrightarrow> saves_guarded calls \<and> no_gaps cp calls \<and> Checkpoint t = last (cp # saved calls)"

abbreviation fetched_to :: "u64 \<Rightarrow> u64 \<Rightarrow> call list \<Rightarrow> bool" where
  "fetched_to cp cs calls \<equiv> {unat cp..<unat cs} \<subseteq> set (blocks_fetched calls)"

definition cursor_ok :: "u64 \<Rightarrow> u64 \<Rightarrow> call list \<Rightarrow> ('e, 'p) LogTask \<Rightarrow> bool" where
  "cursor_ok cp cs calls t \<longleftrightarrow> trace_ok cp calls t \<and> fetched_to cp cs calls"

definition query_ok :: "u64 \<Rightarrow> u64 \<Rightarrow> u64 \<Rightarrow> LogResult list go_result \<Rightarrow> call list \<Rightarrow> ('e, 'p) LogTask \<Rightarrow> bool" where
  "query_ok cp cs till res calls t \<longleftrightarrow>
     (\<exists>prev. calls = prev @ [Call_EthGetLogs cs till res] \<and> cursor_ok cp cs prev t)"

fun at_ok :: "task_pc \<Rightarrow> u64 \<Rightarrow> call list \<Rightarrow> ('e, 'p) LogTask \<Rightarrow> bool" where
  "at_ok (Round_Top l cs) cp calls t = cursor_ok cp cs calls t"
| "at_ok (Acquire_Local l cs) cp calls t = cursor_ok cp cs calls t"
| "at_ok (Acquire_Rpc l cs) cp calls t = cursor_ok cp cs calls t"
| "at_ok (Query l cs) cp calls t = cursor_ok cp cs calls t"
| "at_ok (Release_Both l cs bs till res) cp calls t = query_ok cp cs till res calls t"
| "at_ok (Answered l cs bs till res) cp calls t = query_ok cp cs till res calls t"
| "at_ok pc cp calls t = trace_ok cp calls t"

lemma trace_ok_cong: "Checkpoint t' = Checkpoint t \<Longrightarrow> trace_ok cp calls t' = trace_ok cp calls t"
  by (simp add: trace_ok_def)

lemma trace_ok_snoc:
  assumes "trace_ok cp calls t" and "\<And>b r. c \<noteq> Call_Save b r"
  shows "trace_ok cp (calls @ [c]) t"
proof -
  have "saved [c] = []" using assms(2) by (cases c) (auto simp: saved_def)
  moreover have "saves_guarded [c]" using assms(2) by (simp add: saves_guarded_def)
  moreover have "no_gaps cp (calls @ [c])"
  proof (rule no_gaps_append)
    show "no_gaps cp calls" using assms(1) by (simp add: trace_ok_def)
    show "no_gaps (last (cp # saved calls)) [c]" by (rule no_gaps_quiet) (metis assms(2) empty_iff empty_set set_ConsD)
  qed
  ultimately show ?thesis using assms(1) by (simp add: trace_ok_def saves_guarded_append)
qed

lemma query_ok_trace: "query_ok cp cs till res calls t \<Longrightarrow> trace_ok cp calls t"
  by (auto simp: query_ok_def cursor_ok_def intro: trace_ok_snoc)

lemma at_ok_trace: "at_ok pc cp calls t \<Longrightarrow> trace_ok cp calls t"
  by (cases pc) (auto simp: cursor_ok_def intro: query_ok_trace)

text \<open>A round starts at the checkpoint, up to which everything was fetched.\<close>

lemma cursor_start:
  assumes "trace_ok cp calls t"
  shows "cursor_ok cp (Checkpoint t) calls t"
proof (cases "saved calls = []")
  case True
  with assms show ?thesis by (simp add: trace_ok_def cursor_ok_def)
next
  case False
  let ?c = "last (saved calls)"
  from last_saved [OF False] obtain us vs where calls: "calls = us @ Call_Save ?c None # vs" by blast
  with assms have "{unat cp..unat ?c} \<subseteq> set (blocks_fetched us)" unfolding trace_ok_def no_gaps_def by blast
  then have "{unat cp..<unat ?c} \<subseteq> set (blocks_fetched calls)" by (subst calls) auto
  with assms False show ?thesis by (simp add: trace_ok_def cursor_ok_def)
qed

lemma batch_ok:
  assumes "query_ok cp cs till (Inr logs) calls t" and "trace w = tr @ calls"
    and "process_batch l P t cs till logs w = (err, t', w')"
  shows "\<exists>calls'. trace w' = tr @ calls' \<and> cursor_ok cp (till + 1) calls' t'"
proof -
  from assms(1) obtain prev where prev: "calls = prev @ [Call_EthGetLogs cs till (Inr logs)]"
      "saves_guarded prev" "no_gaps cp prev" "Checkpoint t = last (cp # saved prev)" "fetched_to cp cs prev"
    by (auto simp: query_ok_def cursor_ok_def trace_ok_def)
  let ?w0 = "w\<lparr>trace := tr\<rparr>" and ?w1 = "w\<lparr>trace := tr @ prev\<rparr>"
  have ext: "extends ?w1 [Call_EthGetLogs cs till (Inr logs)] w" using assms(2) prev(1) by (simp add: extends_def)
  have "gap_inv cp ?w0 (t, cs, ?w1)" using prev by (auto simp: gap_inv_def extends_def)
  from gap_inv_batch [OF this ext assms(3) extends_refl] obtain c1 where
    c1: "extends ?w0 c1 w'" "no_gaps cp c1" "fetched_to cp (till + 1) c1" by (auto simp: gap_inv_def)
  from round_inv_batch [OF ext assms(3) extends_refl] obtain c2 where
    c2: "extends ?w1 c2 w'" "saves_guarded c2" "Checkpoint t' = last (Checkpoint t # saved c2)" by (auto simp: round_inv_def)
  from c1(1) c2(1) have eq: "c1 = prev @ c2" by (simp add: extends_def)
  with c1 c2 prev show ?thesis
    by (intro exI [of _ c1]) (auto simp: cursor_ok_def trace_ok_def extends_def intro: saves_guarded_append)
qed

definition trace_from :: "('e, 'p) LogTask \<times> ('e, 'p) world \<Rightarrow> ('e, 'p) gor \<Rightarrow> bool" where
  "trace_from = (\<lambda>(t0, w0) (pc, b, t, w, m). LiveMode t = LiveMode t0 \<and> (in_loop pc \<longrightarrow> PendingPool t \<noteq> None)
     \<and> (pc = Loop_Ended None \<longrightarrow> \<not> LiveMode t0)
     \<and> (\<exists>calls. trace w = trace w0 @ calls \<and> at_ok pc (Checkpoint t0) calls t))"

lemma trace_fromI:
  "trace w = trace w0 @ calls \<Longrightarrow> at_ok pc (Checkpoint t0) calls t \<Longrightarrow> LiveMode t = LiveMode t0
    \<Longrightarrow> (in_loop pc \<Longrightarrow> PendingPool t \<noteq> None) \<Longrightarrow> (pc = Loop_Ended None \<Longrightarrow> \<not> LiveMode t0)
    \<Longrightarrow> trace_from (t0, w0) (pc, b, t, w, m)"
  unfolding trace_from_def by auto

lemma after_round_trace:
  assumes "after_round host res (b, t, w, m) = g" and "trace w = trace w0 @ calls" and "trace_ok (Checkpoint t0) calls t"
    and "LiveMode t = LiveMode t0" and "PendingPool t \<noteq> None"
  shows "trace_from (t0, w0) g"
proof -
  obtain pc b' t' w' m' where g: "g = (pc, b', t', w', m')" by (cases g)
  from after_round_cases [OF assms(1) [unfolded g]] assms(2-) show ?thesis
    unfolding g by (intro trace_fromI [where calls = calls]) (auto simp: keeps_books_def trace_ok_def)
qed

lemma answered_trace:
  assumes "gstep host np (Answered l cs bs till res, b, t, w, m) = Some g"
    and "trace w = trace w0 @ calls" and "query_ok (Checkpoint t0) cs till res calls t"
    and "LiveMode t = LiveMode t0" and "PendingPool t \<noteq> None"
  shows "trace_from (t0, w0) g"
proof (cases res)
  case (Inl err)
  note ok = query_ok_trace [OF assms(3)]
  from assms(3) have cs: "cursor_ok (Checkpoint t0) cs calls t"
    using ok Inl by (auto simp: query_ok_def cursor_ok_def)
  show ?thesis
    using assms(1) Inl assms(2,4,5) ok cs
    by (auto simp: Let_def trace_ok_def cursor_ok_def split: if_splits
        intro!: after_round_trace [where calls = calls, OF refl] trace_fromI [where calls = calls])
next
  case (Inr logs)
  obtain P where P: "PendingPool t = Some P" using assms(5) by blast
  obtain err t1 w1 where pb: "process_batch l P t cs till logs (w\<lparr>rpcOk := Suc (rpcOk w)\<rparr>) = (err, t1, w1)"
    by (metis prod_cases3)
  from batch_ok [OF assms(3) [unfolded Inr] _ pb, of "trace w0"] assms(2) obtain calls' where
    calls': "trace w1 = trace w0 @ calls'" "cursor_ok (Checkpoint t0) (till + 1) calls' t1" by auto
  have same: "LiveMode t1 = LiveMode t0" "PendingPool t1 \<noteq> None"
    using process_batch_task [OF pb, of t] same_taskD [of t t1] assms(4) P by auto
  show ?thesis
  proof (cases err)
    case None
    with assms(1) Inr P pb calls' same show ?thesis
      by (auto simp: Let_def intro!: trace_fromI [where calls = calls'])
  next
    case (Some e)
    with assms(1) Inr P pb calls' same show ?thesis
      by (auto simp: Let_def cursor_ok_def intro!: after_round_trace [where calls = calls', OF refl])
  qed
qed

lemma gstep_trace:
  assumes "gstep host np (pc, b, t, w, m) = Some g" and "trace_from (t0, w0) (pc, b, t, w, m)"
  shows "trace_from (t0, w0) g"
proof -
  from assms(2) obtain calls where calls: "trace w = trace w0 @ calls" "at_ok pc (Checkpoint t0) calls t"
      "LiveMode t = LiveMode t0" "in_loop pc \<Longrightarrow> PendingPool t \<noteq> None" "pc = Loop_Ended None \<Longrightarrow> \<not> LiveMode t0"
    by (auto simp: trace_from_def)
  note ok = at_ok_trace [OF calls(2)]
  show ?thesis
  proof (cases pc)
    case Sup_Top
    with assms(1) calls show ?thesis
      by (auto simp: Let_def trace_ok_def split: prod.splits option.splits dest!: loop_enter_cases
          intro!: trace_fromI [where calls = calls])
  next
    case Loop_Head
    obtain bres e where b: "rpc_BlockNumber (RPC t) (env w) = (bres, e)" by fastforce
    let ?calls = "calls @ [Call_BlockNumber bres]"
    have ok': "trace_ok (Checkpoint t0) ?calls t" using ok by (rule trace_ok_snoc) simp
    show ?thesis
      using assms(1) Loop_Head b calls ok' cursor_start [OF ok']
      by (auto simp: Let_def split: sum.splits if_splits
          intro!: after_round_trace [where calls = ?calls, OF refl] trace_fromI [where calls = ?calls])
  next
    case (Acquire_Rpc l cs)
    with assms(1) calls ok show ?thesis
      by (auto simp: Let_def split: prod.splits option.splits sum.splits dest!: release_localD'
          intro!: after_round_trace [where calls = calls, OF refl] trace_fromI [where calls = calls])
  next
    case (Query l cs)
    obtain bs e where tm: "time_Now host (env w) = (bs, e)" by fastforce
    let ?till = "batch_end l cs (BatchSize t)"
    obtain res e2 where q: "rpc_EthGetLogs (RPC t) cs ?till (Address t) (Topics t) e = (res, e2)" by fastforce
    show ?thesis
      using assms(1) Query tm q calls
      by (auto simp: Let_def query_ok_def intro!: trace_fromI [where calls = "calls @ [Call_EthGetLogs cs ?till res]"])
  next
    case (Release_Both l cs bs till res)
    with assms(1) calls show ?thesis
      by (auto simp: bind_eq_Some_conv dest!: release_localD' release_rpcD' intro!: trace_fromI [where calls = calls])
  next
    case (Answered l cs bs till res)
    with answered_trace [of host np l cs bs till res b t w m g w0 calls t0] assms(1) calls show ?thesis by simp
  qed (use assms(1) calls ok in \<open>auto simp: Let_def split: prod.splits option.splits if_splits sum.splits
       intro!: after_round_trace [where calls = calls, OF refl] trace_fromI [where calls = calls]\<close>)
qed

text \<open>The invariant of one goroutine: of its task, its calls and its own semaphore since \<open>(t0, w0)\<close>.\<close>

definition local_inv :: "('e, 'p) LogTask \<times> ('e, 'p) world \<Rightarrow> ('e, 'p) gor \<Rightarrow> bool" where
  "local_inv = (\<lambda>(t0, w0) (pc, b, t, w, m). trace_from (t0, w0) (pc, b, t, w, m)
     \<and> sem_cap (TaskLocalSem w) = sem_cap (TaskLocalSem w0)
     \<and> int (sem_len (TaskLocalSem w)) = int (sem_len (TaskLocalSem w0)) + of_bool (holds_local pc))"

lemma gstep_local:
  assumes "gstep host np (pc, b, t, w, m) = Some g" and "local_inv o0 (pc, b, t, w, m)"
  shows "local_inv o0 g"
proof -
  obtain t0 w0 pc' b' t' w' m' where g: "o0 = (t0, w0)" "g = (pc', b', t', w', m')" by (cases o0; cases g)
  from gstep_trace [OF assms(1), of t0 w0] gstep_slots [OF assms(1) [unfolded g]] assms(2) show ?thesis
    by (simp add: g local_inv_def slots_move_def sem_moves_def)
qed

section \<open>Every schedule\<close>

definition over :: "('e, 'p) gor \<Rightarrow> bool" where
  "over g \<longleftrightarrow> fst g = Sup_Over"

abbreviation task_of :: "('e, 'p) gor \<Rightarrow> ('e, 'p) LogTask" where
  "task_of g \<equiv> fst (snd (snd g))"

abbreviation world_of :: "('e, 'p) gor \<Rightarrow> ('e, 'p) world" where
  "world_of g \<equiv> fst (snd (snd (snd g)))"

lemma view_local [simp]: "local_inv o0 (view s g) = local_inv o0 g" "fst (view s g) = fst g" "task_of (view s g) = task_of g"
  by (cases o0; cases g; simp add: view_def local_inv_def trace_from_def)+

text \<open>
  The books of the runner: the wait group counts the goroutines that are not over, the gauges and the
  semaphore count those in the task loop and in a locked section, and a goroutine ends only when the
  context is done or its task is not live.
\<close>

definition counts_ok :: "nat \<Rightarrow> ('e, 'p) run_all \<Rightarrow> bool" where
  "counts_ok cap s \<longleftrightarrow> r_wg s = how_many (\<lambda>g. \<not> over g) (r_gos s)
     \<and> r_running s = how_many (\<lambda>g. in_loop (fst g)) (r_gos s)
     \<and> sem_cap (r_RPCSem s) = cap \<and> sem_len (r_RPCSem s) \<le> cap
     \<and> int (sem_len (r_RPCSem s)) = how_many (\<lambda>g. holds_rpc (fst g)) (r_gos s)
     \<and> r_inflight s = how_many (\<lambda>g. holds_rpc (fst g)) (r_gos s) + how_many (\<lambda>g. holds_local (fst g)) (r_gos s)"

definition tasks_ok :: "(('e, 'p) LogTask \<times> ('e, 'p) world) list \<Rightarrow> ('e, 'p) run_all \<Rightarrow> bool" where
  "tasks_ok tws s \<longleftrightarrow> (\<exists>started. tws = started @ r_todo s \<and> list_all2 local_inv started (r_gos s))
     \<and> (\<forall>g \<in> set (r_gos s). fst g \<in> {Sup_Return, Sup_Over} \<longrightarrow> r_ctx s \<noteq> None \<or> \<not> LiveMode (task_of g))
     \<and> (r_returned s \<longrightarrow> r_todo s = [] \<and> (\<forall>g \<in> set (r_gos s). over g))"

definition run_all_inv :: "nat \<Rightarrow> (('e, 'p) LogTask \<times> ('e, 'p) world) list \<Rightarrow> ('e, 'p) run_all \<Rightarrow> bool" where
  "run_all_inv cap tws s \<longleftrightarrow> counts_ok cap s \<and> tasks_ok tws s"

lemma after_round_running [simp]: "fst (after_round host res x) \<noteq> Sup_Return" "fst (after_round host res x) \<noteq> Sup_Over"
  by (cases x; cases "after_round host res x"; auto dest!: after_round_cases)+

lemma with_ctx_simps [simp]:
  "ctx_Err (with_ctx c host) e = (c, e)" "wait_for host d e = (x, e') \<Longrightarrow> wait_for (with_ctx c host) d e = (if x = None then None else c, e')"
  by (simp_all add: with_ctx_def)

lemma errors_Is_None [simp]: "errors_Is err None \<longleftrightarrow> err = None"
  by (cases err) auto

lemma gstep_ends:
  assumes "gstep (with_ctx c host) np (pc, r) = Some g"
  shows "fst g \<noteq> Sup_Over \<and> (fst g = Sup_Return \<longrightarrow> c \<noteq> None \<or> pc = Loop_Ended None) \<and> pc \<notin> {Sup_Return, Sup_Over}"
proof -
  obtain b t w m where r: "r = (b, t, w, m)" by (cases r)
  obtain x e where poll: "wait_for host (LivePollInterval t) (env w) = (x, e)" by fastforce
  obtain y e1 where wt: "wait_for host b (env w) = (y, e1)" by fastforce
  show ?thesis
  proof (cases pc)
    case (Answered l cs bs till res)
    with assms show ?thesis
      by (cases res) (auto simp: r Let_def split: prod.splits option.splits if_splits)
  next
    case (Loop_Ended err)
    with assms show ?thesis by (cases c) (auto simp: r Let_def split: if_splits)
  qed (use assms poll wt in \<open>auto simp: r Let_def bind_eq_Some_conv split: prod.splits option.splits if_splits sum.splits\<close>)
qed

lemma counts_update:
  assumes "counts_ok cap s" and "i < length (r_gos s)" and "r_gos s ! i = g0" and "view s g0 = (pc, b, t, w, m)"
    and "slots_move pc pc' w w'" and "taskRunning m' = taskRunning m + of_bool (in_loop pc') - of_bool (in_loop pc)"
    and "pc \<noteq> Sup_Over" and "pc' \<noteq> Sup_Over"
  shows "counts_ok cap (publish i (pc', b', t', w', m') s)"
proof -
  have v: "fst g0 = pc" "RPCSem w = r_RPCSem s" "rpcConcurrent w = r_inflight s" "taskRunning m = r_running s"
    using assms(4) by (cases g0; auto simp: view_def)+
  have len: "int (sem_len (RPCSem w')) = int (sem_len (r_RPCSem s)) + of_bool (holds_rpc pc') - of_bool (holds_rpc pc)"
      "sem_cap (RPCSem w') = sem_cap (r_RPCSem s)" "holds_rpc pc' \<and> \<not> holds_rpc pc \<longrightarrow> has_room (r_RPCSem s)"
    using assms(5) v by (simp_all add: slots_move_def sem_moves_def)
  have "sem_len (RPCSem w') \<le> cap"
  proof (cases "holds_rpc pc' \<and> \<not> holds_rpc pc")
    case True
    with len assms(1) show ?thesis by (simp add: counts_ok_def has_room_def)
  next
    case False
    then have "int (sem_len (RPCSem w')) \<le> int (sem_len (r_RPCSem s))" using len(1) by (auto simp: of_bool_def split: if_splits)
    with assms(1) show ?thesis by (simp add: counts_ok_def)
  qed
  with assms v len show ?thesis
    by (simp add: counts_ok_def publish_def how_many_update over_def slots_move_def)
qed

lemma tasks_update:
  assumes "tasks_ok tws s" and "i < length (r_gos s)" and "gstep (with_ctx (r_ctx s) host) np (view s (r_gos s ! i)) = Some g"
  shows "tasks_ok tws (publish i g s)"
proof -
  obtain pc b t w m where v: "view s (r_gos s ! i) = (pc, b, t, w, m)" by (metis prod_cases5)
  note ends = gstep_ends [OF assms(3) [unfolded v]]
  from assms(1) obtain started where st: "tws = started @ r_todo s" "list_all2 local_inv started (r_gos s)"
    by (auto simp: tasks_ok_def)
  then have i: "local_inv (started ! i) (r_gos s ! i)" using assms(2) by (simp add: list_all2_conv_all_nth)
  then have li: "local_inv (started ! i) (pc, b, t, w, m)" using view_local(1) [of _ s "r_gos s ! i"] v by metis
  from gstep_local [OF assms(3) [unfolded v] li] have g: "local_inv (started ! i) g" .
  have "list_all2 local_inv started ((r_gos s)[i := g])"
    using st(2) g assms(2) by (auto simp: list_all2_conv_all_nth nth_list_update)
  moreover have "r_ctx s \<noteq> None \<or> \<not> LiveMode (task_of g)" if "fst g \<in> {Sup_Return, Sup_Over}"
    using that ends g li by (cases "started ! i"; cases g) (auto simp: local_inv_def trace_from_def)
  moreover have "\<not> r_returned s"
  proof
    assume "r_returned s"
    with assms(1,2) have "over (r_gos s ! i)" by (auto simp: tasks_ok_def)
    with view_local(2) [of s "r_gos s ! i"] v ends show False by (simp add: over_def)
  qed
  ultimately show ?thesis
    using st(1) assms(1) by (cases g) (auto simp: tasks_ok_def publish_def dest!: set_update_subset_insert [THEN subsetD])
qed

lemma go_supervise_local: "local_inv tw (go_supervise tw)"
  by (cases tw) (auto simp: local_inv_def trace_from_def go_supervise_def trace_ok_def saves_guarded_batch intro!: no_gaps_quiet)

lemma run_all_inv_work:
  assumes "run_all_inv cap tws s" and "run_all_work host np s s'"
  shows "run_all_inv cap tws s'"
  using assms(2)
proof cases
  case (start tw rest wg)
  have pc: "fst (go_supervise tw) = Sup_Top" by (cases tw) (simp add: go_supervise_def)
  from assms(1) obtain started where st: "tws = started @ r_todo s" "list_all2 local_inv started (r_gos s)"
    by (auto simp: run_all_inv_def tasks_ok_def)
  have "list_all2 local_inv (started @ [tw]) (r_gos s @ [go_supervise tw])"
    by (rule list_all2_appendI [OF st(2)]) (simp add: go_supervise_local)
  moreover have "tws = (started @ [tw]) @ rest" using st(1) start by simp
  ultimately have "tasks_ok tws s'"
    using assms(1) start pc unfolding run_all_inv_def tasks_ok_def by fastforce
  moreover have "counts_ok cap s'"
    using assms(1) start pc by (auto simp: run_all_inv_def counts_ok_def wg_Add_def over_def split: if_splits)
  ultimately show ?thesis by (simp add: run_all_inv_def)
next
  case (step i g)
  obtain pc b t w m where v: "view s (r_gos s ! i) = (pc, b, t, w, m)" by (metis prod_cases5)
  obtain pc' b' t' w' m' where g: "g = (pc', b', t', w', m')" by (metis prod_cases5)
  note st = step(3) [unfolded v]
  from gstep_ends [OF st] gstep_slots [OF st [unfolded g]] assms(1) step show ?thesis
    unfolding run_all_inv_def g by (auto intro!: counts_update [OF _ _ refl v] tasks_update)
next
  case (wg_Done i r wg)
  from assms(1) obtain started where st: "tws = started @ r_todo s" "list_all2 local_inv started (r_gos s)"
    by (auto simp: run_all_inv_def tasks_ok_def)
  have "local_inv (started ! i) (Sup_Return, r)" using st(2) wg_Done(2,3) by (metis list_all2_nthD2)
  then have "local_inv (started ! i) (Sup_Over, r)" by (cases "started ! i"; cases r) (simp add: local_inv_def trace_from_def)
  then have "list_all2 local_inv started ((r_gos s)[i := (Sup_Over, r)])"
    using st(2) wg_Done(2) by (auto simp: list_all2_conv_all_nth nth_list_update)
  moreover have "(Sup_Return, r) \<in> set (r_gos s)" using wg_Done(2,3) by (metis nth_mem)
  ultimately have "tasks_ok tws s'"
    using assms(1) st(1) wg_Done unfolding run_all_inv_def tasks_ok_def
    by (fastforce simp: over_def dest!: set_update_subset_insert [THEN subsetD])
  moreover have "counts_ok cap s'"
    using assms(1) wg_Done by (auto simp: run_all_inv_def counts_ok_def wg_Add_def over_def how_many_update split: if_splits)
  ultimately show ?thesis by (simp add: run_all_inv_def)
next
  case returns
  with assms(1) show ?thesis by (auto simp: run_all_inv_def counts_ok_def tasks_ok_def wg_Wait_def how_many_0)
qed

lemma run_all_inv_outside:
  assumes "run_all_inv cap tws s" and "run_all_outside s s'"
  shows "run_all_inv cap tws s'"
  using assms(2) by cases (use assms(1) in \<open>auto simp: run_all_inv_def counts_ok_def tasks_ok_def\<close>)

lemma run_all_inv_call: "run_all_inv cap (zip ts ws) (RunAll_call e ctx \<lparr>sem_cap = cap, sem_len = 0\<rparr> ts ws)"
  by (simp add: run_all_inv_def counts_ok_def tasks_ok_def RunAll_call_def)

interpretation runner: concurrent "run_all_work host np" run_all_outside
  "RunAll_call e ctx \<lparr>sem_cap = cap, sem_len = 0\<rparr> ts ws" "run_all_inv cap (zip ts ws)"
  by unfold_locales (auto intro: run_all_inv_call run_all_inv_work run_all_inv_outside)

section \<open>The end\<close>

text \<open>Once the context is done, every step of a goroutine brings it closer to its end.\<close>

fun pc_left :: "task_pc \<Rightarrow> nat" where
  "pc_left Sup_Over = 0"
| "pc_left Sup_Return = 1"
| "pc_left Sup_Top = 2"
| "pc_left Sup_Wait = 3"
| "pc_left (Loop_Ended err) = 4"
| "pc_left Loop_Top = 5"
| "pc_left Loop_Poll = 6"
| "pc_left (Round_Top l cs) = 7"
| "pc_left (Answered l cs bs till res) = 8"
| "pc_left (Release_Both l cs bs till res) = 9"
| "pc_left (Query l cs) = 10"
| "pc_left (Acquire_Rpc l cs) = 11"
| "pc_left (Acquire_Local l cs) = 12"
| "pc_left Loop_Head = 13"

lemma after_round_left [simp]: "pc_left (fst (after_round host res x)) \<le> 6"
  by (cases x; cases "after_round host res x") (auto dest!: after_round_cases)

lemma gstep_left:
  assumes "gstep (with_ctx (Some err) host) np (pc, r) = Some g"
  shows "pc_left (fst g) < pc_left pc"
proof -
  obtain b t w m where r: "r = (b, t, w, m)" by (cases r)
  have ar: "pc_left (fst (after_round h res x)) < Suc (Suc (Suc (Suc (Suc (Suc (Suc n))))))" for h res x n
    using after_round_left [of h res x] by linarith
  obtain x e where poll: "wait_for host (LivePollInterval t) (env w) = (x, e)" by fastforce
  obtain y e1 where wt: "wait_for host b (env w) = (y, e1)" by fastforce
  show ?thesis
  proof (cases pc)
    case (Answered l cs bs till res)
    with assms show ?thesis
      by (cases res) (auto simp: r Let_def ar le_less_trans [OF after_round_left] split: prod.splits option.splits if_splits)
  qed (use assms poll wt in \<open>auto simp: r Let_def bind_eq_Some_conv le_less_trans [OF after_round_left] split: prod.splits option.splits if_splits sum.splits\<close>)
qed

definition run_all_left :: "('e, 'p) run_all \<Rightarrow> nat" where
  "run_all_left s = (\<Sum>g \<leftarrow> r_gos s. pc_left (fst g)) + 3 * length (r_todo s) + of_bool (\<not> r_returned s)"

lemma sum_list_update_less:
  fixes f :: "'a \<Rightarrow> nat"
  assumes "i < length xs" and "f x < f (xs ! i)"
  shows "(\<Sum>y \<leftarrow> xs[i := x]. f y) < (\<Sum>y \<leftarrow> xs. f y)"
  using assms by (induction xs arbitrary: i) (auto simp: nth_Cons split: nat.splits)

lemma run_all_left_work:
  assumes "r_ctx s \<noteq> None" and "run_all_work host np s s'"
  shows "run_all_left s' < run_all_left s"
  using assms(2)
proof cases
  case (start tw rest wg)
  then show ?thesis by (cases tw) (simp add: run_all_left_def go_supervise_def)
next
  case (step i g)
  obtain err where err: "r_ctx s = Some err" using assms(1) by blast
  obtain pc r where v: "view s (r_gos s ! i) = (pc, r)" by (rule prod.exhaust)
  have "pc_left (fst g) < pc_left (fst (r_gos s ! i))"
    using gstep_left [OF step(3) [unfolded v err]] view_local(2) [of s "r_gos s ! i"] v by simp
  with step(2) sum_list_update_less [of i "r_gos s" "\<lambda>g. pc_left (fst g)" g] show ?thesis
    unfolding step(1) by (cases g) (simp add: run_all_left_def publish_def)
next
  case (wg_Done i r wg)
  with sum_list_update_less [of i "r_gos s" "\<lambda>g. pc_left (fst g)" "(Sup_Over, r)"] show ?thesis
    by (simp add: run_all_left_def)
next
  case returns
  then show ?thesis by (simp add: run_all_left_def)
qed

interpretation cancelled: goroutines "run_all_work host np" run_all_outside
  "RunAll_call e (Some err) \<lparr>sem_cap = cap, sem_len = 0\<rparr> ts ws" "\<lambda>s. run_all_inv cap (zip ts ws) s \<and> r_ctx s \<noteq> None" run_all_left
proof
  have ctx: "r_ctx s' = r_ctx s" if "run_all_work host np s s'" for s s'
    using that by cases (auto simp: publish_def split: prod.splits)
  show "run_all_inv cap (zip ts ws) (RunAll_call e (Some err) \<lparr>sem_cap = cap, sem_len = 0\<rparr> ts ws)
      \<and> r_ctx (RunAll_call e (Some err) \<lparr>sem_cap = cap, sem_len = 0\<rparr> ts ws) \<noteq> None"
    using run_all_inv_call by (auto simp: RunAll_call_def)
  show "run_all_inv cap (zip ts ws) s' \<and> r_ctx s' \<noteq> None"
    if "run_all_inv cap (zip ts ws) s \<and> r_ctx s \<noteq> None" "run_all_work host np s s'" for s s'
    using that run_all_inv_work ctx by metis
  show "run_all_inv cap (zip ts ws) s' \<and> r_ctx s' \<noteq> None"
    if "run_all_inv cap (zip ts ws) s \<and> r_ctx s \<noteq> None" "run_all_outside s s'" for s s'
    using that run_all_inv_outside by (fastforce elim: run_all_outsideE)
  show "run_all_left s' < run_all_left s"
    if "run_all_inv cap (zip ts ws) s \<and> r_ctx s \<noteq> None" "run_all_work host np s s'" for s s'
    using that run_all_left_work by blast
  show "run_all_left s' \<le> run_all_left s"
    if "run_all_inv cap (zip ts ws) s \<and> r_ctx s \<noteq> None" "run_all_outside s s'" for s s'
    using that(2) by cases (simp_all add: run_all_left_def)
qed

text \<open>A goroutine waits only for a slot of a full semaphore, or is about to end.\<close>

lemma Acquire_body_ready:
  assumes "has_room sm"
  obtains err s g e' where "Acquire_body host ((sm, ga), e) = Some (Inr (err, (s, g), e'))"
proof -
  obtain dn e1 first e2 where "ctx_Err host e = (dn, e1)" "pick host e1 = (first, e2)" by fastforce
  with assms have "\<exists>err s g e'. Acquire_body host ((sm, ga), e) = Some (Inr (err, (s, g), e'))"
    by (simp add: Acquire_body_def Let_def take_slot_def)
  with that show thesis by blast
qed

lemma gstep_blocked:
  assumes "gstep (with_ctx c host) np (pc, b, t, w, m) = None" and "in_loop pc \<longrightarrow> PendingPool t \<noteq> None"
    and "holds_rpc pc \<longrightarrow> 0 < sem_len (RPCSem w)" and "holds_local pc \<longrightarrow> 0 < sem_len (TaskLocalSem w)"
  shows "pc \<in> {Sup_Return, Sup_Over} \<or> (\<exists>l cs. pc = Acquire_Local l cs) \<and> \<not> has_room (TaskLocalSem w)
    \<or> (\<exists>l cs. pc = Acquire_Rpc l cs) \<and> \<not> has_room (RPCSem w)"
proof (cases pc)
  case (Acquire_Local l cs)
  have "\<not> has_room (TaskLocalSem w)"
  proof
    assume "has_room (TaskLocalSem w)"
    from Acquire_body_ready [OF this, of "with_ctx c host" "rpcConcurrent w" "env w"] obtain err s g e' where
      "Acquire_body (with_ctx c host) ((TaskLocalSem w, rpcConcurrent w), env w) = Some (Inr (err, (s, g), e'))" .
    with assms(1) Acquire_Local show False by (cases err) (simp_all add: Let_def)
  qed
  with Acquire_Local show ?thesis by blast
next
  case (Acquire_Rpc l cs)
  have "\<not> has_room (RPCSem w)"
  proof
    assume "has_room (RPCSem w)"
    from Acquire_body_ready [OF this, of "with_ctx c host" "rpcConcurrent w" "env w"] obtain err s g e' where
      "Acquire_body (with_ctx c host) ((RPCSem w, rpcConcurrent w), env w) = Some (Inr (err, (s, g), e'))" .
    with assms(1,4) Acquire_Rpc show False by (cases err) (simp_all add: Let_def release_local_def Release_def)
  qed
  with Acquire_Rpc show ?thesis by blast
next
  case (Release_Both l cs bs till res)
  with assms show ?thesis by (auto simp: release_rpc_def release_local_def Release_def)
next
  case (Answered l cs bs till res)
  with assms(1,2) show ?thesis by (cases res) (auto simp: Let_def split: prod.splits option.splits if_splits)
qed (use assms(1) in \<open>auto simp: Let_def split: prod.splits option.splits if_splits sum.splits\<close>)

definition with_room :: "(('e, 'p) LogTask \<times> ('e, 'p) world) list \<Rightarrow> bool" where
  "with_room tws \<longleftrightarrow> (\<forall>(t, w) \<in> set tws. has_room (TaskLocalSem w))"

lemma goroutine_books:
  assumes "run_all_inv cap tws s" and "i < length (r_gos s)" and "view s (r_gos s ! i) = (pc, b, t, w, m)"
  shows "in_loop pc \<longrightarrow> PendingPool t \<noteq> None" "holds_rpc pc \<longrightarrow> 0 < sem_len (RPCSem w)"
    "holds_local pc \<longrightarrow> 0 < sem_len (TaskLocalSem w)" "with_room tws \<longrightarrow> \<not> holds_local pc \<longrightarrow> has_room (TaskLocalSem w)"
proof -
  from assms(1) obtain started where st: "tws = started @ r_todo s" "list_all2 local_inv started (r_gos s)"
    by (auto simp: run_all_inv_def tasks_ok_def)
  obtain t0 w0 where o0: "started ! i = (t0, w0)" by (rule prod.exhaust)
  have i: "i < length started" using list_all2_lengthD [OF st(2)] assms(2) by simp
  have li: "local_inv (t0, w0) (pc, b, t, w, m)"
    using view_local(1) [of _ s "r_gos s ! i"] list_all2_nthD2 [OF st(2) assms(2)] assms(3) o0 by metis
  show "in_loop pc \<longrightarrow> PendingPool t \<noteq> None" "holds_local pc \<longrightarrow> 0 < sem_len (TaskLocalSem w)"
    using li by (auto simp: local_inv_def trace_from_def)
  have "(t0, w0) \<in> set tws" using i o0 st(1) by (metis Un_iff nth_mem set_append)
  then show "with_room tws \<longrightarrow> \<not> holds_local pc \<longrightarrow> has_room (TaskLocalSem w)"
    using li by (auto simp: local_inv_def with_room_def has_room_def)
  have v: "fst (r_gos s ! i) = pc" "RPCSem w = r_RPCSem s" using assms(3) by (cases "r_gos s ! i"; auto simp: view_def)+
  show "holds_rpc pc \<longrightarrow> 0 < sem_len (RPCSem w)"
  proof
    assume "holds_rpc pc"
    with v assms(2) have "1 \<le> how_many (\<lambda>g. holds_rpc (fst g)) (r_gos s)" by (intro how_many_pos) auto
    with assms(1) v show "0 < sem_len (RPCSem w)" by (simp add: run_all_inv_def counts_ok_def)
  qed
qed

text \<open>A goroutine that holds a slot of the shared semaphore is never blocked.\<close>

lemma holder_steps:
  assumes "run_all_inv cap tws s" and "i < length (r_gos s)" and "holds_rpc (fst (r_gos s ! i))"
  shows "\<exists>s'. run_all_work host np s s'"
proof -
  obtain pc b t w m where v: "view s (r_gos s ! i) = (pc, b, t, w, m)" by (metis prod_cases5)
  have pc: "holds_rpc pc" using assms(3) view_local(2) [of s "r_gos s ! i"] v by simp
  have "gstep (with_ctx (r_ctx s) host) np (view s (r_gos s ! i)) \<noteq> None"
  proof
    assume "gstep (with_ctx (r_ctx s) host) np (view s (r_gos s ! i)) = None"
    from gstep_blocked [OF this [unfolded v] goroutine_books(1-3) [OF assms(1,2) v]] pc show False by auto
  qed
  with assms(2) show ?thesis by (blast intro: run_all_work.step)
qed

lemma run_all_progress:
  assumes "run_all_inv cap tws s" and "0 < cap" and "with_room tws" and "\<not> r_returned s"
  shows "\<exists>s'. run_all_work host np s s'"
proof -
  have wg: "r_wg s = how_many (\<lambda>g. \<not> over g) (r_gos s)" using assms(1) by (simp add: run_all_inv_def counts_ok_def)
  have nonneg: "0 \<le> r_wg s" unfolding wg by (rule how_many_nonneg)
  show ?thesis
  proof (cases "r_todo s")
    case (Cons tw rest)
    have "wg_Add 1 (r_wg s) = Some (r_wg s + 1)" using nonneg by (simp add: wg_Add_def)
    from run_all_work.start [OF Cons this] show ?thesis by blast
  next
    case Nil
    show ?thesis
    proof (cases "\<forall>g \<in> set (r_gos s). over g")
      case True
      then have "wg_Wait (r_wg s)" unfolding wg wg_Wait_def by (simp add: how_many_0)
      with Nil assms(4) show ?thesis by (blast intro: run_all_work.returns)
    next
      case False
      then obtain i where i: "i < length (r_gos s)" "\<not> over (r_gos s ! i)" by (auto simp: in_set_conv_nth)
      obtain pc b t w m where v: "view s (r_gos s ! i) = (pc, b, t, w, m)" by (metis prod_cases5)
      have pc: "fst (r_gos s ! i) = pc" using view_local(2) [of s "r_gos s ! i"] v by simp
      note books = goroutine_books [OF assms(1) i(1) v]
      consider (go) g where "gstep (with_ctx (r_ctx s) host) np (view s (r_gos s ! i)) = Some g"
        | (ret) "pc = Sup_Return" | (full) l cs where "pc = Acquire_Rpc l cs" "\<not> has_room (RPCSem w)"
        using gstep_blocked [of "r_ctx s" host np pc b t w m] books assms(3) v i(2) pc
        by (cases "gstep (with_ctx (r_ctx s) host) np (view s (r_gos s ! i))") (auto simp: over_def)
      then show ?thesis
      proof cases
        case go
        with i(1) show ?thesis by (blast intro: run_all_work.step)
      next
        case ret
        have "1 \<le> r_wg s" unfolding wg using i by (intro how_many_pos)
        then have "wg_Add (- 1) (r_wg s) = Some (r_wg s - 1)" by (simp add: wg_Add_def)
        moreover obtain r where "r_gos s ! i = (Sup_Return, r)" using ret pc by (cases "r_gos s ! i") auto
        ultimately show ?thesis using i(1) by (blast intro: run_all_work.wg_Done)
      next
        case full
        have "RPCSem w = r_RPCSem s" using v by (cases "r_gos s ! i") (auto simp: view_def)
        with full(2) assms(1,2) have "how_many (\<lambda>g. holds_rpc (fst g)) (r_gos s) \<noteq> 0"
          by (auto simp: run_all_inv_def counts_ok_def has_room_def)
        then obtain j where "j < length (r_gos s)" "holds_rpc (fst (r_gos s ! j))"
          by (auto simp: how_many_0 in_set_conv_nth)
        with holder_steps [OF assms(1)] show ?thesis by blast
      qed
    qed
  qed
qed

lemma run_all_left_bound:
  assumes "run_all_inv cap (zip ts ws) s" and "length ws = length ts"
  shows "run_all_left s \<le> 13 * length ts + 1"
proof -
  from assms(1) obtain started where st: "zip ts ws = started @ r_todo s" "list_all2 local_inv started (r_gos s)"
    by (auto simp: run_all_inv_def tasks_ok_def)
  have len: "length ts = length (r_gos s) + length (r_todo s)"
    using arg_cong [OF st(1), of length] list_all2_lengthD [OF st(2)] assms(2) by simp
  have pc: "pc_left pc \<le> 13" for pc by (cases pc) simp_all
  have "(\<Sum>g \<leftarrow> gs. pc_left (fst g)) \<le> 13 * length gs" for gs :: "(task_pc \<times> 'c) list"
    by (induction gs) (auto intro: add_mono pc)
  from this [of "r_gos s"] len show ?thesis unfolding run_all_left_def by (cases "r_returned s") simp_all
qed

abbreviation run_all_run ::
  "'e Host \<Rightarrow> 'p PendingPool \<times> 'p \<Rightarrow> ('e, 'p) run_all \<Rightarrow> nat \<Rightarrow> ('e, 'p) run_all \<Rightarrow> bool" where
  "run_all_run host np \<equiv> run_of (run_all_work host np) run_all_outside"

lemma run_all_invD:
  assumes "run_all_inv cap (zip ts ws) s" and "length ws = length ts"
  shows "length (r_gos s) + length (r_todo s) = length ts"
    and "i < length (r_gos s) \<Longrightarrow> local_inv (ts ! i, ws ! i) (r_gos s ! i)"
proof -
  from assms(1) obtain started where st: "zip ts ws = started @ r_todo s" "list_all2 local_inv started (r_gos s)"
    by (auto simp: run_all_inv_def tasks_ok_def)
  note len = list_all2_lengthD [OF st(2)]
  show sum: "length (r_gos s) + length (r_todo s) = length ts"
    using arg_cong [OF st(1), of length] len assms(2) by simp
  assume i: "i < length (r_gos s)"
  with len have "started ! i = zip ts ws ! i" unfolding st(1) by (simp add: nth_append)
  also have "\<dots> = (ts ! i, ws ! i)" using i sum assms(2) by simp
  finally show "local_inv (ts ! i, ws ! i) (r_gos s ! i)" using list_all2_nthD2 [OF st(2) i] by simp
qed

end
