(* ===== verification/Run_Schedules.thy ===== *)
theory Run_Schedules
  imports Run_All
begin

text \<open>
  The goroutine of a task against the restart loop \<open>supervise\<close>: without interference they return the same, so that
  the interleaved model of \<open>Run_All\<close> and the loops of \<open>Log_Task\<close> and \<open>Task_Runner\<close> are two views of one program. Then
  the properties of \<open>RunAll\<close> in every schedule.
\<close>

section \<open>One goroutine alone is the restart loop\<close>

text \<open>
  What the loops of \<open>Log_Task\<close> and \<open>supervise\<close> still have to do from each place of the goroutine.
\<close>

definition rest_waiting ::
  "'e Host \<Rightarrow> 'p PendingPool \<times> 'p \<Rightarrow> ('e, 'p) supervised \<Rightarrow> (('e, 'p) LogTask \<times> ('e, 'p) world \<times> supervisor) option" where
  "rest_waiting host np = (\<lambda>(b, t, w, m).
     let (done, e) = wait_for host b (env w); w = w\<lparr>env := e\<rparr> in
     case done of
       Some _ \<Rightarrow> Some (t, w, m)
     | None \<Rightarrow> go_loop (supervise_body host np) (next_backoff (MaxBackoff t) b, t, w, m))"

definition rest_ended ::
  "'e Host \<Rightarrow> 'p PendingPool \<times> 'p \<Rightarrow> go_error option \<Rightarrow> ('e, 'p) supervised \<Rightarrow>
     (('e, 'p) LogTask \<times> ('e, 'p) world \<times> supervisor) option" where
  "rest_ended host np err = (\<lambda>(b, t, w, m).
     let w = w\<lparr>taskHealth := 0, taskUnhealthyNs := 0\<rparr>; m = m\<lparr>taskRunning := taskRunning m - 1\<rparr>;
         (cerr, e) = ctx_Err host (env w); w = w\<lparr>env := e\<rparr>
     in if errors_Is err cerr then Some (t, w, m)
        else rest_waiting host np (b, t, w, m\<lparr>taskRestartTotal := Suc (taskRestartTotal m), restartTimers := restartTimers m @ [b]\<rparr>))"

definition rest_loop ::
  "'e Host \<Rightarrow> 'p PendingPool \<times> 'p \<Rightarrow> ('e, 'p) supervised \<Rightarrow> (('e, 'p) LogTask \<times> ('e, 'p) world \<times> supervisor) option" where
  "rest_loop host np = (\<lambda>(b, t, w, m).
     Option.bind (go_loop (TaskLoop_body host) (t, w)) (\<lambda>(err, t, w). rest_ended host np err (b, t, w, m)))"

definition rest_poll ::
  "'e Host \<Rightarrow> 'p PendingPool \<times> 'p \<Rightarrow> ('e, 'p) supervised \<Rightarrow> (('e, 'p) LogTask \<times> ('e, 'p) world \<times> supervisor) option" where
  "rest_poll host np = (\<lambda>(b, t, w, m).
     let (done, e) = wait_for host (LivePollInterval t) (env w); w = w\<lparr>env := e\<rparr> in
     case done of
       Some err \<Rightarrow> rest_ended host np (Some err) (b, t, w, m)
     | None \<Rightarrow> rest_loop host np (b, t, w, m))"

definition rest_round ::
  "'e Host \<Rightarrow> 'p PendingPool \<times> 'p \<Rightarrow> bool go_result \<Rightarrow> ('e, 'p) supervised \<Rightarrow>
     (('e, 'p) LogTask \<times> ('e, 'p) world \<times> supervisor) option" where
  "rest_round host np res x = (case after_round host res x of
     (Loop_Ended err, y) \<Rightarrow> rest_ended host np err y
   | (Loop_Poll, y) \<Rightarrow> rest_poll host np y
   | (_, y) \<Rightarrow> rest_loop host np y)"

definition rest_cursor ::
  "'e Host \<Rightarrow> 'p PendingPool \<times> 'p \<Rightarrow> u64 \<Rightarrow> u64 \<Rightarrow> ('e, 'p) supervised \<Rightarrow>
     (('e, 'p) LogTask \<times> ('e, 'p) world \<times> supervisor) option" where
  "rest_cursor host np l cs = (\<lambda>(b, t, w, m).
     Option.bind (go_loop (RunOnce_body host l) (t, cs, w)) (\<lambda>(res, t, w). rest_round host np res (b, t, w, m)))"

text \<open>The loop that \<open>TaskLoop\<close> is, with the result of a round left open.\<close>

lemma rest_loop_round:
  assumes "ctx_Err host (env w) = (None, e)" and "RunOnce host t (w\<lparr>env := e\<rparr>) = r"
  shows "rest_loop host np (b, t, w, m) = Option.bind r (\<lambda>(res, t, w). rest_round host np res (b, t, w, m))"
proof (cases r)
  case None
  with assms show ?thesis by (simp add: rest_loop_def go_loop_None TaskLoop_body_def)
next
  case (Some x)
  obtain res t1 w1 where x: "x = (res, t1, w1)" by (metis prod_cases3)
  obtain wt e1 where wt: "wait_for host (LivePollInterval t1) (env w1) = (wt, e1)" by fastforce
  show ?thesis
  proof (cases res)
    case (Inl err)
    with assms Some x show ?thesis
      by (simp add: rest_loop_def rest_round_def after_round_def go_loop.simps [of "TaskLoop_body host"]
          fun_cong [OF TaskLoop_body_def] Let_def split: option.splits prod.splits)
  next
    case (Inr c)
    with assms Some x wt show ?thesis
      by (simp add: rest_loop_def rest_round_def rest_poll_def after_round_def go_loop.simps [of "TaskLoop_body host"]
          fun_cong [OF TaskLoop_body_def] Let_def split: option.splits prod.splits)
  qed
qed

definition rest_answered ::
  "'e Host \<Rightarrow> 'p PendingPool \<times> 'p \<Rightarrow> u64 \<Rightarrow> u64 \<Rightarrow> int \<Rightarrow> ('e, 'p) LogTask \<Rightarrow> supervisor \<Rightarrow>
     (int \<times> u64 \<times> LogResult list go_result) go_result \<times> ('e, 'p) world \<Rightarrow> (('e, 'p) LogTask \<times> ('e, 'p) world \<times> supervisor) option" where
  "rest_answered host np l cs b t m = (\<lambda>(fetched, w).
     case fetched of
       Inl err \<Rightarrow> rest_round host np (Inl err) (b, t, w, m)
     | Inr (batchStart, till, Inl err) \<Rightarrow>
         let w = w\<lparr>rpcFail := Suc (rpcFail w)\<rparr> in
         if IsRateLimitOrRangeErr (Some err) then
           let t = t\<lparr>BatchSize := BatchSize t div 2\<rparr> in
           if BatchSize t < 1
           then rest_round host np (Inl (Err_Wrap ''batch reduced to 1, still failing: '' err [])) (b, t, w, m)
           else rest_cursor host np l cs (b, t, w, m)
         else rest_round host np (Inl (Err_Wrap ''rpc query: '' err [])) (b, t, w, m)
     | Inr (batchStart, till, Inr logs) \<Rightarrow>
         let w = w\<lparr>rpcOk := Suc (rpcOk w)\<rparr> in
         case PendingPool t of
           None \<Rightarrow> None
         | Some P \<Rightarrow>
             (case process_batch l P t cs till logs w of
                (Some err, t, w) \<Rightarrow> rest_round host np (Inl err) (b, t, w, m)
              | (None, t, w) \<Rightarrow> rest_cursor host np l (till + 1) (b, t, record_batch host P batchStart w, m)))"

lemma rest_cursor_fetch:
  assumes "\<not> l < cs" and "ctx_Err host (env w) = (None, e)"
  shows "rest_cursor host np l cs (b, t, w, m) =
    Option.bind (locked_fetch host l t cs (w\<lparr>env := e\<rparr>)) (rest_answered host np l cs b t m)"
proof (cases "locked_fetch host l t cs (w\<lparr>env := e\<rparr>)")
  case None
  with assms show ?thesis by (simp add: rest_cursor_def go_loop_None RunOnce_body_def)
next
  case (Some x)
  obtain fetched w1 where x: "x = (fetched, w1)" by (rule prod.exhaust)
  show ?thesis
  proof (cases fetched)
    case (Inl err)
    with assms Some x show ?thesis
      by (simp add: rest_cursor_def rest_answered_def go_loop_Inr RunOnce_body_def)
  next
    case (Inr f)
    obtain bs till res where f: "f = (bs, till, res)" by (metis prod_cases3)
    show ?thesis
    proof (cases res)
      case (Inl err)
      with assms Some x Inr f show ?thesis
        by (simp add: rest_cursor_def rest_answered_def go_loop.simps [of "RunOnce_body host l"] fun_cong [OF RunOnce_body_def] Let_def)
    next
      case ok: (Inr logs)
      show ?thesis
      proof (cases "PendingPool t")
        case None
        with assms Some x Inr f ok show ?thesis
          by (simp add: rest_cursor_def rest_answered_def go_loop_None RunOnce_body_def)
      next
        case P: (Some P)
        obtain err t1 w2 where "process_batch l P t cs till logs (w1\<lparr>rpcOk := Suc (rpcOk w1)\<rparr>) = (err, t1, w2)"
          by (metis prod_cases3)
        with assms Some x Inr f ok P show ?thesis
          by (cases err) (simp_all add: rest_cursor_def rest_answered_def go_loop.simps [of "RunOnce_body host l" "(t, cs, w)"] fun_cong [OF RunOnce_body_def] Let_def)
      qed
    qed
  qed
qed

definition rest_query ::
  "'e Host \<Rightarrow> 'p PendingPool \<times> 'p \<Rightarrow> u64 \<Rightarrow> u64 \<Rightarrow> ('e, 'p) supervised \<Rightarrow> (('e, 'p) LogTask \<times> ('e, 'p) world \<times> supervisor) option" where
  "rest_query host np l cs = (\<lambda>(b, t, w, m).
     let (batchStart, e) = time_Now host (env w); till = batch_end l cs (BatchSize t);
         (res, e) = rpc_EthGetLogs (RPC t) cs till (Address t) (Topics t) e;
         w = w\<lparr>env := e, trace := trace w @ [Call_EthGetLogs cs till res]\<rparr>
     in Option.bind (release_rpc w) (\<lambda>w. Option.bind (release_local w)
          (\<lambda>w. rest_answered host np l cs b t m (Inr (batchStart, till, res), w))))"

definition rest_locked ::
  "'e Host \<Rightarrow> 'p PendingPool \<times> 'p \<Rightarrow> u64 \<Rightarrow> u64 \<Rightarrow> ('e, 'p) supervised \<Rightarrow> (('e, 'p) LogTask \<times> ('e, 'p) world \<times> supervisor) option" where
  "rest_locked host np l cs = (\<lambda>(b, t, w, m). Option.bind (acquire_rpc host w) (\<lambda>(gerr, w).
     case gerr of
       Some err \<Rightarrow> Option.bind (release_local w) (\<lambda>w. rest_answered host np l cs b t m (Inl err, w))
     | None \<Rightarrow> rest_query host np l cs (b, t, w, m)))"

fun rest_of ::
  "'e Host \<Rightarrow> 'p PendingPool \<times> 'p \<Rightarrow> ('e, 'p) gor \<Rightarrow> (('e, 'p) LogTask \<times> ('e, 'p) world \<times> supervisor) option" where
  "rest_of host np (Sup_Top, x) = go_loop (supervise_body host np) x"
| "rest_of host np (Loop_Top, x) = rest_loop host np x"
| "rest_of host np (Loop_Head, b, t, w, m) =
     Option.bind (RunOnce host t w) (\<lambda>(res, t, w). rest_round host np res (b, t, w, m))"
| "rest_of host np (Round_Top l cs, x) = rest_cursor host np l cs x"
| "rest_of host np (Acquire_Local l cs, b, t, w, m) = Option.bind (locked_fetch host l t cs w) (rest_answered host np l cs b t m)"
| "rest_of host np (Acquire_Rpc l cs, x) = rest_locked host np l cs x"
| "rest_of host np (Query l cs, x) = rest_query host np l cs x"
| "rest_of host np (Release_Both l cs bs till res, b, t, w, m) =
     Option.bind (release_rpc w) (\<lambda>w. Option.bind (release_local w) (\<lambda>w. rest_answered host np l cs b t m (Inr (bs, till, res), w)))"
| "rest_of host np (Answered l cs bs till res, b, t, w, m) = rest_answered host np l cs b t m (Inr (bs, till, res), w)"
| "rest_of host np (Loop_Poll, x) = rest_poll host np x"
| "rest_of host np (Loop_Ended err, x) = rest_ended host np err x"
| "rest_of host np (Sup_Wait, x) = rest_waiting host np x"
| "rest_of host np (Sup_Return, b, t, w, m) = Some (t, w, m)"
| "rest_of host np (Sup_Over, b, t, w, m) = Some (t, w, m)"

lemma rest_after_round: "rest_of host np (after_round host res x) = rest_round host np res x"
proof -
  obtain pc b t w m where g: "after_round host res x = (pc, b, t, w, m)" by (metis prod_cases5)
  obtain b0 t0 w0 m0 where x: "x = (b0, t0, w0, m0)" by (metis prod_cases4)
  from after_round_cases [OF g [unfolded x]] show ?thesis unfolding rest_round_def g by auto
qed

lemma rest_answered_error [simp]: "rest_answered host np l cs b t m (Inl err, w) = rest_round host np (Inl err) (b, t, w, m)"
  by (simp add: rest_answered_def)

lemma locked_fetch_rest:
  assumes "acquire_local host w = Some (lerr, w1)"
  shows "Option.bind (locked_fetch host l t cs w) (rest_answered host np l cs b t m) =
    (case lerr of Some err \<Rightarrow> rest_answered host np l cs b t m (Inl err, w1) | None \<Rightarrow> rest_locked host np l cs (b, t, w1, m))"
  using assms
  by (auto simp: locked_fetch_def rest_locked_def rest_query_def Let_def map_option_case case_prod_beta
      split: option.splits bind_split)

lemma acquire_select:
  "Acquire_body host ((TaskLocalSem w, rpcConcurrent w), env w) = Some (Inr (err, (s, g), e)) \<Longrightarrow>
     acquire_local host w = Some (err, w\<lparr>TaskLocalSem := s, rpcConcurrent := g, env := e\<rparr>)"
  "Acquire_body host ((RPCSem w, rpcConcurrent w), env w) = Some (Inr (err, (s, g), e)) \<Longrightarrow>
     acquire_rpc host w = Some (err, w\<lparr>RPCSem := s, rpcConcurrent := g, env := e\<rparr>)"
  by (auto simp: acquire_local_def acquire_rpc_def Acquire_def dest!: go_loop_Inr)

lemma supervise_step_rest:
  assumes "ctx_Err host (env w) = (None, e)" and "loop_enter np t (w\<lparr>env := e\<rparr>) = (t1, w1)"
  shows "go_loop (supervise_body host np) (b, t, w, m) = rest_loop host np (b, t1, w1, m\<lparr>taskRunning := taskRunning m + 1\<rparr>)"
proof -
  have tl: "TaskLoop host np t (w\<lparr>env := e\<rparr>) = map_option (\<lambda>(err, t, w). (err, t, w\<lparr>taskHealth := 0, taskUnhealthyNs := 0\<rparr>))
      (go_loop (TaskLoop_body host) (t1, w1))"
    using assms(2) by (cases "PendingPool t") (auto simp: TaskLoop_def loop_enter_def Let_def)
  show ?thesis
  proof (cases "go_loop (TaskLoop_body host) (t1, w1)")
    case None
    with assms(1) tl show ?thesis by (simp add: rest_loop_def go_loop_None supervise_body_def)
  next
    case (Some x)
    obtain err t2 w2 where x: "x = (err, t2, w2)" by (metis prod_cases3)
    obtain cerr e2 where c: "ctx_Err host (env w2) = (cerr, e2)" by fastforce
    obtain dn e3 where wt: "wait_for host b e2 = (dn, e3)" by fastforce
    show ?thesis
      using assms(1) tl Some x c wt
      by (simp add: rest_loop_def rest_ended_def rest_waiting_def go_loop.simps [of "supervise_body host np" "(b, t, w, m)"]
          fun_cong [OF supervise_body_def] Let_def split: option.splits)
  qed
qed

lemma gstep_rest:
  assumes "gstep host np (pc, b, t, w, m) = Some g"
  shows "rest_of host np (pc, b, t, w, m) = rest_of host np g"
proof (cases pc)
  case Sup_Top
  obtain dn e where c: "ctx_Err host (env w) = (dn, e)" by fastforce
  obtain t1 w1 where le: "loop_enter np t (w\<lparr>env := e\<rparr>) = (t1, w1)" by fastforce
  show ?thesis
  proof (cases dn)
    case None
    with assms Sup_Top c le supervise_step_rest [of host w e np t t1 w1 b m] show ?thesis by auto
  next
    case (Some x)
    with assms Sup_Top c show ?thesis by (auto simp: go_loop_Inr supervise_body_def)
  qed
next
  case Loop_Top
  obtain dn e where c: "ctx_Err host (env w) = (dn, e)" by fastforce
  show ?thesis
  proof (cases dn)
    case None
    with assms Loop_Top c show ?thesis by (auto simp: rest_loop_round [OF _ refl])
  next
    case (Some err)
    with assms Loop_Top c show ?thesis by (auto simp: rest_loop_def go_loop_Inr TaskLoop_body_def)
  qed
next
  case Loop_Head
  with assms show ?thesis
    by (auto simp: RunOnce_def Let_def rest_after_round rest_cursor_def split: prod.splits sum.splits if_splits)
next
  case (Round_Top l cs)
  obtain dn e where c: "ctx_Err host (env w) = (dn, e)" by fastforce
  show ?thesis
  proof (cases "l < cs \<or> dn \<noteq> None")
    case True
    define out where "out = (if l < cs then (Inr True, t, w) else (Inl (the dn), t, w\<lparr>env := e\<rparr>))"
    have "RunOnce_body host l (t, cs, w) = Some (Inr out)" using True c by (auto simp: RunOnce_body_def out_def)
    from go_loop_Inr [where body = "RunOnce_body host l", OF this] assms Round_Top c True show ?thesis
      by (auto simp: rest_cursor_def rest_after_round out_def split: if_splits)
  next
    case False
    with assms Round_Top c show ?thesis by (auto simp: rest_cursor_fetch)
  qed
next
  case (Acquire_Local l cs)
  from assms Acquire_Local obtain err s g1 e where
    a: "Acquire_body host ((TaskLocalSem w, rpcConcurrent w), env w) = Some (Inr (err, (s, g1), e))"
    by (auto split: option.splits sum.splits prod.splits)
  with assms Acquire_Local show ?thesis
    by (cases err) (auto simp: locked_fetch_rest [OF acquire_select(1) [OF a]] Let_def rest_after_round)
next
  case (Acquire_Rpc l cs)
  from assms Acquire_Rpc obtain err s g1 e where
    a: "Acquire_body host ((RPCSem w, rpcConcurrent w), env w) = Some (Inr (err, (s, g1), e))"
    by (auto split: option.splits sum.splits prod.splits)
  with assms Acquire_Rpc show ?thesis
    by (cases err) (auto simp: rest_locked_def acquire_select(2) [OF a] Let_def rest_after_round bind_eq_Some_conv)
next
  case (Query l cs)
  with assms show ?thesis by (auto simp: rest_query_def Let_def split: prod.splits)
next
  case (Release_Both l cs bs till res)
  with assms show ?thesis by (auto simp: bind_eq_Some_conv)
next
  case (Answered l cs bs till res)
  with assms show ?thesis
    by (cases res) (auto simp: rest_answered_def Let_def rest_after_round split: option.splits prod.splits if_splits)
next
  case Loop_Poll
  with assms show ?thesis by (auto simp: rest_poll_def Let_def split: option.splits prod.splits)
next
  case (Loop_Ended err)
  with assms show ?thesis by (auto simp: rest_ended_def Let_def split: prod.splits if_splits)
next
  case Sup_Wait
  with assms show ?thesis by (auto simp: rest_waiting_def Let_def split: option.splits prod.splits)
qed (use assms in auto)

text \<open>The steps of a goroutine that nothing interferes with.\<close>

inductive alone :: "'e Host \<Rightarrow> 'p PendingPool \<times> 'p \<Rightarrow> ('e, 'p) gor \<Rightarrow> ('e, 'p) gor \<Rightarrow> bool" for host np g where
  here: "alone host np g g"
| one: "alone host np g g1 \<Longrightarrow> gstep host np g1 = Some g2 \<Longrightarrow> alone host np g g2"

lemma alone_rest: "alone host np g g' \<Longrightarrow> rest_of host np g = rest_of host np g'"
proof (induction rule: alone.induct)
  case (one g1 g2)
  then show ?case using gstep_rest [of host np] by (metis prod_cases5)
qed simp

lemma alone_trans: "alone host np g1 g2 \<Longrightarrow> alone host np g0 g1 \<Longrightarrow> alone host np g0 g2"
  by (induction rule: alone.induct) (auto intro: alone.intros)

lemma alone_step: "gstep host np g = Some g1 \<Longrightarrow> alone host np g1 g2 \<Longrightarrow> alone host np g g2"
  by (rule alone_trans) (auto intro: alone.one [OF alone.here])

text \<open>Room in both semaphores: then nothing blocks a goroutine that is alone.\<close>

definition roomy :: "('e, 'p) world \<Rightarrow> bool" where
  "roomy w \<longleftrightarrow> has_room (TaskLocalSem w) \<and> has_room (RPCSem w)"

lemma roomy_sems: "sems w' = sems w \<Longrightarrow> roomy w' = roomy w"
  by (simp add: roomy_def)

lemma locked_alone:
  assumes "roomy w" and "locked_fetch host l t cs w = Some (f, w')"
  shows "alone host np (Acquire_Local l cs, b, t, w, m) (case f of
      Inl err \<Rightarrow> after_round host (Inl err) (b, t, w', m)
    | Inr (bs, till, res) \<Rightarrow> (Answered l cs bs till res, b, t, w', m))"
proof -
  from assms(1) obtain lerr s g e where
    a: "Acquire_body host ((TaskLocalSem w, rpcConcurrent w), env w) = Some (Inr (lerr, (s, g), e))"
    using Acquire_body_ready [of "TaskLocalSem w" host "rpcConcurrent w" "env w"] unfolding roomy_def by blast
  let ?w = "w\<lparr>TaskLocalSem := s, rpcConcurrent := g, env := e\<rparr>"
  show ?thesis
  proof (cases lerr)
    case (Some err)
    with assms(2) a acquire_select(1) [OF a] show ?thesis
      by (auto simp: locked_fetch_def Let_def intro!: alone_step [OF _ alone.here])
  next
    case None
    have "has_room (RPCSem ?w)" using assms(1) by (simp add: roomy_def)
    then obtain gerr s2 g2 e2 where
      a2: "Acquire_body host ((RPCSem ?w, rpcConcurrent ?w), env ?w) = Some (Inr (gerr, (s2, g2), e2))"
      by (rule Acquire_body_ready)
    let ?w2 = "?w\<lparr>RPCSem := s2, rpcConcurrent := g2, env := e2\<rparr>"
    have first: "gstep host np (Acquire_Local l cs, b, t, w, m) = Some (Acquire_Rpc l cs, b, t, ?w, m)"
      using a None by simp
    show ?thesis
    proof (cases gerr)
      case (Some err)
      with assms(2) None a2 acquire_select(1) [OF a] acquire_select(2) [OF a2] obtain w3 where
        "release_local ?w2 = Some w3" "f = Inl err" "w' = w3" by (auto simp: locked_fetch_def)
      then have "gstep host np (Acquire_Rpc l cs, b, t, ?w, m) = Some (after_round host (Inl err) (b, t, w', m))"
        using a2 Some by simp
      from alone_step [OF first alone_step [OF this alone.here]] show ?thesis using \<open>f = Inl err\<close> by simp
    next
      case ok: None
      obtain bs e3 where tm: "time_Now host e2 = (bs, e3)" by fastforce
      let ?till = "batch_end l cs (BatchSize t)"
      obtain res e4 where q: "rpc_EthGetLogs (RPC t) cs ?till (Address t) (Topics t) e3 = (res, e4)" by fastforce
      let ?w3 = "?w2\<lparr>env := e4, trace := trace ?w2 @ [Call_EthGetLogs cs ?till res]\<rparr>"
      from assms(2) None ok tm q acquire_select(1) [OF a] acquire_select(2) [OF a2] obtain w4 where
        r: "release_rpc ?w3 = Some w4" "release_local w4 = Some w'" "f = Inr (bs, ?till, res)"
        by (auto simp: locked_fetch_def Let_def bind_eq_Some_conv)
      have second: "gstep host np (Acquire_Rpc l cs, b, t, ?w, m) = Some (Query l cs, b, t, ?w2, m)" using a2 ok by simp
      have third: "gstep host np (Query l cs, b, t, ?w2, m) = Some (Release_Both l cs bs ?till res, b, t, ?w3, m)"
        using tm q by (simp add: Let_def)
      have "gstep host np (Release_Both l cs bs ?till res, b, t, ?w3, m) = Some (Answered l cs bs ?till res, b, t, w', m)"
        using r by simp
      from alone_step [OF first alone_step [OF second alone_step [OF third alone_step [OF this alone.here]]]] r(3)
      show ?thesis by simp
    qed
  qed
qed

definition next_in_round :: "'e Host \<Rightarrow> u64 \<Rightarrow> int \<Rightarrow> supervisor \<Rightarrow> ('e, 'p) round + ('e, 'p) outcome \<Rightarrow> ('e, 'p) gor" where
  "next_in_round host l b m x = (case x of
     Inl (t, cs, w) \<Rightarrow> (Round_Top l cs, b, t, w, m)
   | Inr (res, t, w) \<Rightarrow> after_round host res (b, t, w, m))"

lemma body_alone:
  assumes "roomy w" and "RunOnce_body host l (t, cs, w) = Some x"
  shows "alone host np (Round_Top l cs, b, t, w, m) (next_in_round host l b m x)"
proof -
  obtain dn e where c: "ctx_Err host (env w) = (dn, e)" by fastforce
  show ?thesis
  proof (cases "l < cs \<or> dn \<noteq> None")
    case True
    with assms(2) c show ?thesis
      by (auto simp: RunOnce_body_def next_in_round_def intro!: alone_step [OF _ alone.here])
  next
    case False
    let ?w = "w\<lparr>env := e\<rparr>"
    have first: "gstep host np (Round_Top l cs, b, t, w, m) = Some (Acquire_Local l cs, b, t, ?w, m)" using False c by simp
    obtain f w1 where f: "locked_fetch host l t cs ?w = Some (f, w1)"
      using assms(2) False c by (auto simp: RunOnce_body_def bind_eq_Some_conv)
    have "roomy ?w" using assms(1) by (simp add: roomy_def)
    note lk = locked_alone [OF this f, of np b m]
    show ?thesis
    proof (cases f)
      case (Inl err)
      with assms(2) False c f have "x = Inr (Inl err, t, w1)" by (simp add: RunOnce_body_def)
      with lk Inl show ?thesis by (auto simp: next_in_round_def intro: alone_step [OF first])
    next
      case (Inr y)
      obtain bs till res where y: "y = (bs, till, res)" by (metis prod_cases3)
      have "gstep host np (Answered l cs bs till res, b, t, w1, m) = Some (next_in_round host l b m x)"
        using assms(2) False c f Inr y
        by (cases res) (auto simp: RunOnce_body_def next_in_round_def Let_def split: option.splits prod.splits if_splits)
      then have "alone host np (Answered l cs bs till res, b, t, w1, m) (next_in_round host l b m x)"
        by (rule alone_step [OF _ alone.here])
      with lk Inr y have "alone host np (Acquire_Local l cs, b, t, ?w, m) (next_in_round host l b m x)"
        by (simp add: alone_trans)
      then show ?thesis by (rule alone_step [OF first])
    qed
  qed
qed

lemma round_alone:
  assumes "loop_run (RunOnce_body host l) s r" and "roomy (snd (snd s))"
  shows "alone host np (Round_Top l (fst (snd s)), b, fst s, snd (snd s), m) (next_in_round host l b m (Inr r))"
  using assms
proof (induction rule: loop_run.induct)
  case (leave s r)
  then show ?case using body_alone [of "snd (snd s)" host l "fst s" "fst (snd s)" "Inr r" np b m] by simp
next
  case (again s s' r)
  obtain t cs w t' cs' w' where s: "s = (t, cs, w)" "s' = (t', cs', w')" by (cases s; cases s')
  have "sems w' = sems w" using RunOnce_body_inv [OF again.hyps(1) [unfolded s]] by (auto simp: round_inv_def extends_def)
  with again s have "alone host np (Round_Top l cs', b, t', w', m) (next_in_round host l b m (Inr r))"
    using roomy_sems [of w' w] by simp
  moreover have "alone host np (Round_Top l cs, b, t, w, m) (Round_Top l cs', b, t', w', m)"
    using body_alone [of w host l t cs "Inl s'" np b m] again s by (simp add: next_in_round_def)
  ultimately show ?case using s by (auto intro: alone_trans)
qed

lemma RunOnce_alone:
  assumes "roomy w" and "RunOnce host t w = Some (res, t', w')"
  shows "alone host np (Loop_Head, b, t, w, m) (after_round host res (b, t', w', m))"
proof -
  obtain bres e where b: "rpc_BlockNumber (RPC t) (env w) = (bres, e)" by fastforce
  show ?thesis
  proof (cases "\<exists>l. bres = Inr l \<and> \<not> l < Checkpoint t")
    case False
    with assms(2) b show ?thesis
      by (cases bres) (auto simp: RunOnce_def Let_def intro!: alone_step [OF _ alone.here])
  next
    case True
    then obtain l where l: "bres = Inr l" "\<not> l < Checkpoint t" by blast
    let ?w = "w\<lparr>env := e, trace := trace w @ [Call_BlockNumber (Inr l)], rpcOk := Suc (rpcOk w)\<rparr>"
    have "loop_run (RunOnce_body host l) (t, Checkpoint t, ?w) (res, t', w')"
      using assms(2) b l by (simp add: RunOnce_def Let_def go_loop_run)
    from round_alone [OF this, of np b m] assms(1)
    have "alone host np (Round_Top l (Checkpoint t), b, t, ?w, m) (after_round host res (b, t', w', m))"
      by (simp add: roomy_def next_in_round_def)
    moreover have "gstep host np (Loop_Head, b, t, w, m) = Some (Round_Top l (Checkpoint t), b, t, ?w, m)"
      using b l by (simp add: Let_def)
    ultimately show ?thesis by (blast intro: alone_step)
  qed
qed

definition next_in_loop :: "int \<Rightarrow> supervisor \<Rightarrow>
    ('e, 'p) LogTask \<times> ('e, 'p) world + go_error option \<times> ('e, 'p) LogTask \<times> ('e, 'p) world \<Rightarrow> ('e, 'p) gor" where
  "next_in_loop b m x = (case x of Inl (t, w) \<Rightarrow> (Loop_Top, b, t, w, m) | Inr (err, t, w) \<Rightarrow> (Loop_Ended err, b, t, w, m))"

lemma TaskLoop_body_alone:
  assumes "roomy w" and "TaskLoop_body host (t, w) = Some x"
  shows "alone host np (Loop_Top, b, t, w, m) (next_in_loop b m x)"
proof -
  obtain dn e where c: "ctx_Err host (env w) = (dn, e)" by fastforce
  show ?thesis
  proof (cases dn)
    case (Some err)
    with assms(2) c have "gstep host np (Loop_Top, b, t, w, m) = Some (next_in_loop b m x)"
      by (auto simp: TaskLoop_body_def next_in_loop_def)
    then show ?thesis by (rule alone_step [OF _ alone.here])
  next
    case None
    let ?w = "w\<lparr>env := e\<rparr>"
    have first: "gstep host np (Loop_Top, b, t, w, m) = Some (Loop_Head, b, t, ?w, m)" using c None by simp
    obtain res t1 w1 where r: "RunOnce host t ?w = Some (res, t1, w1)"
      using assms(2) c None by (auto simp: TaskLoop_body_def bind_eq_Some_conv)
    have "roomy ?w" using assms(1) by (simp add: roomy_def)
    note run = alone_step [OF first RunOnce_alone [OF this r, of np b m]]
    have "alone host np (after_round host res (b, t1, w1, m)) (next_in_loop b m x)"
    proof (cases "\<exists>c. res = Inr c \<and> LiveMode t1 \<and> c")
      case False
      then have "after_round host res (b, t1, w1, m) = next_in_loop b m x"
        using assms(2) c None r
        by (auto simp: TaskLoop_body_def next_in_loop_def after_round_def Let_def split: sum.splits option.splits prod.splits if_splits)
      then show ?thesis by (simp add: alone.here)
    next
      case True
      then have "gstep host np (after_round host res (b, t1, w1, m)) = Some (next_in_loop b m x)"
        using assms(2) c None r
        by (auto simp: TaskLoop_body_def next_in_loop_def after_round_def Let_def split: option.splits prod.splits)
      then show ?thesis by (rule alone_step [OF _ alone.here])
    qed
    then show ?thesis using run by (rule alone_trans)
  qed
qed

lemma TaskLoop_alone:
  assumes "loop_run (TaskLoop_body host) s r" and "roomy (snd s)"
  shows "alone host np (Loop_Top, b, fst s, snd s, m) (next_in_loop b m (Inr r))"
  using assms
proof (induction rule: loop_run.induct)
  case (leave s r)
  then show ?case using TaskLoop_body_alone [of "snd s" host "fst s" "Inr r" np b m] by simp
next
  case (again s s' r)
  obtain t w t' w' where s: "s = (t, w)" "s' = (t', w')" by (cases s; cases s')
  have "sems w' = sems w"
    using TaskLoop_body_inv [OF again.hyps(1) [unfolded s]] by (auto simp: task_inv_def extends_def)
  with again s have "alone host np (Loop_Top, b, t', w', m) (next_in_loop b m (Inr r))"
    using roomy_sems [of w' w] by simp
  moreover have "alone host np (Loop_Top, b, t, w, m) (Loop_Top, b, t', w', m)"
    using TaskLoop_body_alone [of w host t "Inl s'" np b m] again s by (simp add: next_in_loop_def)
  ultimately show ?case using s by (auto intro: alone_trans)
qed

definition next_in_supervise ::
  "('e, 'p) supervised + ('e, 'p) LogTask \<times> ('e, 'p) world \<times> supervisor \<Rightarrow> ('e, 'p) gor \<Rightarrow> bool" where
  "next_in_supervise x g \<longleftrightarrow> (case x of Inl y \<Rightarrow> g = (Sup_Top, y) | Inr y \<Rightarrow> (\<exists>b. g = (Sup_Return, b, y)))"

lemma supervise_body_alone:
  assumes "roomy w" and "supervise_body host np (b, t, w, m) = Some x"
  shows "\<exists>g. next_in_supervise x g \<and> alone host np (Sup_Top, b, t, w, m) g"
proof -
  obtain dn e where c: "ctx_Err host (env w) = (dn, e)" by fastforce
  let ?w = "w\<lparr>env := e\<rparr>" and ?m = "m\<lparr>taskRunning := taskRunning m + 1\<rparr>"
  obtain t1 w1 where le: "loop_enter np t ?w = (t1, w1)" by fastforce
  show ?thesis
  proof (cases dn)
    case (Some err)
    with assms(2) c have "gstep host np (Sup_Top, b, t, w, m) = Some (Sup_Return, b, t, ?w, m)" "x = Inr (t, ?w, m)"
      by (auto simp: supervise_body_def)
    with alone_step [OF this(1) alone.here] show ?thesis by (auto simp: next_in_supervise_def)
  next
    case None
    have first: "gstep host np (Sup_Top, b, t, w, m) = Some (Loop_Top, b, t1, w1, ?m)" using c None le by simp
    obtain err t2 w2 where lp: "go_loop (TaskLoop_body host) (t1, w1) = Some (err, t2, w2)"
        "TaskLoop host np t ?w = Some (err, t2, w2\<lparr>taskHealth := 0, taskUnhealthyNs := 0\<rparr>)"
      using assms(2) c None le
      by (cases "PendingPool t") (auto simp: supervise_body_def TaskLoop_def loop_enter_def Let_def bind_eq_Some_conv)
    have "roomy w1" using loop_enter_cases [OF le] assms(1) by (simp add: roomy_def)
    with TaskLoop_alone [OF go_loop_run [OF lp(1)], of np b ?m]
    have run: "alone host np (Sup_Top, b, t, w, m) (Loop_Ended err, b, t2, w2, ?m)"
      by (intro alone_step [OF first]) (simp add: next_in_loop_def)
    obtain cerr e2 where c2: "ctx_Err host (env w2) = (cerr, e2)" by fastforce
    obtain wt e3 where wt: "wait_for host b e2 = (wt, e3)" by fastforce
    have "\<exists>g. next_in_supervise x g \<and> alone host np (Loop_Ended err, b, t2, w2, ?m) g"
    proof (cases "errors_Is err cerr")
      case True
      then show ?thesis using assms(2) c None lp(2) c2
        by (intro exI conjI [OF _ alone_step [OF _ alone.here]]) (auto simp: supervise_body_def next_in_supervise_def Let_def)
    next
      case False
      let ?w3 = "w2\<lparr>taskHealth := 0, taskUnhealthyNs := 0, env := e2\<rparr>"
      let ?m3 = "m\<lparr>taskRestartTotal := Suc (taskRestartTotal m), restartTimers := restartTimers m @ [b]\<rparr>"
      have "gstep host np (Loop_Ended err, b, t2, w2, ?m) = Some (Sup_Wait, b, t2, ?w3, ?m3)" using False c2 by (simp add: Let_def)
      moreover have "\<exists>g. next_in_supervise x g \<and> gstep host np (Sup_Wait, b, t2, ?w3, ?m3) = Some g"
        using False assms(2) c None lp(2) c2 wt
        by (cases wt) (auto simp: supervise_body_def next_in_supervise_def Let_def)
      ultimately show ?thesis by (meson alone_step alone.here)
    qed
    with run show ?thesis by (blast intro: alone_trans)
  qed
qed

lemma supervise_alone:
  assumes "loop_run (supervise_body host np) s r" and "roomy (fst (snd (snd s)))"
  shows "\<exists>b. alone host np (Sup_Top, s) (Sup_Return, b, r)"
  using assms
proof (induction rule: loop_run.induct)
  case (leave s r)
  obtain b t w m where s: "s = (b, t, w, m)" by (cases s)
  from leave supervise_body_alone [of w host np b t m "Inr r"] show ?case by (auto simp: s next_in_supervise_def)
next
  case (again s s' r)
  obtain b t w m b' t' w' m' where s: "s = (b, t, w, m)" "s' = (b', t', w', m')" by (cases s; cases s')
  have "sems w' = sems w"
    using supervise_body_inv [OF again.hyps(1) [unfolded s]] by (auto simp: task_inv_def extends_def)
  with again s obtain b1 where "alone host np (Sup_Top, s') (Sup_Return, b1, r)" using roomy_sems [of w' w] by auto
  moreover have "alone host np (Sup_Top, s) (Sup_Top, s')"
    using supervise_body_alone [of w host np b t m "Inl s'"] again s by (simp add: next_in_supervise_def)
  ultimately show ?case by (blast intro: alone_trans)
qed

section \<open>Runs of one task\<close>

lemma publish_view: "r_gos s = [g0] \<Longrightarrow> view (publish 0 g s) g = g \<and> r_gos (publish 0 g s) = [g]
    \<and> r_ctx (publish 0 g s) = r_ctx s \<and> r_todo (publish 0 g s) = r_todo s \<and> r_wg (publish 0 g s) = r_wg s
    \<and> r_returned (publish 0 g s) = r_returned s"
  by (cases g) (simp add: publish_def view_def)

lemma alone_run:
  assumes "alone host np g g'" and "with_ctx (r_ctx s) host = host" and "r_gos s = [g]" and "view s g = g"
  shows "\<exists>n s'. run_all_run host np s n s' \<and> r_gos s' = [g'] \<and> view s' g' = g' \<and> r_ctx s' = r_ctx s
    \<and> r_todo s' = r_todo s \<and> r_wg s' = r_wg s \<and> r_returned s' = r_returned s"
  using assms(1)
proof (induction rule: alone.induct)
  case here
  show ?case using assms(3,4) by (blast intro: run_of.start)
next
  case (one g1 g2)
  then obtain n s1 where s1: "run_all_run host np s n s1" "r_gos s1 = [g1]" "view s1 g1 = g1" "r_ctx s1 = r_ctx s"
      "r_todo s1 = r_todo s" "r_wg s1 = r_wg s" "r_returned s1 = r_returned s" by blast
  have "run_all_work host np s1 (publish 0 g2 s1)"
    using run_all_work.step [of 0 s1 host np g2] s1 one.hyps(2) assms(2) by simp
  from run_of.work [where work = "run_all_work host np", OF s1(1) this] publish_view [OF s1(2), of g2] s1
  show ?case by (metis (no_types, lifting))
qed

lemma alone_RunAll:
  assumes "alone host np (go_supervise (t, w)) (Sup_Return, r)" and "with_ctx ctx host = host"
    and "view (RunAll_call e ctx sem [t] [w]) (go_supervise (t, w)) = go_supervise (t, w)"
  shows "\<exists>n s. run_all_run host np (RunAll_call e ctx sem [t] [w]) n s \<and> r_returned s \<and> r_gos s = [(Sup_Over, r)]"
proof -
  let ?s0 = "RunAll_call e ctx sem [t] [w]"
  let ?s1 = "?s0\<lparr>r_todo := [], r_wg := 1, r_gos := [go_supervise (t, w)]\<rparr>"
  have "run_all_work host np ?s0 ?s1"
    using run_all_work.start [of ?s0 "(t, w)" "[]" 1 host np] by (simp add: RunAll_call_def wg_Add_def)
  from run_of.work [where work = "run_all_work host np", OF run_of.start this] have r1: "run_all_run host np ?s0 1 ?s1" by simp
  have "view ?s1 (go_supervise (t, w)) = go_supervise (t, w)" "with_ctx (r_ctx ?s1) host = host"
    using assms(2,3) by (simp_all add: view_def RunAll_call_def)
  then obtain n s2 where s2: "run_all_run host np ?s1 n s2" "r_gos s2 = [(Sup_Return, r)]" "r_todo s2 = []" "r_wg s2 = 1" "\<not> r_returned s2"
    using alone_run [OF assms(1), of ?s1] by (auto simp: RunAll_call_def)
  let ?s3 = "s2\<lparr>r_gos := [(Sup_Over, r)], r_wg := 0\<rparr>"
  have "run_all_work host np s2 ?s3" using run_all_work.wg_Done [of 0 s2 r 0 host np] s2 by (simp add: wg_Add_def)
  moreover have "run_all_work host np ?s3 (?s3\<lparr>r_returned := True\<rparr>)"
    using s2 by (intro run_all_work.returns) (simp_all add: wg_Wait_def)
  ultimately have "run_all_run host np ?s1 (Suc (Suc n)) (?s3\<lparr>r_returned := True\<rparr>)"
    using s2(1) by (blast intro: run_of.work)
  from run_of_trans [OF this r1] show ?thesis by (intro exI conjI) (assumption, simp_all)
qed

text \<open>One task that is not live, at head 115.\<close>

lemma sample_supervised:
  "\<exists>t' w' m'. supervise plain_host (memory_pool, NewBlockPendingPool) (sample_task three_logs 100 10) (fresh_world [115])
      \<lparr>taskRunning = 0, taskRestartTotal = 0, restartTimers = []\<rparr> = Some (t', w', m') \<and> saved (trace w') = [109]"
  unfolding supervise_def
  by (simp add: TaskLoop_def round_simps go_loop.simps [of "supervise_body _ _"] fun_cong [OF supervise_body_def]
      go_loop.simps [of "TaskLoop_body _"] fun_cong [OF TaskLoop_body_def] del: dedup_batch.simps)

lemma sample_alone:
  "\<exists>b t' w' m'. alone plain_host (memory_pool, NewBlockPendingPool) (go_supervise (sample_task three_logs 100 10, fresh_world [115]))
      (Sup_Return, b, t', w', m') \<and> saved (trace w') = [109]"
proof -
  obtain t' w' m' where sv: "supervise plain_host (memory_pool, NewBlockPendingPool) (sample_task three_logs 100 10) (fresh_world [115])
      \<lparr>taskRunning = 0, taskRestartTotal = 0, restartTimers = []\<rparr> = Some (t', w', m')" "saved (trace w') = [109]"
    using sample_supervised by blast
  from supervise_alone [OF go_loop_run [OF sv(1) [unfolded supervise_def]]] sv(2) show ?thesis
    by (auto simp: go_supervise_def roomy_def sample_defs)
qed

section \<open>Properties\<close>

text \<open>
  C22. However the goroutines of \<open>RunAll\<close> are scheduled, and whatever the world does between their steps: the wait group
  counts the goroutines that have not ended (so \<open>Done\<close> never takes it below zero), the running gauge those in their task
  loop; at most the capacity of the shared semaphore are in an RPC, and the in-flight gauge counts each of them twice.
  \<open>RunAll\<close> returns only after all tasks have been started and have ended, with the context done or no task in live mode.
  Each task saves a checkpoint only directly after an accepted hand-over, when it has fetched every block up to it.
\<close>

theorem RunAll_every_schedule:
  assumes "run_all_run host np (RunAll_call e ctx \<lparr>sem_cap = cap, sem_len = 0\<rparr> ts ws) n s" and "length ws = length ts"
  shows "r_wg s = how_many (\<lambda>g. \<not> over g) (r_gos s)
    \<and> r_running s = how_many (\<lambda>g. in_loop (fst g)) (r_gos s)
    \<and> how_many (\<lambda>g. holds_rpc (fst g)) (r_gos s) \<le> int cap
    \<and> r_inflight s = how_many (\<lambda>g. holds_rpc (fst g)) (r_gos s) + how_many (\<lambda>g. holds_local (fst g)) (r_gos s)
    \<and> (r_returned s \<longrightarrow> length (r_gos s) = length ts \<and> (\<forall>g \<in> set (r_gos s). over g)
         \<and> (r_ctx s \<noteq> None \<or> (\<forall>t \<in> set ts. \<not> LiveMode t)))
    \<and> (\<forall>i < length (r_gos s). case r_gos s ! i of (pc, b, t, w, m) \<Rightarrow>
         \<exists>calls. trace w = trace (ws ! i) @ calls \<and> Checkpoint t = last (Checkpoint (ts ! i) # saved calls)
           \<and> saves_guarded calls \<and> (\<forall>before c r after. calls = before @ Call_Save c r # after \<longrightarrow>
                {unat (Checkpoint (ts ! i))..unat c} \<subseteq> set (blocks_fetched before)))"
proof -
  have inv: "run_all_inv cap (zip ts ws) s" by (rule runner.reach_inv [OF assms(1)])
  note tasks = run_all_invD [OF inv assms(2)]
  have counts: "r_wg s = how_many (\<lambda>g. \<not> over g) (r_gos s)" "r_running s = how_many (\<lambda>g. in_loop (fst g)) (r_gos s)"
      "how_many (\<lambda>g. holds_rpc (fst g)) (r_gos s) \<le> int cap"
      "r_inflight s = how_many (\<lambda>g. holds_rpc (fst g)) (r_gos s) + how_many (\<lambda>g. holds_local (fst g)) (r_gos s)"
    using inv by (auto simp: run_all_inv_def counts_ok_def)
  have ended: "length (r_gos s) = length ts \<and> (\<forall>g \<in> set (r_gos s). over g) \<and> (r_ctx s \<noteq> None \<or> (\<forall>t \<in> set ts. \<not> LiveMode t))"
    if "r_returned s"
  proof -
    have all: "\<forall>g \<in> set (r_gos s). over g" "length (r_gos s) = length ts"
      using that inv tasks(1) by (auto simp: run_all_inv_def tasks_ok_def)
    have "\<not> LiveMode (ts ! i)" if "r_ctx s = None" "i < length ts" for i
    proof -
      have "r_gos s ! i \<in> set (r_gos s)" using that all(2) by simp
      with that all(1) inv have "\<not> LiveMode (task_of (r_gos s ! i))"
        unfolding run_all_inv_def tasks_ok_def over_def by fastforce
      then show ?thesis using tasks(2) [of i] that all(2) by (cases "r_gos s ! i") (auto simp: local_inv_def trace_from_def)
    qed
    with all show ?thesis by (auto simp: in_set_conv_nth)
  qed
  have seen: "case r_gos s ! i of (pc, b, t, w, m) \<Rightarrow>
         \<exists>calls. trace w = trace (ws ! i) @ calls \<and> Checkpoint t = last (Checkpoint (ts ! i) # saved calls)
           \<and> saves_guarded calls \<and> no_gaps (Checkpoint (ts ! i)) calls"
    if "i < length (r_gos s)" for i
    using tasks(2) [OF that] by (cases "r_gos s ! i") (auto simp: local_inv_def trace_from_def trace_ok_def dest!: at_ok_trace)
  show ?thesis
    using counts ended seen [unfolded no_gaps_def] by (intro conjI allI impI) blast+
qed

text \<open>One task that is not live runs its round, saves block 109 and ends; then \<open>RunAll\<close> returns.\<close>

theorem RunAll_every_schedule_witness:
  "\<exists>n s b t w m. run_all_run plain_host (memory_pool, NewBlockPendingPool)
       (RunAll_call [115] None \<lparr>sem_cap = 1, sem_len = 0\<rparr> [sample_task three_logs 100 10] [fresh_world [115]]) n s
     \<and> r_returned s \<and> r_wg s = 0 \<and> r_running s = 0 \<and> r_gos s = [(Sup_Over, b, t, w, m)]
     \<and> (\<exists>calls. trace w = calls \<and> saved calls = [109] \<and> Checkpoint t = 109 \<and> saves_guarded calls)"
proof -
  let ?np = "(memory_pool, NewBlockPendingPool)" and ?t = "sample_task three_logs 100 10" and ?w = "fresh_world [115 :: u64]"
  let ?s0 = "RunAll_call [115] None \<lparr>sem_cap = 1, sem_len = 0\<rparr> [?t] [?w]"
  obtain b t' w' m' where al: "alone plain_host ?np (go_supervise (?t, ?w)) (Sup_Return, b, t', w', m')" "saved (trace w') = [109]"
    using sample_alone by blast
  have host: "with_ctx None (plain_host :: u64 list Host) = plain_host" by (simp add: with_ctx_def plain_host_def)
  have "view ?s0 (go_supervise (?t, ?w)) = go_supervise (?t, ?w)"
    by (simp add: view_def go_supervise_def RunAll_call_def sample_defs)
  from alone_RunAll [OF al(1) host this] obtain n s where
    s: "run_all_run plain_host ?np ?s0 n s" "r_returned s" "r_gos s = [(Sup_Over, b, t', w', m')]" by blast
  from RunAll_every_schedule [OF s(1)] have "r_wg s = 0" "r_running s = 0"
      "\<exists>calls. trace w' = calls \<and> Checkpoint t' = last (100 # saved calls) \<and> saves_guarded calls"
    using s(3) by (simp_all add: over_def sample_task_def fresh_world_def)
  with s al(2) show ?thesis
    by (intro exI [of _ n] exI [of _ s] exI [of _ b] exI [of _ t'] exI [of _ w'] exI [of _ m']) auto
qed

text \<open>
  C23. When the context is cancelled \<open>RunAll\<close> returns: from any state it has reached, the goroutines make at most
  thirteen steps each and one more in every schedule, and until \<open>RunAll\<close> has returned one of them can make a step;
  so no schedule that goes on keeps it from returning.
\<close>

theorem RunAll_stops:
  assumes "run_all_run host np (RunAll_call e ctx \<lparr>sem_cap = cap, sem_len = 0\<rparr> ts ws) n s" and "length ws = length ts"
    and "r_ctx s \<noteq> None" and "0 < cap" and "\<forall>w \<in> set ws. has_room (TaskLocalSem w)"
  shows "(\<forall>k s'. run_all_run host np s k s' \<longrightarrow> k \<le> 13 * length ts + 1 \<and> (r_returned s' \<or> (\<exists>s''. run_all_work host np s' s'')))
    \<and> (\<exists>k s'. run_all_run host np s k s' \<and> r_returned s')"
proof -
  have inv: "run_all_inv cap (zip ts ws) s \<and> r_ctx s \<noteq> None" using runner.reach_inv [OF assms(1)] assms(3) by simp
  have room: "with_room (zip ts ws)" using assms(5) by (auto simp: with_room_def dest: set_zip_rightD)
  have more: "r_returned s' \<or> (\<exists>s''. run_all_work host np s' s'')" if "run_all_run host np s k s'" for k s'
    using run_all_progress [OF _ assms(4) room, of s' host np] runner.run_inv [OF that] inv by blast
  moreover have "k \<le> 13 * length ts + 1" if "run_all_run host np s k s'" for k s'
    using cancelled.run_bound [OF that inv] run_all_left_bound [OF _ assms(2)] inv by fastforce
  moreover obtain k s' where "run_all_run host np s k s'" "at_rest (run_all_work host np) s'"
    using cancelled.rests [OF inv, of host np] by blast
  ultimately show ?thesis by (meson at_rest_def)
qed

theorem RunAll_stops_witness:
  "\<exists>k s'. run_all_run plain_host (memory_pool, NewBlockPendingPool)
      (RunAll_call [] (Some Context_Canceled) \<lparr>sem_cap = 1, sem_len = 0\<rparr> [failing_task, failing_task] [fresh_world [], fresh_world []]) k s'
    \<and> r_returned s' \<and> k \<le> 27"
proof -
  let ?s0 = "RunAll_call [] (Some Context_Canceled) \<lparr>sem_cap = 1, sem_len = 0\<rparr> [failing_task, failing_task] [fresh_world [], fresh_world []]"
  have "r_ctx ?s0 \<noteq> None" "\<forall>w \<in> set [fresh_world [], fresh_world [] :: (u64 list, BlockPendingPool) world]. has_room (TaskLocalSem w)"
    by (simp_all add: RunAll_call_def sample_defs)
  from RunAll_stops [where host = plain_host and np = "(memory_pool, NewBlockPendingPool)", OF run_of.start _ this(1) _ this(2)]
  show ?thesis by fastforce
qed

text \<open>
  C24. The tasks of a runner never block each other for good: with at least one slot in the shared semaphore
  and a free slot in each task's own, in every state before \<open>RunAll\<close> returns some goroutine can make a step,
  whether the context is alive or not.
\<close>

theorem RunAll_never_stuck:
  assumes "run_all_run host np (RunAll_call e ctx \<lparr>sem_cap = cap, sem_len = 0\<rparr> ts ws) n s"
    and "0 < cap" and "\<forall>w \<in> set ws. has_room (TaskLocalSem w)" and "\<not> r_returned s"
  shows "\<exists>s'. run_all_work host np s s'"
proof -
  have "with_room (zip ts ws)" using assms(3) by (auto simp: with_room_def dest: set_zip_rightD)
  from run_all_progress [OF runner.reach_inv [OF assms(1)] assms(2) this assms(4)] show ?thesis .
qed

theorem RunAll_never_stuck_witness:
  "\<exists>s'. run_all_work plain_host (memory_pool, NewBlockPendingPool)
      (RunAll_call [115] None \<lparr>sem_cap = 1, sem_len = 0\<rparr> [sample_task three_logs 100 10] [fresh_world [115]]) s'"
  by (rule RunAll_never_stuck [OF run_of.start]) (simp_all add: RunAll_call_def sample_defs)



end
