(* ===== verification/Http_Metrics.thy ===== *)
theory Http_Metrics
  imports Complex_Main Go_Json
begin

text \<open>
  The metrics of \<open>go/logfilter/logfilter.go\<close> and the HTTP server that exposes them. Every metric of the
  package is registered by a \<open>var\<close> declaration through \<open>promauto\<close>, which panics on a name or a
  description it does not accept, before \<open>main\<close> runs. The server is \<open>net/http\<close>'s: the goroutine in
  \<open>ListenAndServe\<close>, the connections it has open, and \<open>Shutdown\<close>.
\<close>

section \<open>The registered metrics\<close>

text \<open>The buckets are decimal fractions here; in Go they are the nearest \<open>float64\<close>.\<close>

datatype metric_kind =
    Counter
  | Gauge
  | Histogram "rat list"

record metric =
  Name :: string
  Help :: string
  Kind :: metric_kind
  Labels :: "string list"

definition logfilter_metrics :: "metric list" where
  "logfilter_metrics =
    [\<lparr>Name = ''logfilter_rpc_retries_total'', Help = ''Total number of RPC retries'', Kind = Counter, Labels = []\<rparr>,
     \<lparr>Name = ''logfilter_logs_total'', Help = ''Total fetched logs after dedup'', Kind = Counter, Labels = []\<rparr>,
     \<lparr>Name = ''logfilter_batch_duration_seconds'', Help = ''Duration of each log fetch batch'',
      Kind = Histogram [1 / 100, 5 / 100, 1 / 10, 5 / 10, 1, 2, 5], Labels = []\<rparr>,
     \<lparr>Name = ''logfilter_task_running'', Help = ''Number of running logfilter tasks'', Kind = Gauge, Labels = []\<rparr>,
     \<lparr>Name = ''logfilter_task_healthy'', Help = ''Task health status, 1=healthy, 0=unhealthy'', Kind = Gauge,
      Labels = [''task_name'']\<rparr>,
     \<lparr>Name = ''logfilter_task_restart_total'', Help = ''Total task restart count'', Kind = Counter,
      Labels = [''task_name'']\<rparr>,
     \<lparr>Name = ''logfilter_rpc_concurrent_inflight'',
      Help = ''Current inflight RPC requests controlled by semaphore'', Kind = Gauge, Labels = []\<rparr>,
     \<lparr>Name = ''logfilter_task_live_mode'', Help = ''1=live listening mode, 0=catching up historical blocks'',
      Kind = Gauge, Labels = [''task_name'']\<rparr>,
     \<lparr>Name = ''logfilter_pending_block_queue'', Help = ''Count of blocks waiting for N block confirmation'',
      Kind = Gauge, Labels = [''task_name'']\<rparr>,
     \<lparr>Name = ''logfilter_rpc_request_total'', Help = ''Total rpc requests, label status=ok/fail'', Kind = Counter,
      Labels = [''task_name'', ''status'']\<rparr>,
     \<lparr>Name = ''logfilter_task_unhealthy_seconds'',
      Help = ''How long task has been unhealthy (seconds), for alerting'', Kind = Gauge, Labels = [''task_name'']\<rparr>]"

text \<open>
  What Prometheus documents: a metric name matches \<open>[a-zA-Z_:][a-zA-Z0-9_:]*\<close>, a label name
  \<open>[a-zA-Z_][a-zA-Z0-9_]*\<close> without a leading \<open>__\<close>, labels differ, the buckets of a histogram increase.
\<close>

definition name_letters :: string where
  "name_letters = ''_abcdefghijklmnopqrstuvwxyzABCDEFGHIJKLMNOPQRSTUVWXYZ''"

definition metric_name_ok :: "string \<Rightarrow> bool" where
  "metric_name_ok s \<longleftrightarrow> s \<noteq> [] \<and> List.member ('':'' @ name_letters) (hd s)
     \<and> list_all (List.member (name_letters @ '':0123456789'')) s"

definition label_name_ok :: "string \<Rightarrow> bool" where
  "label_name_ok s \<longleftrightarrow> s \<noteq> [] \<and> List.member name_letters (hd s) \<and> take 2 s \<noteq> ''__''
     \<and> list_all (List.member (name_letters @ ''0123456789'')) s"

definition metric_ok :: "metric \<Rightarrow> bool" where
  "metric_ok m \<longleftrightarrow> metric_name_ok (Name m) \<and> list_all label_name_ok (Labels m) \<and> distinct (Labels m)
     \<and> (case Kind m of Histogram bs \<Rightarrow> sorted_wrt (<) bs \<and> ''le'' \<notin> set (Labels m) | _ \<Rightarrow> True)"

text \<open>
  A registry accepts such a metric when its name is new; \<open>None\<close> is the panic of \<open>promauto\<close>.
\<close>

definition prometheus_registry :: "(metric \<Rightarrow> 'r \<Rightarrow> 'r option) \<Rightarrow> ('r \<Rightarrow> string set) \<Rightarrow> bool" where
  "prometheus_registry register names \<longleftrightarrow>
     (\<forall>m r. metric_ok m \<and> Name m \<notin> names r \<longrightarrow>
        (\<exists>r'. register m r = Some r' \<and> names r' = insert (Name m) (names r)))"

text \<open>The initialisation of the package: the declarations in their order.\<close>

fun register_all :: "(metric \<Rightarrow> 'r \<Rightarrow> 'r option) \<Rightarrow> metric list \<Rightarrow> 'r \<Rightarrow> 'r option" where
  "register_all register [] r = Some r"
| "register_all register (m # ms) r = Option.bind (register m r) (register_all register ms)"

lemma register_all_ok:
  assumes "prometheus_registry register names" and "list_all metric_ok ms" and "distinct (map Name ms)"
    and "names r \<inter> set (map Name ms) = {}"
  shows "\<exists>r'. register_all register ms r = Some r' \<and> names r' = names r \<union> set (map Name ms)"
  using assms(2-)
proof (induction ms arbitrary: r)
  case (Cons m ms)
  then have "metric_ok m" "Name m \<notin> names r" by auto
  with assms(1) obtain r1 where r1: "register m r = Some r1" "names r1 = insert (Name m) (names r)"
    unfolding prometheus_registry_def by blast
  with Cons.prems have "names r1 \<inter> set (map Name ms) = {}" by auto
  from Cons.IH [OF _ _ this] Cons.prems obtain r2 where
    "register_all register ms r1 = Some r2" "names r2 = names r1 \<union> set (map Name ms)" by auto
  with r1 show ?case by simp
qed simp

lemma logfilter_names_ok: "list_all (\<lambda>m. metric_name_ok (Name m)) logfilter_metrics"
  by code_simp

lemma logfilter_labels_ok: "list_all (\<lambda>m. list_all label_name_ok (Labels m) \<and> distinct (Labels m)) logfilter_metrics"
  by code_simp

lemma logfilter_metrics_ok: "list_all metric_ok logfilter_metrics"
  using logfilter_names_ok logfilter_labels_ok by (simp add: logfilter_metrics_def metric_ok_def)

lemma logfilter_metrics_distinct: "distinct (map Name logfilter_metrics)"
  by code_simp

section \<open>The server\<close>

text \<open>
  What \<open>net/http\<close> keeps: whether \<open>Shutdown\<close> was called, whether the listener is open, the connections in
  use, and where the goroutine is that called \<open>ListenAndServe\<close>. \<open>reported\<close> are the errors it printed.
\<close>

datatype serve_pc =
    Serve_Start
  | Serve_Accept
  | Serve_Returned go_error
  | Serve_Over

record http_server =
  Addr :: string
  Patterns :: "string list"
  in_shutdown :: bool
  listening :: bool
  active :: nat
  serve_pc :: serve_pc
  reported :: "go_error list"

definition new_server :: "string \<Rightarrow> http_server" where
  "new_server addr = \<lparr>Addr = addr, Patterns = [''/metrics''], in_shutdown = False, listening = False, active = 0,
     serve_pc = Serve_Start, reported = []\<rparr>"

text \<open>
  The serving goroutine: \<open>ListenAndServe\<close> returns \<open>ErrServerClosed\<close> after \<open>Shutdown\<close> was called, even if that was
  before it started to listen; otherwise it returns only with an error of the network. The goroutine
  then prints the error if \<open>prints\<close> says so.
\<close>

inductive serve_step :: "(go_error \<Rightarrow> bool) \<Rightarrow> http_server \<Rightarrow> http_server \<Rightarrow> bool" for prints where
  listen: "serve_pc h = Serve_Start \<Longrightarrow> \<not> in_shutdown h \<Longrightarrow>
    serve_step prints h (h\<lparr>listening := True, serve_pc := Serve_Accept\<rparr>)"
| listen_fails: "serve_pc h = Serve_Start \<Longrightarrow> \<not> in_shutdown h \<Longrightarrow> Http_ErrServerClosed \<notin> set (error_chain err) \<Longrightarrow>
    serve_step prints h (h\<lparr>serve_pc := Serve_Returned err\<rparr>)"
| closed: "serve_pc h \<in> {Serve_Start, Serve_Accept} \<Longrightarrow> in_shutdown h \<Longrightarrow>
    serve_step prints h (h\<lparr>serve_pc := Serve_Returned Http_ErrServerClosed\<rparr>)"
| report: "serve_pc h = Serve_Returned err \<Longrightarrow>
    serve_step prints h (h\<lparr>serve_pc := Serve_Over, reported := (if prints err then reported h @ [err] else reported h)\<rparr>)"

text \<open>What clients and the network do: connections open and close, the listener breaks.\<close>

inductive net_step :: "http_server \<Rightarrow> http_server \<Rightarrow> bool" where
  connect: "listening h \<Longrightarrow> net_step h (h\<lparr>active := Suc (active h)\<rparr>)"
| disconnect: "active h = Suc n \<Longrightarrow> net_step h (h\<lparr>active := n\<rparr>)"
| accept_fails: "serve_pc h = Serve_Accept \<Longrightarrow> \<not> in_shutdown h \<Longrightarrow> Http_ErrServerClosed \<notin> set (error_chain err) \<Longrightarrow>
    net_step h (h\<lparr>listening := False, serve_pc := Serve_Returned err\<rparr>)"

text \<open>\<open>Shutdown\<close> closes the listener at once and then waits until no connection is in use.\<close>

definition Shutdown_begin :: "http_server \<Rightarrow> http_server" where
  "Shutdown_begin h = h\<lparr>in_shutdown := True, listening := False\<rparr>"

text \<open>The two conditions under which the error is printed: \<open>StartMetricsServer\<close> and \<open>main\<close>.\<close>

definition prints_StartMetricsServer :: "go_error \<Rightarrow> bool" where
  "prints_StartMetricsServer err \<longleftrightarrow> \<not> errors_Is (Some err) (Some Http_ErrServerClosed)"

definition prints_main :: "go_error \<Rightarrow> bool" where
  "prints_main err \<longleftrightarrow> err \<noteq> Http_ErrServerClosed"

inductive_cases serve_stepE: "serve_step prints h h'"
inductive_cases net_stepE: "net_step h h'"

fun serve_left :: "serve_pc \<Rightarrow> nat" where
  "serve_left Serve_Start = 3"
| "serve_left Serve_Accept = 2"
| "serve_left (Serve_Returned err) = 1"
| "serve_left Serve_Over = 0"

lemma serve_step_left: "serve_step prints h h' \<Longrightarrow> serve_left (serve_pc h') < serve_left (serve_pc h)"
  by (auto elim!: serve_stepE)

lemma net_step_left: "net_step h h' \<Longrightarrow> serve_left (serve_pc h') \<le> serve_left (serve_pc h)"
  by (auto elim!: net_stepE)

text \<open>
  The server's invariant: it listens only while its goroutine accepts and \<open>Shutdown\<close> was not called, and
  nothing about a closed server is printed.
\<close>

definition server_inv :: "http_server \<Rightarrow> bool" where
  "server_inv h \<longleftrightarrow> (listening h \<longleftrightarrow> serve_pc h = Serve_Accept \<and> \<not> in_shutdown h)
     \<and> (serve_pc h = Serve_Returned Http_ErrServerClosed \<longrightarrow> in_shutdown h)
     \<and> Http_ErrServerClosed \<notin> set (reported h)"

lemma server_inv_new: "server_inv (new_server addr)"
  by (simp add: server_inv_def new_server_def)

lemma server_inv_serve:
  assumes "serve_step prints h h'" and "server_inv h" and "\<not> prints Http_ErrServerClosed"
  shows "server_inv h' \<and> in_shutdown h' = in_shutdown h"
  using assms by (auto simp: server_inv_def elim!: serve_stepE split: if_splits)

lemma server_inv_net: "net_step h h' \<Longrightarrow> server_inv h \<Longrightarrow> server_inv h' \<and> in_shutdown h' = in_shutdown h"
  by (auto simp: server_inv_def elim!: net_stepE)

lemma server_inv_Shutdown: "server_inv h \<Longrightarrow> server_inv (Shutdown_begin h)"
  by (auto simp: server_inv_def Shutdown_begin_def)

text \<open>The goroutine is never stuck: while it has not returned it serves or it can move.\<close>

lemma serve_not_stuck:
  assumes "serve_pc h \<noteq> Serve_Over"
  shows "serve_pc h = Serve_Accept \<and> \<not> in_shutdown h \<or> (\<exists>h'. serve_step prints h h')"
  using assms by (cases "serve_pc h"; cases "in_shutdown h") (auto intro: serve_step.intros)

section \<open>Properties\<close>

text \<open>
  The metric declarations of the package are ones that Prometheus accepts, so that initialising the package
  does not panic: with any registry that has none of the names yet, all eleven are registered.
\<close>

theorem logfilter_metrics_registered:
  assumes "prometheus_registry register names" and "names r = {}"
  shows "\<exists>r'. register_all register logfilter_metrics r = Some r' \<and> names r' = set (map Name logfilter_metrics)
    \<and> card (names r') = 11"
proof -
  obtain r' where r': "register_all register logfilter_metrics r = Some r'"
      "names r' = set (map Name logfilter_metrics)"
    using register_all_ok [OF assms(1) logfilter_metrics_ok logfilter_metrics_distinct, of r] assms(2) by auto
  moreover have "card (set (map Name logfilter_metrics)) = length logfilter_metrics"
    using distinct_card [OF logfilter_metrics_distinct] by simp
  moreover have "length logfilter_metrics = 11" by (simp add: logfilter_metrics_def)
  ultimately show ?thesis by simp
qed

definition list_registry :: "metric \<Rightarrow> metric list \<Rightarrow> metric list option" where
  "list_registry m ms = (if metric_ok m \<and> Name m \<notin> Name ` set ms then Some (ms @ [m]) else None)"

theorem logfilter_metrics_registered_witness:
  "\<exists>ms. register_all list_registry logfilter_metrics [] = Some ms \<and> card (Name ` set ms) = 11"
proof -
  have "prometheus_registry list_registry (\<lambda>ms. Name ` set ms)"
    by (auto simp: prometheus_registry_def list_registry_def)
  from logfilter_metrics_registered [OF this, of "[]"] show ?thesis by auto
qed

end
