(* ===== verification/Shutdown.thy ===== *)
theory Shutdown
  imports Http_Metrics Daemon Goroutines
begin

text \<open>
  The shutdown of the log filter: \<open>NewShutdownContext\<close> and \<open>StartMetricsServer\<close> of \<open>logfilter.go\<close>, and the
  signal goroutine, the metrics server and the end of \<open>main\<close> in \<open>main.go\<close>. Both are systems of goroutines
  that share channels, a context and the server; a step relation interleaves them with the
  operating system, which sends signals, and the network. The steps of the goroutines are kept
  apart from those of the surroundings: the first are what the program can be waited for.
\<close>

section \<open>Signals\<close>

datatype os_signal = SIGINT | SIGTERM

text \<open>
  What both programs share: the context, the channel of signals with room for one, whether \<open>signal.Notify\<close> is
  in force, and the metrics server. \<open>sent\<close> are all signals the process got so far; a signal that is not
  asked for ends the process (\<open>killed\<close>), one that finds the channel full is dropped.
\<close>

record signals =
  ctx_done :: bool
  sigCh :: "os_signal list"
  notified :: bool
  sent :: "os_signal list"
  killed :: bool
  server :: http_server

definition deliver :: "os_signal \<Rightarrow> 'a signals_scheme \<Rightarrow> 'a signals_scheme" where
  "deliver sg s =
     (let s = s\<lparr>sent := sent s @ [sg]\<rparr> in
      if \<not> notified s then s\<lparr>killed := True\<rparr>
      else if length (sigCh s) < 1 then s\<lparr>sigCh := sigCh s @ [sg]\<rparr> else s)"

lemma deliver_keeps [simp]:
  "ctx_done (deliver sg s) = ctx_done s" "notified (deliver sg s) = notified s"
  "sent (deliver sg s) = sent s @ [sg]" "server (deliver sg s) = server s"
  "signals.more (deliver sg s) = signals.more s"
  by (simp_all add: deliver_def Let_def)

section \<open>NewShutdownContext and StartMetricsServer\<close>

datatype signal_pc =
    Sig_Select
  | Sig_Cancel
  | Sig_Close
  | Sig_Stop
  | Sig_Over

datatype stop_pc =
    Stop_Receive
  | Stop_Shutdown
  | Stop_Wait
  | Stop_Over

record shutdown = signals +
  parent_done :: bool
  stopCh_closed :: bool
  panicked :: bool
  signal_pc :: signal_pc
  stop_pc :: stop_pc

text \<open>Closing a closed channel panics.\<close>

definition close_stopCh :: "shutdown \<Rightarrow> shutdown" where
  "close_stopCh s = (if stopCh_closed s then s\<lparr>panicked := True\<rparr> else s\<lparr>stopCh_closed := True\<rparr>)"

text \<open>The state after both functions have returned: their goroutines are about to run.\<close>

definition StartMetricsServer :: "string \<Rightarrow> stop_pc \<times> http_server" where
  "StartMetricsServer addr = (Stop_Receive, new_server addr)"

definition NewShutdownContext :: "bool \<Rightarrow> stop_pc \<times> http_server \<Rightarrow> shutdown" where
  "NewShutdownContext parent = (\<lambda>(g, h).
     \<lparr>ctx_done = parent, sigCh = [], notified = True, sent = [], killed = False, server = h,
      parent_done = parent, stopCh_closed = False, panicked = False, signal_pc = Sig_Select, stop_pc = g\<rparr>)"

definition alive :: "shutdown \<Rightarrow> bool" where
  "alive s \<longleftrightarrow> \<not> killed s \<and> \<not> panicked s"

text \<open>The goroutine of \<open>NewShutdownContext\<close>; \<open>select\<close> takes any case that is ready.\<close>

inductive signal_goroutine :: "shutdown \<Rightarrow> shutdown \<Rightarrow> bool" where
  received: "signal_pc s = Sig_Select \<Longrightarrow> sigCh s = sg # rest \<Longrightarrow>
    signal_goroutine s (s\<lparr>sigCh := rest, signal_pc := Sig_Cancel\<rparr>)"
| ctx_Done: "signal_pc s = Sig_Select \<Longrightarrow> ctx_done s \<Longrightarrow> signal_goroutine s (s\<lparr>signal_pc := Sig_Stop\<rparr>)"
| cancel: "signal_pc s = Sig_Cancel \<Longrightarrow> signal_goroutine s (s\<lparr>ctx_done := True, signal_pc := Sig_Close\<rparr>)"
| close: "signal_pc s = Sig_Close \<Longrightarrow> signal_goroutine s ((close_stopCh s)\<lparr>signal_pc := Sig_Stop\<rparr>)"
| signal_Stop: "signal_pc s = Sig_Stop \<Longrightarrow> signal_goroutine s (s\<lparr>notified := False, signal_pc := Sig_Over\<rparr>)"

text \<open>The goroutine of \<open>StartMetricsServer\<close> that waits for the stop channel.\<close>

inductive stop_goroutine :: "shutdown \<Rightarrow> shutdown \<Rightarrow> bool" where
  receive: "stop_pc s = Stop_Receive \<Longrightarrow> stopCh_closed s \<Longrightarrow> stop_goroutine s (s\<lparr>stop_pc := Stop_Shutdown\<rparr>)"
| shut_down: "stop_pc s = Stop_Shutdown \<Longrightarrow>
    stop_goroutine s (s\<lparr>server := Shutdown_begin (server s), stop_pc := Stop_Wait\<rparr>)"
| idle: "stop_pc s = Stop_Wait \<Longrightarrow> active (server s) = 0 \<Longrightarrow> stop_goroutine s (s\<lparr>stop_pc := Stop_Over\<rparr>)"

inductive shutdown_work :: "shutdown \<Rightarrow> shutdown \<Rightarrow> bool" where
  signal: "alive s \<Longrightarrow> signal_goroutine s t \<Longrightarrow> shutdown_work s t"
| stop: "alive s \<Longrightarrow> stop_goroutine s t \<Longrightarrow> shutdown_work s t"
| serve: "alive s \<Longrightarrow> serve_step prints_StartMetricsServer (server s) h \<Longrightarrow> shutdown_work s (s\<lparr>server := h\<rparr>)"

inductive shutdown_outside :: "shutdown \<Rightarrow> shutdown \<Rightarrow> bool" where
  kill: "alive s \<Longrightarrow> shutdown_outside s (deliver sg s)"
| parent: "alive s \<Longrightarrow> shutdown_outside s (s\<lparr>parent_done := True, ctx_done := True\<rparr>)"
| net: "alive s \<Longrightarrow> net_step (server s) h \<Longrightarrow> shutdown_outside s (s\<lparr>server := h\<rparr>)"

inductive_cases signal_goroutineE: "signal_goroutine s t"
inductive_cases stop_goroutineE: "stop_goroutine s t"
inductive_cases shutdown_workE: "shutdown_work s t"
inductive_cases shutdown_outsideE: "shutdown_outside s t"

fun signal_left :: "signal_pc \<Rightarrow> nat" where
  "signal_left Sig_Select = 4"
| "signal_left Sig_Cancel = 3"
| "signal_left Sig_Close = 2"
| "signal_left Sig_Stop = 1"
| "signal_left Sig_Over = 0"

fun stop_left :: "stop_pc \<Rightarrow> nat" where
  "stop_left Stop_Receive = 3"
| "stop_left Stop_Shutdown = 2"
| "stop_left Stop_Wait = 1"
| "stop_left Stop_Over = 0"

definition shutdown_left :: "shutdown \<Rightarrow> nat" where
  "shutdown_left s = signal_left (signal_pc s) + stop_left (stop_pc s) + serve_left (serve_pc (server s))"

definition shutdown_inv :: "shutdown \<Rightarrow> bool" where
  "shutdown_inv s \<longleftrightarrow> \<not> panicked s \<and> server_inv (server s)
     \<and> (signal_pc s \<in> {Sig_Select, Sig_Cancel, Sig_Close} \<longrightarrow> \<not> stopCh_closed s)
     \<and> (signal_pc s = Sig_Select \<longrightarrow> (sent s = [] \<longleftrightarrow> sigCh s = []))
     \<and> (signal_pc s \<in> {Sig_Cancel, Sig_Close} \<or> stopCh_closed s \<longrightarrow> sent s \<noteq> [])
     \<and> (signal_pc s = Sig_Close \<or> stopCh_closed s \<longrightarrow> ctx_done s)
     \<and> (signal_pc s \<in> {Sig_Select, Sig_Cancel} \<and> ctx_done s \<longrightarrow> parent_done s)
     \<and> (parent_done s \<longrightarrow> ctx_done s) \<and> (ctx_done s \<longrightarrow> parent_done s \<or> sent s \<noteq> [])
     \<and> (signal_pc s \<in> {Sig_Stop, Sig_Over} \<longrightarrow> stopCh_closed s \<or> parent_done s)
     \<and> (stop_pc s \<noteq> Stop_Receive \<longrightarrow> stopCh_closed s)
     \<and> (in_shutdown (server s) \<longleftrightarrow> stop_pc s \<in> {Stop_Wait, Stop_Over})
     \<and> (notified s \<longleftrightarrow> signal_pc s \<noteq> Sig_Over) \<and> (killed s \<longrightarrow> signal_pc s = Sig_Over)"


lemma shutdown_inv_signal: "signal_goroutine s t \<Longrightarrow> shutdown_inv s \<Longrightarrow> alive s \<Longrightarrow> shutdown_inv t"
  by (erule signal_goroutineE; simp add: shutdown_inv_def close_stopCh_def alive_def; blast?)

lemma shutdown_inv_stop: "stop_goroutine s t \<Longrightarrow> shutdown_inv s \<Longrightarrow> shutdown_inv t"
  by (erule stop_goroutineE; simp add: shutdown_inv_def server_inv_Shutdown; (simp add: Shutdown_begin_def)?; blast?)

lemma shutdown_inv_server:
  assumes "shutdown_inv s" and "server_inv h \<and> in_shutdown h = in_shutdown (server s)"
  shows "shutdown_inv (s\<lparr>server := h\<rparr>)"
  using assms by (simp add: shutdown_inv_def)

lemma not_prints_closed [simp]: "\<not> prints_StartMetricsServer Http_ErrServerClosed" "\<not> prints_main Http_ErrServerClosed"
  by (simp_all add: prints_StartMetricsServer_def prints_main_def)

lemma shutdown_server: "shutdown_inv s \<Longrightarrow> server_inv (server s)"
  by (simp add: shutdown_inv_def)

lemma deliver_shutdown [simp]:
  "signal_pc (deliver sg s) = signal_pc s" "stopCh_closed (deliver sg s) = stopCh_closed s"
  "stop_pc (deliver sg s) = stop_pc s"
  by (simp_all add: deliver_def Let_def)

lemma shutdown_inv_deliver: "shutdown_inv s \<Longrightarrow> shutdown_inv (deliver sg s)"
  by (auto simp: shutdown_inv_def deliver_def Let_def)

lemma shutdown_left_signal: "signal_goroutine s t \<Longrightarrow> shutdown_left t < shutdown_left s"
  by (erule signal_goroutineE) (auto simp: shutdown_left_def close_stopCh_def)

lemma shutdown_left_stop: "stop_goroutine s t \<Longrightarrow> shutdown_left t < shutdown_left s"
  by (erule stop_goroutineE) (auto simp: shutdown_left_def Shutdown_begin_def)

lemma shutdown_left_serve: "serve_step prints (server s) h \<Longrightarrow> shutdown_left (s\<lparr>server := h\<rparr>) < shutdown_left s"
  by (drule serve_step_left) (simp add: shutdown_left_def)

interpretation lib: goroutines shutdown_work shutdown_outside
  "NewShutdownContext parent (StartMetricsServer addr)" shutdown_inv shutdown_left
proof
  show "shutdown_inv (NewShutdownContext parent (StartMetricsServer addr))"
    by (simp add: shutdown_inv_def NewShutdownContext_def StartMetricsServer_def server_inv_new)
       (simp add: new_server_def)
next
  fix s t assume inv: "shutdown_inv s" and "shutdown_work s t"
  from this(2) show "shutdown_inv t"
    by cases (auto intro: inv shutdown_inv_signal shutdown_inv_stop
      shutdown_inv_server [OF inv server_inv_serve [OF _ shutdown_server [OF inv]]])
next
  fix s t assume inv: "shutdown_inv s" and "shutdown_outside s t"
  from this(2) show "shutdown_inv t"
  proof cases
    case parent
    with inv show ?thesis by (auto simp: shutdown_inv_def)
  qed (auto intro: shutdown_inv_deliver [OF inv] shutdown_inv_server [OF inv server_inv_net [OF _ shutdown_server [OF inv]]])
next
  fix s t assume "shutdown_inv s" and "shutdown_work s t"
  from this(2) show "shutdown_left t < shutdown_left s"
    by cases (auto intro: shutdown_left_signal shutdown_left_stop shutdown_left_serve)
next
  fix s t assume "shutdown_inv s" and "shutdown_outside s t"
  from this(2) show "shutdown_left t \<le> shutdown_left s"
    by cases (auto simp: shutdown_left_def dest: net_step_left)
qed


section \<open>The library functions\<close>

abbreviation shutdown_run :: "shutdown \<Rightarrow> nat \<Rightarrow> shutdown \<Rightarrow> bool" where
  "shutdown_run \<equiv> run_of shutdown_work shutdown_outside"

text \<open>When the goroutines rest after a signal, and nobody else cancelled the context, all is shut down.\<close>

lemma rest_signal:
  assumes "at_rest shutdown_work s" and "alive s"
  shows "signal_pc s = Sig_Over \<or> signal_pc s = Sig_Select \<and> sigCh s = [] \<and> \<not> ctx_done s"
proof -
  have "\<not> signal_goroutine s t" for t using assms by (auto simp: at_rest_def intro: shutdown_work.signal)
  then show ?thesis
    by (cases "signal_pc s"; cases "sigCh s") (blast intro: signal_goroutine.intros)+
qed

lemma rest_stop:
  assumes "at_rest shutdown_work s" and "alive s"
  shows "stop_pc s = Stop_Over \<or> stop_pc s = Stop_Receive \<and> \<not> stopCh_closed s \<or> stop_pc s = Stop_Wait \<and> 0 < active (server s)"
proof -
  have "\<not> stop_goroutine s t" for t using assms by (auto simp: at_rest_def intro: shutdown_work.stop)
  then show ?thesis
    by (cases "stop_pc s"; cases "active (server s)") (auto intro: stop_goroutine.intros)
qed

lemma rest_serve:
  assumes "at_rest shutdown_work s" and "alive s"
  shows "serve_pc (server s) = Serve_Over \<or> serve_pc (server s) = Serve_Accept \<and> \<not> in_shutdown (server s)"
proof -
  have "\<not> serve_step prints_StartMetricsServer (server s) h" for h
    using assms by (auto simp: at_rest_def intro: shutdown_work.serve)
  with serve_not_stuck [of "server s" prints_StartMetricsServer] show ?thesis by blast
qed

lemma rest_after_signal:
  assumes "shutdown_inv s" and "at_rest shutdown_work s" and "alive s" and "sent s \<noteq> []" and "\<not> parent_done s"
  shows "ctx_done s \<and> stopCh_closed s \<and> in_shutdown (server s) \<and> serve_pc (server s) = Serve_Over
    \<and> (active (server s) = 0 \<longrightarrow> stop_pc s = Stop_Over)"
proof -
  have sig: "signal_pc s = Sig_Over"
    using rest_signal [OF assms(2,3)] assms(1,4) by (auto simp: shutdown_inv_def)
  with assms(1,5) have cl: "stopCh_closed s" "ctx_done s" by (auto simp: shutdown_inv_def)
  with rest_stop [OF assms(2,3)] have st: "stop_pc s = Stop_Over \<or> stop_pc s = Stop_Wait \<and> 0 < active (server s)" by auto
  with assms(1) have "in_shutdown (server s)" by (auto simp: shutdown_inv_def)
  with cl st rest_serve [OF assms(2,3)] show ?thesis by auto
qed

text \<open>A context cancelled by its parent leaves the stop channel open forever.\<close>

definition left_open :: "shutdown \<Rightarrow> bool" where
  "left_open s \<longleftrightarrow> shutdown_inv s \<and> signal_pc s \<in> {Sig_Stop, Sig_Over} \<and> \<not> stopCh_closed s"

lemma left_open_forever:
  assumes "shutdown_run s n t" and "left_open s"
  shows "left_open t"
  using assms
proof (induction rule: run_of.induct)
  case (work n t u)
  from work.hyps(2) have "signal_pc u \<in> {Sig_Stop, Sig_Over} \<and> \<not> stopCh_closed u"
    using work by (auto simp: left_open_def elim!: shutdown_workE signal_goroutineE stop_goroutineE)
  with work lib.inv_work show ?case by (auto simp: left_open_def)
next
  case (outside n t u)
  from outside.hyps(2) have "signal_pc u \<in> {Sig_Stop, Sig_Over} \<and> \<not> stopCh_closed u"
    using outside by (auto simp: left_open_def elim!: shutdown_outsideE)
  with outside lib.inv_outside show ?case by (auto simp: left_open_def)
qed

lemma shutdown_invD:
  assumes "shutdown_inv s"
  shows "\<not> panicked s" and "stopCh_closed s \<Longrightarrow> ctx_done s \<and> sent s \<noteq> []"
    and "ctx_done s \<Longrightarrow> parent_done s \<or> sent s \<noteq> []" and "stop_pc s \<noteq> Stop_Receive \<Longrightarrow> stopCh_closed s"
    and "in_shutdown (server s) \<longleftrightarrow> stop_pc s \<in> {Stop_Wait, Stop_Over}"
  using assms by (simp_all add: shutdown_inv_def)

lemma left_open_server: "left_open s \<Longrightarrow> \<not> stopCh_closed s \<and> \<not> in_shutdown (server s)"
  using shutdown_invD(4,5) [of s] by (auto simp: left_open_def)

lemma close_keeps_sent [simp]: "sent (close_stopCh s) = sent s"
  by (simp add: close_stopCh_def)

lemma sent_grows: "shutdown_run s n t \<Longrightarrow> sent s \<noteq> [] \<Longrightarrow> sent t \<noteq> []"
  by (induction rule: run_of.induct)
    (auto elim!: shutdown_workE shutdown_outsideE signal_goroutineE stop_goroutineE)

section \<open>The end of main\<close>

datatype main_pc =
    Main_Settings
  | Main_Connect
  | Main_Task
  | Main_Check "go_error option"

datatype handler_pc =
    Handler_Off
  | Handler_Receive
  | Handler_Cancel
  | Handler_Shutdown
  | Handler_Wait
  | Handler_Over

text \<open>
  \<open>fatal_settings\<close> and \<open>fatal_connect\<close> are the messages with which \<open>log.Fatal\<close> ends the process before and
  after the metrics server is started, if it does.
\<close>

record process = signals +
  fatal_settings :: "string option"
  fatal_connect :: "string option"
  main_pc :: main_pc
  handler_pc :: handler_pc
  outcome :: "exit option"

definition main_process :: "string \<Rightarrow> string option \<Rightarrow> string option \<Rightarrow> process" where
  "main_process metricsAddr bad1 bad2 =
     \<lparr>ctx_done = False, sigCh = [], notified = False, sent = [], killed = False, server = new_server metricsAddr,
      fatal_settings = bad1, fatal_connect = bad2, main_pc = Main_Settings, handler_pc = Handler_Off, outcome = None\<rparr>"

text \<open>The checks of \<open>main\<close> with the settings and with the connection.\<close>

definition settings_fatal :: "('e, 'r) Platform \<Rightarrow> string option" where
  "settings_fatal P =
     (let contracts = daemon_contracts (Getenv P) in
      if env_or (Getenv P) ''RPC_URL'' [] = [] then Some ''RPC_URL is required''
      else if length contracts = 0 \<or> hd contracts = [] then Some ''CONTRACT_ADDRESS is required'' else None)"

definition connect_fatal :: "('e, 'r) Platform \<Rightarrow> 'e rworld \<Rightarrow> string option" where
  "connect_fatal P e =
     (case daemon_connect P (env_or (Getenv P) ''RPC_URL'' []) of
        Inl err \<Rightarrow> Some (''dial rpc: '' @ error_msg err)
      | Inr rpc \<Rightarrow> (case fst (resolve_start P rpc e) of Inl err \<Rightarrow> Some (''get chain head: '' @ error_msg err) | Inr _ \<Rightarrow> None))"

definition daemon_process :: "('e, 'r) Platform \<Rightarrow> 'e rworld \<Rightarrow> process" where
  "daemon_process P e =
     main_process (env_or (Getenv P) ''METRICS_ADDR'' '':8080'') (settings_fatal P) (connect_fatal P e)"

definition main_exit :: "go_error option \<Rightarrow> bool \<Rightarrow> exit" where
  "main_exit err cancelled =
     (case err of Some e \<Rightarrow> if \<not> cancelled then Exit_1 e else Stopped | None \<Rightarrow> Stopped)"

definition running :: "process \<Rightarrow> bool" where
  "running s \<longleftrightarrow> \<not> killed s \<and> outcome s = None"

text \<open>The main goroutine. \<open>TaskLoop\<close> returns once the context is done.\<close>

inductive main_goroutine :: "process \<Rightarrow> process \<Rightarrow> bool" where
  settings: "main_pc s = Main_Settings \<Longrightarrow>
    main_goroutine s (case fatal_settings s of Some msg \<Rightarrow> s\<lparr>outcome := Some (Fatal msg)\<rparr> | None \<Rightarrow> s\<lparr>main_pc := Main_Connect\<rparr>)"
| connect_fails: "main_pc s = Main_Connect \<Longrightarrow> fatal_connect s = Some msg \<Longrightarrow>
    main_goroutine s (s\<lparr>outcome := Some (Fatal msg)\<rparr>)"
| connected: "main_pc s = Main_Connect \<Longrightarrow> fatal_connect s = None \<Longrightarrow>
    main_goroutine s (s\<lparr>notified := True, handler_pc := Handler_Receive, main_pc := Main_Task\<rparr>)"
| task_stops: "main_pc s = Main_Task \<Longrightarrow> ctx_done s \<Longrightarrow>
    main_goroutine s (s\<lparr>main_pc := Main_Check (Some Context_Canceled)\<rparr>)"
| check: "main_pc s = Main_Check err \<Longrightarrow> main_goroutine s (s\<lparr>outcome := Some (main_exit err (ctx_done s))\<rparr>)"

text \<open>The goroutine that waits for a signal; it gives \<open>Shutdown\<close> five seconds.\<close>

inductive handler_goroutine :: "process \<Rightarrow> process \<Rightarrow> bool" where
  receive: "handler_pc s = Handler_Receive \<Longrightarrow> sigCh s = sg # rest \<Longrightarrow>
    handler_goroutine s (s\<lparr>sigCh := rest, handler_pc := Handler_Cancel\<rparr>)"
| cancel: "handler_pc s = Handler_Cancel \<Longrightarrow> handler_goroutine s (s\<lparr>ctx_done := True, handler_pc := Handler_Shutdown\<rparr>)"
| shut_down: "handler_pc s = Handler_Shutdown \<Longrightarrow>
    handler_goroutine s (s\<lparr>server := Shutdown_begin (server s), handler_pc := Handler_Wait\<rparr>)"
| idle: "handler_pc s = Handler_Wait \<Longrightarrow> active (server s) = 0 \<Longrightarrow> handler_goroutine s (s\<lparr>handler_pc := Handler_Over\<rparr>)"
| timeout: "handler_pc s = Handler_Wait \<Longrightarrow> handler_goroutine s (s\<lparr>handler_pc := Handler_Over\<rparr>)"

inductive main_work :: "process \<Rightarrow> process \<Rightarrow> bool" where
  main: "running s \<Longrightarrow> main_goroutine s t \<Longrightarrow> main_work s t"
| handler: "running s \<Longrightarrow> handler_goroutine s t \<Longrightarrow> main_work s t"
| serve: "running s \<Longrightarrow> main_pc s \<noteq> Main_Settings \<Longrightarrow> serve_step prints_main (server s) h \<Longrightarrow> main_work s (s\<lparr>server := h\<rparr>)"

text \<open>A task in live mode returns only with an error (\<open>TaskLoop_inv\<close>); it may do so at any time.\<close>

inductive main_outside :: "process \<Rightarrow> process \<Rightarrow> bool" where
  kill: "running s \<Longrightarrow> main_outside s (deliver sg s)"
| task_fails: "running s \<Longrightarrow> main_pc s = Main_Task \<Longrightarrow> main_outside s (s\<lparr>main_pc := Main_Check (Some err)\<rparr>)"
| net: "running s \<Longrightarrow> net_step (server s) h \<Longrightarrow> main_outside s (s\<lparr>server := h\<rparr>)"

inductive_cases main_goroutineE: "main_goroutine s t"
inductive_cases handler_goroutineE: "handler_goroutine s t"
inductive_cases main_workE: "main_work s t"
inductive_cases main_outsideE: "main_outside s t"

fun main_left :: "main_pc \<Rightarrow> nat" where
  "main_left Main_Settings = 4"
| "main_left Main_Connect = 3"
| "main_left Main_Task = 2"
| "main_left (Main_Check err) = 1"

fun handler_left :: "handler_pc \<Rightarrow> nat" where
  "handler_left Handler_Off = 5"
| "handler_left Handler_Receive = 4"
| "handler_left Handler_Cancel = 3"
| "handler_left Handler_Shutdown = 2"
| "handler_left Handler_Wait = 1"
| "handler_left Handler_Over = 0"

definition process_left :: "process \<Rightarrow> nat" where
  "process_left s = (if outcome s = None then 1 else 0) + main_left (main_pc s) + handler_left (handler_pc s)
     + serve_left (serve_pc (server s))"

definition process_inv :: "process \<Rightarrow> bool" where
  "process_inv s \<longleftrightarrow> server_inv (server s)
     \<and> (notified s \<longleftrightarrow> handler_pc s \<noteq> Handler_Off)
     \<and> (handler_pc s = Handler_Off \<longleftrightarrow> main_pc s \<in> {Main_Settings, Main_Connect})
     \<and> (killed s \<longrightarrow> handler_pc s = Handler_Off)
     \<and> (\<not> killed s \<and> handler_pc s \<in> {Handler_Off, Handler_Receive} \<longrightarrow> (sent s = [] \<longleftrightarrow> sigCh s = []))
     \<and> (handler_pc s = Handler_Off \<longrightarrow> sigCh s = [])
     \<and> (handler_pc s \<notin> {Handler_Off, Handler_Receive} \<longrightarrow> sent s \<noteq> [])
     \<and> (ctx_done s \<longleftrightarrow> handler_pc s \<in> {Handler_Shutdown, Handler_Wait, Handler_Over})
     \<and> (in_shutdown (server s) \<longleftrightarrow> handler_pc s \<in> {Handler_Wait, Handler_Over})
     \<and> main_pc s \<noteq> Main_Check None
     \<and> (outcome s = Some Stopped \<longrightarrow> ctx_done s)
     \<and> (outcome s \<noteq> None \<and> notified s \<longrightarrow> outcome s = Some Stopped \<or> (\<exists>err. outcome s = Some (Exit_1 err)))"

lemma process_inv_main: "main_goroutine s t \<Longrightarrow> process_inv s \<Longrightarrow> running s \<Longrightarrow> process_inv t"
  by (erule main_goroutineE; simp add: process_inv_def running_def main_exit_def split: option.split; blast?)

lemma process_inv_handler: "handler_goroutine s t \<Longrightarrow> process_inv s \<Longrightarrow> process_inv t"
  by (erule handler_goroutineE; simp add: process_inv_def server_inv_Shutdown; (simp add: Shutdown_begin_def)?; blast?)

lemma process_inv_server:
  assumes "process_inv s" and "server_inv h \<and> in_shutdown h = in_shutdown (server s)"
  shows "process_inv (s\<lparr>server := h\<rparr>)"
  using assms by (simp add: process_inv_def) blast

lemma process_server: "process_inv s \<Longrightarrow> server_inv (server s)"
  by (simp add: process_inv_def)

lemma deliver_process [simp]:
  "main_pc (deliver sg s) = main_pc s" "handler_pc (deliver sg s) = handler_pc s" "outcome (deliver sg s) = outcome s"
  by (simp_all add: deliver_def Let_def)

lemma process_inv_deliver: "process_inv s \<Longrightarrow> running s \<Longrightarrow> process_inv (deliver sg s)"
  by (auto simp: process_inv_def running_def deliver_def Let_def)


lemma handler_off: "process_inv s \<Longrightarrow> main_pc s = Main_Connect \<Longrightarrow> handler_pc s = Handler_Off"
  by (simp add: process_inv_def)

interpretation daemon: goroutines main_work main_outside "main_process addr bad1 bad2" process_inv process_left
proof
  show "process_inv (main_process addr bad1 bad2)"
    by (simp add: process_inv_def main_process_def server_inv_new) (simp add: new_server_def)
next
  fix s t assume inv: "process_inv s" and "main_work s t"
  from this(2) show "process_inv t"
    by cases (auto intro: inv process_inv_main process_inv_handler
      process_inv_server [OF inv server_inv_serve [OF _ process_server [OF inv]]])
next
  fix s t assume inv: "process_inv s" and "main_outside s t"
  from this(2) show "process_inv t"
  proof cases
    case (task_fails err)
    with inv show ?thesis by (auto simp: process_inv_def running_def)
  qed (auto intro: process_inv_deliver [OF inv] process_inv_server [OF inv server_inv_net [OF _ process_server [OF inv]]])
next
  fix s t assume "process_inv s" and "main_work s t"
  from this(2) show "process_left t < process_left s"
    by cases (auto simp: process_left_def running_def Shutdown_begin_def handler_off [OF \<open>process_inv s\<close>]
      dest: serve_step_left elim!: main_goroutineE handler_goroutineE split: option.splits)
next
  fix s t assume "process_inv s" and "main_outside s t"
  from this(2) show "process_left t \<le> process_left s"
    by cases (auto simp: process_left_def dest: net_step_left)
qed

text \<open>At rest the process is over, or its task runs and no signal came.\<close>

lemma rest_handler:
  assumes "at_rest main_work s" and "running s"
  shows "handler_pc s \<in> {Handler_Off, Handler_Over} \<or> handler_pc s = Handler_Receive \<and> sigCh s = []"
proof -
  have "\<not> handler_goroutine s t" for t using assms by (auto simp: at_rest_def intro: main_work.handler)
  then show ?thesis
    by (cases "handler_pc s"; cases "sigCh s") (auto intro: handler_goroutine.intros)
qed

lemma rest_main:
  assumes "at_rest main_work s" and "running s"
  shows "main_pc s = Main_Task \<and> \<not> ctx_done s"
proof -
  have "\<not> main_goroutine s t" for t using assms by (auto simp: at_rest_def intro: main_work.main)
  then show ?thesis
    by (cases "main_pc s"; cases "fatal_connect s") (auto intro: main_goroutine.intros)
qed

lemma rest_over:
  assumes "process_inv s" and "at_rest main_work s" and "sent s \<noteq> []"
  shows "\<not> running s"
proof
  assume r: "running s"
  with rest_main [OF assms(2)] have m: "main_pc s = Main_Task" "\<not> ctx_done s" by simp_all
  with rest_handler [OF assms(2) r] assms(1) have "handler_pc s = Handler_Receive" "sigCh s = []"
    by (auto simp: process_inv_def)
  with assms(1,3) r show False by (auto simp: process_inv_def running_def)
qed

lemma process_sent_grows:
  assumes "run_of main_work main_outside s n t"
  shows "(sent s \<noteq> [] \<longrightarrow> sent t \<noteq> []) \<and> (notified s \<longrightarrow> notified t)"
  using assms
  by (induction rule: run_of.induct)
    (auto elim!: main_workE main_outsideE main_goroutineE handler_goroutineE split: option.splits)


abbreviation process_run :: "process \<Rightarrow> nat \<Rightarrow> process \<Rightarrow> bool" where
  "process_run \<equiv> run_of main_work main_outside"

text \<open>The process ends with a fatal message only where a check failed.\<close>

definition fatal_inv :: "process \<Rightarrow> bool" where
  "fatal_inv s \<longleftrightarrow> (main_pc s \<noteq> Main_Settings \<longrightarrow> fatal_settings s = None)
     \<and> (\<forall>msg. outcome s = Some (Fatal msg) \<longrightarrow> fatal_settings s = Some msg \<or> fatal_settings s = None \<and> fatal_connect s = Some msg)"

lemma deliver_fatal [simp]:
  "fatal_settings (deliver sg s) = fatal_settings s" "fatal_connect (deliver sg s) = fatal_connect s"
  by (simp_all add: deliver_def Let_def)

lemma main_exit_not_fatal [simp]: "main_exit err c \<noteq> Fatal msg"
  by (simp add: main_exit_def split: option.split)

lemma fatal_run:
  "process_run s n t \<Longrightarrow> fatal_inv s \<Longrightarrow>
     fatal_inv t \<and> fatal_settings t = fatal_settings s \<and> fatal_connect t = fatal_connect s"
proof (induction rule: run_of.induct)
  case (work n t u)
  then show ?case
    by (auto elim!: main_workE main_goroutineE handler_goroutineE simp: fatal_inv_def running_def split: option.splits)
next
  case (outside n t u)
  then show ?case by (auto elim!: main_outsideE simp: fatal_inv_def running_def)
qed simp

lemma process_run_steps:
  assumes "process_run s n t" and "running t"
  shows "main_goroutine t u \<Longrightarrow> process_run s (Suc n) u" and "handler_goroutine t u \<Longrightarrow> process_run s (Suc n) u"
    and "serve_step prints_main (server t) h \<Longrightarrow> main_pc t \<noteq> Main_Settings \<Longrightarrow> process_run s (Suc n) (t\<lparr>server := h\<rparr>)"
    and "net_step (server t) h \<Longrightarrow> process_run s n (t\<lparr>server := h\<rparr>)" and "process_run s n (deliver sg t)"
  using assms by (auto intro: run_of.work run_of.outside main_work.intros main_outside.intros)

text \<open>The model of \<open>main\<close> without goroutines ends the same way.\<close>

lemma daemon_main_fatal:
  "settings_fatal P = Some msg \<Longrightarrow> daemon_main P ord e r = Some (Fatal msg, None)"
  "settings_fatal P = None \<Longrightarrow> connect_fatal P e = Some msg \<Longrightarrow> daemon_main P ord e r = Some (Fatal msg, None)"
  "settings_fatal P = None \<Longrightarrow> connect_fatal P e = None \<Longrightarrow>
     \<exists>rpc start e'. daemon_main P ord e r = daemon_start P ord rpc start e' r"
  by (auto simp: settings_fatal_def connect_fatal_def daemon_main_def Let_def split: if_splits sum.splits prod.split)

lemma daemon_start_exit:
  assumes "TaskLoop (task_host (main_ctx P)) (daemon_pool P ord, (NewBlockPendingPool, r)) (daemon_task P ord rpc b)
      (daemon_world e r) = Some (err, t, w)"
  shows "\<exists>tw. daemon_start P ord rpc b e r = Some (main_exit err (fst (ctx_Err (task_host (main_ctx P)) (env w)) \<noteq> None), tw)"
  using assms by (auto simp: daemon_start_def main_exit_def split: option.split prod.split)

text \<open>A run of the daemon: it comes up, serves a request, and is stopped by a signal while it serves.\<close>

definition daemon_up :: "string \<Rightarrow> process" where
  "daemon_up addr = (main_process addr None None)\<lparr>notified := True, handler_pc := Handler_Receive, main_pc := Main_Task\<rparr>"

lemma daemon_comes_up: "process_run (main_process addr None None) 2 (daemon_up addr)"
proof -
  let ?s0 = "main_process addr None None" let ?s1 = "?s0\<lparr>main_pc := Main_Connect\<rparr>"
  have r: "running ?s0" "running ?s1" by (simp_all add: main_process_def running_def)
  have "main_goroutine ?s0 ?s1" using main_goroutine.settings [of ?s0] by (simp add: main_process_def)
  then have "process_run ?s0 1 ?s1" using process_run_steps(1) [OF run_of.start r(1)] by simp
  moreover have "main_goroutine ?s1 (daemon_up addr)"
    using main_goroutine.connected [of ?s1] by (simp add: main_process_def daemon_up_def)
  ultimately have "process_run ?s0 (Suc 1) (daemon_up addr)" by (rule process_run_steps(1) [OF _ r(2)])
  then show ?thesis by (simp add: numeral_2_eq_2)
qed

lemma daemon_quick_exit:
  "\<exists>s. process_run (main_process addr None None) 7 s \<and> outcome s = Some Stopped
    \<and> \<not> in_shutdown (server s) \<and> 0 < active (server s)"
proof -
  let ?s0 = "main_process addr None None" and ?s2 = "daemon_up addr"
  let ?h = "(server ?s2)\<lparr>listening := True, serve_pc := Serve_Accept\<rparr>"
  let ?s3 = "?s2\<lparr>server := ?h\<rparr>" let ?s4 = "?s3\<lparr>server := ?h\<lparr>active := Suc (active ?h)\<rparr>\<rparr>"
  let ?s5 = "deliver SIGINT ?s4" let ?s6 = "?s5\<lparr>sigCh := [], handler_pc := Handler_Cancel\<rparr>"
  let ?s7 = "?s6\<lparr>ctx_done := True, handler_pc := Handler_Shutdown\<rparr>"
  let ?s8 = "?s7\<lparr>main_pc := Main_Check (Some Context_Canceled)\<rparr>"
  let ?s9 = "?s8\<lparr>outcome := Some (main_exit (Some Context_Canceled) (ctx_done ?s8))\<rparr>"
  note d = main_process_def new_server_def running_def deliver_def daemon_up_def
  have r: "running ?s2" "running ?s3" "running ?s4" "running ?s5" "running ?s6"
      "running ?s7" "running ?s8"
    by (simp_all add: d)
  note daemon_comes_up [of addr]
  moreover have "serve_step prints_main (server ?s2) ?h" by (rule serve_step.listen) (simp_all add: d)
  ultimately have "process_run ?s0 (Suc 2) ?s3" by (rule process_run_steps(3) [OF _ r(1)]) (simp add: d)
  moreover have "net_step (server ?s3) (?h\<lparr>active := Suc (active ?h)\<rparr>)" using net_step.connect [of ?h] by simp
  ultimately have "process_run ?s0 (Suc 2) ?s5"
    using process_run_steps(4) [OF _ r(2)] process_run_steps(5) [OF _ r(3)] by simp
  moreover have "handler_goroutine ?s5 ?s6" by (rule handler_goroutine.receive [where sg = SIGINT]) (simp_all add: d)
  ultimately have "process_run ?s0 (Suc (Suc 2)) ?s6" by (rule process_run_steps(2) [OF _ r(4)])
  moreover have "handler_goroutine ?s6 ?s7" by (rule handler_goroutine.cancel) simp
  ultimately have "process_run ?s0 (Suc (Suc (Suc 2))) ?s7" by (rule process_run_steps(2) [OF _ r(5)])
  moreover have "main_goroutine ?s7 ?s8" by (rule main_goroutine.task_stops) (simp_all add: d)
  ultimately have "process_run ?s0 (Suc (Suc (Suc (Suc 2)))) ?s8" by (rule process_run_steps(1) [OF _ r(6)])
  moreover have "main_goroutine ?s8 ?s9" by (rule main_goroutine.check) simp
  ultimately have "process_run ?s0 (Suc (Suc (Suc (Suc (Suc 2))))) ?s9" by (rule process_run_steps(1) [OF _ r(7)])
  then have "process_run ?s0 7 ?s9" by (simp add: eval_nat_numeral)
  moreover have "outcome ?s9 = Some Stopped" "\<not> in_shutdown (server ?s9)" "0 < active (server ?s9)"
    by (simp_all add: d main_exit_def)
  ultimately show ?thesis by blast
qed

text \<open>A run of the library functions: a signal, and the goroutine up to the closed channel.\<close>

lemma shutdown_run_signal:
  assumes "shutdown_run s n t" and "alive t"
  shows "signal_goroutine t u \<Longrightarrow> shutdown_run s (Suc n) u" and "shutdown_run s n (deliver sg t)"
  using assms by (auto intro: run_of.work run_of.outside shutdown_work.intros shutdown_outside.intros)

lemma signal_closes_stopCh:
  "\<exists>s. shutdown_run (NewShutdownContext False (StartMetricsServer addr)) 3 s \<and> stopCh_closed s"
proof -
  let ?s0 = "NewShutdownContext False (StartMetricsServer addr)" let ?s1 = "deliver SIGTERM ?s0"
  let ?s2 = "?s1\<lparr>sigCh := [], signal_pc := Sig_Cancel\<rparr>" let ?s3 = "?s2\<lparr>ctx_done := True, signal_pc := Sig_Close\<rparr>"
  let ?s4 = "(close_stopCh ?s3)\<lparr>signal_pc := Sig_Stop\<rparr>"
  note d = NewShutdownContext_def StartMetricsServer_def deliver_def alive_def
  have al: "alive ?s0" "alive ?s1" "alive ?s2" "alive ?s3" by (simp_all add: d)
  have "signal_goroutine ?s1 ?s2" by (rule signal_goroutine.received [where sg = SIGTERM]) (simp_all add: d)
  then have "shutdown_run ?s0 (Suc 0) ?s2"
    by (rule shutdown_run_signal(1) [OF shutdown_run_signal(2) [OF run_of.start al(1)] al(2)])
  moreover have "signal_goroutine ?s2 ?s3" by (rule signal_goroutine.cancel) simp
  ultimately have "shutdown_run ?s0 (Suc (Suc 0)) ?s3" by (rule shutdown_run_signal(1) [OF _ al(3)])
  moreover have "signal_goroutine ?s3 ?s4" by (rule signal_goroutine.close) simp
  ultimately have "shutdown_run ?s0 (Suc (Suc (Suc 0))) ?s4" by (rule shutdown_run_signal(1) [OF _ al(4)])
  then have "shutdown_run ?s0 3 ?s4" by (simp add: eval_nat_numeral)
  moreover have "stopCh_closed ?s4" by (simp add: d close_stopCh_def)
  ultimately show ?thesis by blast
qed

text \<open>A daemon whose settings are complete and whose node answers.\<close>

definition sample_platform :: "(files, mem_db) Platform" where
  "sample_platform = plain_platform (Inr 200)
     [(''RPC_URL'', ''http://node''), (''CONTRACT_ADDRESS'', ''0xcc''), (''START_BLOCK'', ''100'')]"

lemma sample_process: "daemon_process sample_platform (fresh_rworld Map.empty) = main_process '':8080'' None None"
proof -
  have "daemon_contracts (Getenv sample_platform) = [''0xcc'']"
    by (simp add: daemon_contracts_def sample_platform_def plain_platform_def env_or_def TrimSpace_graphic graphic_def)
  then have "settings_fatal sample_platform = None"
    by (simp add: settings_fatal_def sample_platform_def plain_platform_def env_or_def)
  moreover have "ParseUint ''100'' = Inr 100" using ParseUint_FormatUint [of 100] by (simp only: hundred_text)
  then have "connect_fatal sample_platform (fresh_rworld Map.empty) = None"
    by (simp add: connect_fatal_def daemon_connect_def NewRealRPC_def resolve_start_def envUint64_def
        sample_platform_def plain_platform_def)
  moreover have "env_or (Getenv sample_platform) ''METRICS_ADDR'' '':8080'' = '':8080''"
    by (simp add: sample_platform_def plain_platform_def env_or_def)
  ultimately show ?thesis by (simp add: daemon_process_def)
qed

section \<open>Properties\<close>

text \<open>
  C20. However the goroutines of \<open>NewShutdownContext\<close> and \<open>StartMetricsServer\<close> are scheduled and whatever signals
  and requests come: the stop channel is closed at most once (no panic), only after a signal and after the
  context is cancelled; the server is shut down only after the stop channel is closed; the context ends only by
  its parent or a signal; and a server that was shut down is not reported as an error. The goroutines make at most ten steps.
\<close>

theorem shutdown_ordered:
  assumes "shutdown_run (NewShutdownContext parent (StartMetricsServer addr)) n s"
  shows "\<not> panicked s \<and> (stopCh_closed s \<longrightarrow> ctx_done s \<and> sent s \<noteq> []) \<and> (in_shutdown (server s) \<longrightarrow> stopCh_closed s)
    \<and> (ctx_done s \<longrightarrow> parent_done s \<or> sent s \<noteq> []) \<and> Http_ErrServerClosed \<notin> set (reported (server s)) \<and> n \<le> 10"
proof -
  note inv = lib.reach_inv [OF assms]
  have "n \<le> shutdown_left (NewShutdownContext parent (StartMetricsServer addr))"
    using lib.run_bound [OF assms lib.inv_init] by simp
  then have "n \<le> 10" by (simp add: shutdown_left_def NewShutdownContext_def StartMetricsServer_def new_server_def)
  with shutdown_invD [OF inv] shutdown_server [OF inv] show ?thesis by (auto simp: server_inv_def)
qed

theorem shutdown_ordered_witness:
  "\<exists>s. shutdown_run (NewShutdownContext False (StartMetricsServer '':8080'')) 3 s
    \<and> stopCh_closed s \<and> ctx_done s \<and> sent s \<noteq> [] \<and> \<not> panicked s"
  using signal_closes_stopCh [of "'':8080''"] shutdown_ordered by blast

text \<open>
  C21. A signal shuts down everything: unless the parent ends the context as well, the goroutines come to rest after
  at most ten steps, and whenever they rest the context is cancelled, the stop channel closed, the server closed
  and its goroutine over; only connections still in use can keep \<open>Shutdown\<close> waiting, without a limit of time.
\<close>

theorem signal_shuts_down:
  assumes "shutdown_run (NewShutdownContext parent (StartMetricsServer addr)) k s" and "sent s \<noteq> []"
  shows "(\<exists>n t. shutdown_run s n t \<and> at_rest shutdown_work t \<and> n \<le> 10)
    \<and> (\<forall>n t. shutdown_run s n t \<and> at_rest shutdown_work t \<and> \<not> killed t \<and> \<not> parent_done t \<longrightarrow>
         ctx_done t \<and> stopCh_closed t \<and> in_shutdown (server t) \<and> serve_pc (server t) = Serve_Over
         \<and> (active (server t) = 0 \<longrightarrow> stop_pc t = Stop_Over))"
proof -
  note inv = lib.reach_inv [OF assms(1)]
  have "shutdown_left s \<le> shutdown_left (NewShutdownContext parent (StartMetricsServer addr))"
    using lib.run_bound [OF assms(1) lib.inv_init] by simp
  then have "shutdown_left s \<le> 10" by (simp add: shutdown_left_def NewShutdownContext_def StartMetricsServer_def new_server_def)
  with lib.rests [OF inv] have "\<exists>n t. shutdown_run s n t \<and> at_rest shutdown_work t \<and> n \<le> 10" by fastforce
  moreover have "ctx_done t \<and> stopCh_closed t \<and> in_shutdown (server t) \<and> serve_pc (server t) = Serve_Over
      \<and> (active (server t) = 0 \<longrightarrow> stop_pc t = Stop_Over)"
    if "shutdown_run s n t" "at_rest shutdown_work t" "\<not> killed t" "\<not> parent_done t" for n t
    using rest_after_signal [OF lib.run_inv [OF that(1) inv] that(2)] sent_grows [OF that(1) assms(2)] that(3,4)
      shutdown_invD(1) [OF lib.run_inv [OF that(1) inv]]
    by (simp add: alive_def)
  ultimately show ?thesis by blast
qed


theorem signal_shuts_down_witness:
  "\<exists>n t. shutdown_run (deliver SIGINT (NewShutdownContext False (StartMetricsServer '':8080''))) n t
    \<and> at_rest shutdown_work t \<and> n \<le> 10"
proof -
  let ?s0 = "NewShutdownContext False (StartMetricsServer '':8080'')"
  have "alive ?s0" by (simp add: NewShutdownContext_def StartMetricsServer_def alive_def)
  from signal_shuts_down [OF shutdown_run_signal(2) [OF run_of.start this]] show ?thesis by simp
qed

text \<open>
  The comment of \<open>NewShutdownContext\<close> promises that the stop channel is closed once a signal was received.
  That fails when the parent context ends at the same time: \<open>select\<close> may take the case of the done
  context, and then the channel stays open and the metrics server up forever, whatever happens later.
\<close>

theorem signal_lost_to_parent:
  "\<exists>s. shutdown_run (NewShutdownContext False (StartMetricsServer addr)) 1 s \<and> sent s = [SIGTERM]
    \<and> (\<forall>n t. shutdown_run s n t \<longrightarrow> \<not> stopCh_closed t \<and> \<not> in_shutdown (server t))"
proof -
  let ?s0 = "NewShutdownContext False (StartMetricsServer addr)"
  let ?s1 = "deliver SIGTERM ?s0" let ?s2 = "?s1\<lparr>parent_done := True, ctx_done := True\<rparr>"
  let ?s3 = "?s2\<lparr>signal_pc := Sig_Stop\<rparr>"
  have al: "alive ?s0" "alive ?s1" "alive ?s2"
    by (simp_all add: alive_def NewShutdownContext_def StartMetricsServer_def deliver_def)
  have pc: "signal_pc ?s2 = Sig_Select" "ctx_done ?s2" "\<not> stopCh_closed ?s3" "sent ?s3 = [SIGTERM]"
    by (simp_all add: NewShutdownContext_def StartMetricsServer_def)
  have "shutdown_run ?s0 0 ?s2"
    by (rule run_of.outside [OF run_of.outside [OF run_of.start]])
      (rule shutdown_outside.kill [OF al(1)], rule shutdown_outside.parent [OF al(2)])
  then have "shutdown_run ?s0 (Suc 0) ?s3"
    by (rule run_of.work) (rule shutdown_work.signal [OF al(3) signal_goroutine.ctx_Done [OF pc(1,2)]])
  then have run: "shutdown_run ?s0 1 ?s3" by simp
  have "left_open ?s3" using lib.reach_inv [OF run] pc(3) by (simp add: left_open_def)
  then have "\<forall>n t. shutdown_run ?s3 n t \<longrightarrow> \<not> stopCh_closed t \<and> \<not> in_shutdown (server t)"
    using left_open_forever left_open_server by blast
  with run pc(4) show ?thesis by blast
qed

theorem signal_lost_to_parent_witness:
  "\<exists>s. shutdown_run (NewShutdownContext False (StartMetricsServer '':8080'')) 1 s \<and> sent s = [SIGTERM]
    \<and> \<not> stopCh_closed s \<and> \<not> in_shutdown (server s)"
  using signal_lost_to_parent [of "'':8080''"] run_of.start [of shutdown_work shutdown_outside] by metis





text \<open>
  \<open>main\<close> does not wait for the goroutine that shuts the metrics server down: the process can be over
  before \<open>Shutdown\<close> was even called, with a request still being served.
\<close>

theorem daemon_exits_before_server_shutdown:
  "\<exists>n s. process_run (main_process addr None None) n s \<and> outcome s = Some Stopped
    \<and> \<not> in_shutdown (server s) \<and> 0 < active (server s)"
  using daemon_quick_exit by blast

end
