(* ===== verification/Spec2Isabelle.thy ===== *)
theory Spec2Isabelle
  imports BaseFee Scdo_Bytecode Merkle Bridge Sha256_Test Scdo_Wire Daemon_Delivery Run_Schedules Shutdown
begin

text \<open>
  A verification library for the Go code of eip-toolkit (\<open>src/go\<close>): the log filter daemon
  (\<open>logfilter\<close>), the bridge relayer (\<open>bridge\<close>), the Merkle proofs (\<open>merkle\<close>), the EIP-1559 base fee
  (\<open>eip1559\<close>) and the client for SCDO nodes (\<open>scdo\<close>).

  \<^bold>\<open>How Go is modelled.\<close> \<open>Go_Prelude\<close>: \<open>uint64\<close> is a 64-bit word that wraps, strings are byte lists,
  \<open>error\<close> is a datatype with wrapping and \<open>errors.Is\<close>, a fallible call returns \<open>go_error + 'a\<close>. What
  leaves the process (RPC node, disk, Redis, database, Kafka, HTTP, clock, context) is a function on an
  environment \<open>'e\<close> that returns its answer and the environment afterwards; whatever such a function
  does, the theorems hold, unless they name a hypothesis on it. A \<open>for\<close> loop without a bound
  is \<open>go_loop\<close>, whose value \<open>None\<close> means that the loop does not return; the lemmas
  \<open>go_loop_rule\<close>, \<open>go_loop_total\<close>, \<open>go_loop_diverges\<close> and \<open>loop_reach_invariant\<close> are its proof rules.
  \<open>Go_Text\<close> has \<open>strconv\<close>, \<open>encoding/hex\<close> and \<open>strings\<close>; \<open>Go_Json\<close> has \<open>encoding/json\<close>: the encoder with its
  escapes, a parser, and decoding into Go values, with the round trip \<open>json_parse_print\<close>; the parser's fuel of
  twice the length plus two is enough for every text (\<open>json_parse_fuel\<close>). \<open>Json_Raw\<close> adds \<open>RawMessage\<close> and
  \<open>Unmarshaler\<close>, which see the text of a value. \<open>Sha256\<close> is executable and checked on a standard test vector.

  \<^bold>\<open>The log filter\<close> (\<open>go/logfilter/logfilter.go\<close>, \<open>main.go\<close>).
  \<^item> \<open>Log_Records\<close>: \<open>LogResult\<close>, \<open>uniqueKey\<close> and the deduplication loop of \<open>RunOnce\<close>.
  \<^item> \<open>Pending_Pool\<close>: the interface \<open>PendingPool\<close> as a record, its contract as the locale \<open>pending_pool\<close> over the map
    from heights to logs, and \<open>BlockPendingPool\<close>, which keeps it for every order of map iteration.
  \<^item> \<open>Redis_Pool\<close>: \<open>RedisPendingPool\<close> with the JSON of its payloads; the locale \<open>redis_server\<close> states the documented
    behaviour of the commands and transactions, from which the pool keeps the same contract.
  \<^item> \<open>Semaphore\<close>: \<open>RPCSemaphore\<close>, and the use of two of them by several tasks as a step relation.
  \<^item> \<open>Checkpoint\<close>: the three stores of \<open>logfilter.go\<close> and the contract \<open>checkpoint_store\<close>.
  \<^item> \<open>Rpc\<close>: \<open>RPCQuerier\<close>, \<open>IsRateLimitOrRangeErr\<close>, and \<open>RealRPC\<close> with its retry loops.
  \<^item> \<open>Handlers\<close>: \<open>SQLBatchHandler\<close> and \<open>KafkaBatchHandler\<close>; the locale \<open>sql_database\<close> states what a transaction and
    \<open>ON CONFLICT DO NOTHING\<close> promise, the locale \<open>kafka_topic\<close> what \<open>WriteMessages\<close> does.
  \<^item> \<open>Log_Task\<close>: \<open>LogTask\<close>, \<open>RunOnce\<close> and \<open>TaskLoop\<close>, with the metrics as fields of the state and a trace of the calls;
    the case lemmas of a round, its invariants, and the ledger of logs in the context of \<open>pending_pool\<close>.
  \<^item> \<open>Log_Sync\<close>: a round returns, covers the blocks without gaps, loses and duplicates no log, saves a checkpoint
    only after the handler accepted the batch, skips no block before a checkpoint, and reports the errors of its steps.
  \<^item> \<open>Task_Runner\<close>: \<open>TaskRunner\<close> with the restart loop of a goroutine as a function, and the task over the production client.
  \<^item> \<open>Goroutines\<close>: the locale \<open>concurrent\<close> (invariants of interleaved steps of a program and its surroundings) and its extension
    \<open>goroutines\<close> (a bound on the work left, so that every schedule comes to rest).
  \<^item> \<open>Run_All\<close>: \<open>TaskRunner.RunAll\<close> and \<open>Wait\<close> with all goroutines interleaved. \<open>gstep\<close> is one operation of a goroutine, through
    \<open>TaskLoop\<close> and \<open>RunOnce\<close>; \<open>run_all_work\<close> runs one of them on what they share: environment, context, RPC semaphore,
    unlabelled metrics and wait group. Invariants and the work left after a cancellation, as interpretations of the two locales.
  \<^item> \<open>Run_Schedules\<close>: a goroutine without interference is the function of \<open>Task_Runner\<close>, and the properties of every schedule: the
    counts, the bound on RPCs, checkpoints without gaps, no deadlock, and the return of \<open>RunAll\<close> after a cancellation.
  \<^item> \<open>Daemon\<close>: \<open>main\<close>: settings, JSON checkpoint file, start block, and the task put together from the
    parts above, so that the balance of logs holds for the daemon with either pool.
  \<^item> \<open>Delivery\<close>: the composition of task, pool and handler: a round that succeeds hands over every confirmed batch (in the
    context of \<open>pending_pool\<close>), and what a handler does with its batches is what a round does (locale \<open>observed_handler\<close>, with sublocales
    from \<open>sql_database\<close> and \<open>kafka_topic\<close>), so that with \<open>SQLBatchHandler\<close> the logs are in the table.
  \<^item> \<open>Daemon_Delivery\<close>: the same for the daemon with Kafka, either pool and the production client: a message per confirmed log.
  \<^item> \<open>Http_Metrics\<close>: the metric declarations against what Prometheus accepts, and the metrics server: its serving
    goroutine, its connections and \<open>Shutdown\<close>.
  \<^item> \<open>Shutdown\<close>: the goroutines of \<open>NewShutdownContext\<close> and \<open>StartMetricsServer\<close>, and those of \<open>main\<close>, interleaved
    with signals and requests by step relations. Both systems are interpretations of \<open>goroutines\<close>, so that a signal ends them in every schedule.

  \<^bold>\<open>The other programs.\<close>
  \<^item> \<open>Bridge\<close> (\<open>go/bridge/relayer.go\<close>): both handlers and the select loop; every nonce is forwarded at most once.
  \<^item> \<open>Merkle\<close> (\<open>go/merkle/merkle.go\<close>): proofs of leaves verify, as \<open>main\<close> prints, and a proof that verifies belongs to a leaf or
    exhibits a collision of the hash, which is a parameter.
  \<^item> \<open>BaseFee\<close> (\<open>go/eip1559/basefee.go\<close>): the formula, its rounding and its bounds, and what \<open>main\<close> prints.
  \<^item> \<open>Scdo_Bytecode\<close> (\<open>go/scdo/bytecode.go\<close>): the patch against one that follows the instruction stream.
  \<^item> \<open>Scdo_Hex\<close>, \<open>Scdo_Client\<close> (\<open>hex.go\<close>, \<open>jsonrpc.go\<close>, \<open>client.go\<close>, \<open>tx.go\<close>, \<open>wallet.go\<close>): \<open>HexBig\<close> over the scanner of
    \<open>big.Int.SetString\<close>, the JSON-RPC call, the queries, and what \<open>SendTx\<close> puts on the wire.
  \<^item> \<open>Scdo_Wire\<close>: a type of requests, which every body the client sends has.

  \<^bold>\<open>Interfaces.\<close> \<open>pending_pool\<close> and \<open>draining_pool\<close> (pools), \<open>checkpoint_store\<close> (stores), \<open>map_iteration\<close> (Go's map
  order), \<open>forward_once\<close> (the two directions of the bridge), \<open>disk_service\<close>, \<open>redis_service\<close>, \<open>json_disk\<close>, \<open>redis_server\<close>,
  \<open>sql_database\<close> and \<open>kafka_topic\<close> (what is outside), \<open>observed_handler\<close> (handlers), \<open>concurrent\<close> and \<open>goroutines\<close> (systems of
  goroutines). Clients prove their lemmas in the locale of the interface; the implementations are instances by sublocales and contract
  lemmas, and each external interface also has an instance in memory, on which the witnesses run.

  \<^bold>\<open>Not modelled.\<close> The messages the log filter and the relayer print; the HTTP exchange of the metrics endpoint; the texts of \<open>encoding/json\<close> errors and
  Go's nesting limit; \<open>time.ParseDuration\<close> and the Unicode table of \<open>strconv.IsPrint\<close>, which are parameters. In \<open>Run_All\<close>
  a query is one step, and so is buffering and handing over one batch with the saving of its checkpoint; each task has its own pool,
  local semaphore and labelled metrics. The function \<open>RunAll\<close> of \<open>Task_Runner\<close> is the
  view without interference. In \<open>Shutdown\<close> the task is one step that
  can fail at any time and returns once its context is done; what it does is the subject of \<open>Log_Sync\<close> and \<open>Task_Runner\<close>. The
  Solidity contracts, scripts and web pages are in other languages.
\<close>

end
